(* ===== verification/Muduo_Prelude.thy ===== *)
theory Muduo_Prelude
  imports Main "HOL-Library.Word" "HOL-Library.Signed_Division"
begin

text \<open>
  Shared material of the development: the machine types, the ways the program can stop
  (\<open>halt\<close>) with the sequencing of fallible steps, the byte-array copy, C's decimal
  conversions and \<open>snprintf\<close>, and the generic lemmas the component theories use.
\<close>

unbundle bit_operations_syntax

named_theorems loads "reading an object through a pointer whose target is known"
named_theorems halts "case analysis of fallible steps"

section \<open>Types\<close>

type_synonym byte = "8 word"
type_synonym u16 = "16 word"
type_synonym u32 = "32 word"
type_synonym size_t = "64 word"
type_synonym ptr = nat

text \<open>
  Every way in which an operation can fail to return: \<open>LOG_FATAL\<close> ends the process with
  \<open>exit(-1)\<close>, an \<open>assert\<close> fails, a null or dangling pointer is used, memory is read
  or written outside its object, or an exception of the standard library is thrown.
\<close>

datatype halt =
    ExitProcess
  | AssertFailed
  | NullPointer
  | DanglingPointer
  | OutOfBounds
  | LengthError
  | BadFunctionCall

type_synonym 'a result = "halt + 'a"

section \<open>Sequencing of fallible steps\<close>

fun bindE :: "'a result \<Rightarrow> ('a \<Rightarrow> 'b result) \<Rightarrow> 'b result" where
  "bindE (Inl e) f = Inl e"
| "bindE (Inr x) f = f x"

lemma bindE_cong [fundef_cong]:
  "m = m' \<Longrightarrow> (\<And>x. m' = Inr x \<Longrightarrow> f x = g x) \<Longrightarrow> bindE m f = bindE m' g"
  by (cases m') auto

lemma bindE_eq_Inr [halts]: "bindE m f = Inr y \<longleftrightarrow> (\<exists>x. m = Inr x \<and> f x = Inr y)"
  by (cases m) auto

lemma bindE_eq_Inl [halts]:
  "bindE m f = Inl e \<longleftrightarrow> m = Inl e \<or> (\<exists>x. m = Inr x \<and> f x = Inl e)"
  by (cases m) auto

lemma bindE_assoc: "bindE (bindE m f) g = bindE m (\<lambda>x. bindE (f x) g)"
  by (cases m) auto

lemma bindE_Inr_right [simp]: "bindE m Inr = m"
  by (cases m) auto

definition assertE :: "bool \<Rightarrow> halt \<Rightarrow> unit result" where
  "assertE P e = (if P then Inr () else Inl e)"

lemma assertE_eq [simp]:
  "P \<Longrightarrow> assertE P e = Inr ()" "\<not> P \<Longrightarrow> assertE P e = Inl e"
  "assertE P e = Inr u \<longleftrightarrow> P"
  by (auto simp: assertE_def)

text \<open>A C++ range-\<open>for\<close> over a vector whose body may stop the program.\<close>

fun foldE :: "('a \<Rightarrow> 's \<Rightarrow> 's result) \<Rightarrow> 'a list \<Rightarrow> 's \<Rightarrow> 's result" where
  "foldE f [] s = Inr s"
| "foldE f (x # xs) s = bindE (f x s) (foldE f xs)"

lemma foldE_Nil_fun [simp]: "foldE f [] = Inr"
  by (rule ext) simp

lemma foldE_Cons_fun: "foldE f (x # xs) = (\<lambda>s. bindE (f x s) (foldE f xs))"
  by (rule ext) simp

lemma foldE_append [simp]: "foldE f (xs @ ys) s = bindE (foldE f xs s) (foldE f ys)"
proof (induction xs arbitrary: s)
  case (Cons x xs)
  then show ?case by (cases "f x s") auto
qed simp

lemma foldE_invariant:
  assumes "foldE f xs s = Inr s'" and "I s"
    and "\<And>x s s'. x \<in> set xs \<Longrightarrow> I s \<Longrightarrow> f x s = Inr s' \<Longrightarrow> I s'"
  shows "I s'"
  using assms
proof (induction xs arbitrary: s)
  case Nil
  then show ?case by simp
next
  case (Cons x xs)
  then obtain s1 where "f x s = Inr s1" and rest: "foldE f xs s1 = Inr s'"
    by (auto simp: halts)
  with Cons.prems have "I s1" by (meson list.set_intros(1))
  from rest this show ?case
    by (rule Cons.IH) (metis Cons.prems(3) list.set_intros(2))
qed

lemma foldE_returns:
  assumes "I s" and "\<And>x s. x \<in> set xs \<Longrightarrow> I s \<Longrightarrow> \<exists>s'. f x s = Inr s' \<and> I s'"
  shows "\<exists>s'. foldE f xs s = Inr s' \<and> I s'"
  using assms
proof (induction xs arbitrary: s)
  case Nil
  then show ?case by simp
next
  case (Cons x xs)
  then obtain s1 where "f x s = Inr s1" "I s1" by force
  with Cons.IH [of s1] Cons.prems(2) show ?case by simp
qed

section \<open>Byte arrays\<close>

text \<open>The array \<open>ys\<close> after \<open>xs\<close> is copied into it from index \<open>i\<close> on.\<close>

definition overwrite :: "nat \<Rightarrow> 'a list \<Rightarrow> 'a list \<Rightarrow> 'a list" where
  "overwrite i xs ys = take i ys @ xs @ drop (i + length xs) ys"

lemma length_overwrite [simp]:
  "i + length xs \<le> length ys \<Longrightarrow> length (overwrite i xs ys) = length ys"
  by (simp add: overwrite_def)

lemma take_overwrite [simp]: "i \<le> length ys \<Longrightarrow> take i (overwrite i xs ys) = take i ys"
  by (simp add: overwrite_def)

lemma slice_overwrite:
  "i \<le> length ys \<Longrightarrow> take (length xs) (drop i (overwrite i xs ys)) = xs"
  by (simp add: overwrite_def)

lemma slice_before_overwrite:
  assumes "r \<le> i" and "i \<le> length ys"
  shows "take (i + length xs - r) (drop r (overwrite i xs ys)) = take (i - r) (drop r ys) @ xs"
  using assms by (simp add: overwrite_def drop_take)

lemma slice_mono_append:
  "take k (drop r (xs @ ys)) = take k (drop r xs)" if "r + k \<le> length xs"
  using that by simp

lemma slice_extend:
  "r \<le> w \<Longrightarrow> take (w + k - r) (drop r v) = take (w - r) (drop r v) @ take k (drop w v)"
  using take_add [of "w - r" k "drop r v"] by simp

lemma slice_split:
  assumes "r \<le> w" and "w \<le> n"
  shows "take (n - r) (drop r v) = take (w - r) (drop r v) @ take (n - w) (drop w v)"
  using slice_extend [of r w "n - w" v] assms by simp

section \<open>Decimal conversions\<close>

text \<open>\<open>%u\<close> and \<open>%d\<close> of \<open>printf\<close>, \<open>%0<w>d\<close> and \<open>%<w>d\<close> with a width,
  and \<open>snprintf\<close>, which keeps one byte of its buffer for the terminator.\<close>

definition digit_char :: "nat \<Rightarrow> char" where
  "digit_char d = char_of (48 + d)"

fun dec_nat :: "nat \<Rightarrow> string" where
  "dec_nat n = (if n < 10 then [digit_char n] else dec_nat (n div 10) @ [digit_char (n mod 10)])"

declare dec_nat.simps [simp del]

definition dec_int :: "int \<Rightarrow> string" where
  "dec_int i = (if i < 0 then CHR ''-'' # dec_nat (nat (- i)) else dec_nat (nat i))"

lemma digit_char_table [simp]:
  "digit_char 0 = CHR ''0''" "digit_char (Suc 0) = CHR ''1''" "digit_char 1 = CHR ''1''"
  "digit_char 2 = CHR ''2''" "digit_char 3 = CHR ''3''" "digit_char 4 = CHR ''4''"
  "digit_char 5 = CHR ''5''" "digit_char 6 = CHR ''6''" "digit_char 7 = CHR ''7''"
  "digit_char 8 = CHR ''8''" "digit_char 9 = CHR ''9''"
  by code_simp+

definition pad_left :: "char \<Rightarrow> nat \<Rightarrow> string \<Rightarrow> string" where
  "pad_left c w s = replicate (w - length s) c @ s"

definition snprintf :: "nat \<Rightarrow> string \<Rightarrow> string" where
  "snprintf bufsize s = take (bufsize - 1) s"

definition digit_val :: "char \<Rightarrow> nat" where
  "digit_val c = of_char c - 48"

lemma digit_val_digit_char [simp]: "d < 10 \<Longrightarrow> digit_val (digit_char d) = d"
  by (simp add: digit_val_def digit_char_def)

definition undec :: "string \<Rightarrow> nat" where
  "undec s = foldl (\<lambda>a c. 10 * a + digit_val c) 0 s"

lemma undec_dec_nat: "undec (dec_nat n) = n"
proof (induction n rule: dec_nat.induct)
  case (1 n)
  show ?case
  proof (cases "n < 10")
    case True
    then show ?thesis by (simp add: dec_nat.simps [of n] undec_def)
  next
    case False
    with 1 have "undec (dec_nat (n div 10)) = n div 10" by simp
    moreover have "undec (dec_nat n) = 10 * undec (dec_nat (n div 10)) + n mod 10"
      using False by (simp add: dec_nat.simps [of n] undec_def)
    ultimately show ?thesis by simp
  qed
qed

lemma dec_nat_inject [simp]: "dec_nat m = dec_nat n \<longleftrightarrow> m = n"
  by (metis undec_dec_nat)

lemma digit_char_not_sign [simp]:
  assumes "d < 10"
  shows "digit_char d \<noteq> CHR ''-''" and "digit_char d \<noteq> CHR ''#''" and "digit_char d \<noteq> CHR '':''"
    and "digit_char d \<noteq> CHR ''.''"
proof -
  have "of_char (digit_char d) = 48 + d"
    using assms by (simp add: digit_char_def)
  then have "(of_char (digit_char d) :: nat) \<notin> {45, 35, 58, 46}" using assms by auto
  then show "digit_char d \<noteq> CHR ''-''" and "digit_char d \<noteq> CHR ''#''"
    and "digit_char d \<noteq> CHR '':''" and "digit_char d \<noteq> CHR ''.''"
    by auto
qed

definition digit_chars :: "char set" where
  "digit_chars = digit_char ` {0..<10}"

lemma set_dec_nat: "set (dec_nat n) \<subseteq> digit_chars"
proof (induction n rule: dec_nat.induct)
  case (1 n)
  then show ?case by (subst dec_nat.simps) (auto simp: digit_chars_def)
qed

lemma digit_chars_not [simp]:
  "CHR ''-'' \<notin> digit_chars" "CHR ''#'' \<notin> digit_chars" "CHR '':'' \<notin> digit_chars"
  "CHR ''.'' \<notin> digit_chars"
  unfolding digit_chars_def using digit_char_not_sign by (force simp: image_iff)+

lemma dec_nat_nonempty [simp]: "dec_nat n \<noteq> []"
  by (subst dec_nat.simps) simp

lemma dec_nat_no_sign: "dec_nat n \<noteq> CHR ''-'' # s"
  using set_dec_nat [of n] by force

lemma dec_int_inject [simp]: "dec_int i = dec_int j \<longleftrightarrow> i = j"
  using dec_nat_no_sign by (auto simp: dec_int_def dest: sym)

lemma length_dec_nat: "n < 10 ^ Suc k \<Longrightarrow> length (dec_nat n) \<le> Suc k"
proof (induction k arbitrary: n)
  case 0
  then show ?case by (simp add: dec_nat.simps)
next
  case (Suc k)
  show ?case
  proof (cases "n < 10")
    case False
    have "n div 10 < 10 ^ Suc k" using Suc.prems by (simp add: less_mult_imp_div_less)
    then have "length (dec_nat (n div 10)) \<le> Suc k" by (rule Suc.IH)
    with False show ?thesis by (simp add: dec_nat.simps [of n])
  qed (simp add: dec_nat.simps)
qed

lemma snprintf_fits [simp]: "length s < n \<Longrightarrow> snprintf n s = s"
  by (simp add: snprintf_def)

lemma length_snprintf: "0 < n \<Longrightarrow> length (snprintf n s) < n"
  by (simp add: snprintf_def)

section \<open>Words read as natural numbers\<close>

lemma unat_add_size: "unat a + unat b < 2 ^ 64 \<Longrightarrow> unat (a + b :: size_t) = unat a + unat b"
  by (simp add: unat_word_ariths)

lemma unat_sub_size: "unat b \<le> unat a \<Longrightarrow> unat (a - b :: size_t) = unat a - unat b"
  by (simp add: unat_sub word_le_nat_alt)

lemma unat_of_nat_size: "n < 2 ^ 64 \<Longrightarrow> unat (word_of_nat n :: size_t) = n"
  by (simp add: unat_of_nat take_bit_nat_eq_self)

lemma unat_of_int_size: "0 \<le> n \<Longrightarrow> n < 2 ^ 64 \<Longrightarrow> unat (word_of_int n :: size_t) = nat n"
  by (simp add: unat_eq_nat_uint uint_word_of_int take_bit_int_eq_self)

section \<open>Runs of a step relation\<close>

text \<open>
  \<open>runs R s as s'\<close>: the labelled steps \<open>as\<close> of \<open>R\<close> lead from \<open>s\<close> to \<open>s'\<close>. \<open>run_all\<close> follows a list
  of labels with a function that gives the successor, when there is one.
\<close>

inductive runs :: "('s \<Rightarrow> 'a \<Rightarrow> 's \<Rightarrow> bool) \<Rightarrow> 's \<Rightarrow> 'a list \<Rightarrow> 's \<Rightarrow> bool" for R where
  runs_Nil: "runs R s [] s"
| runs_snoc: "runs R s as s' \<Longrightarrow> R s' a s'' \<Longrightarrow> runs R s (as @ [a]) s''"

lemma runs_invariant:
  assumes "runs R s as s'" and "I s" and "\<And>u a u'. I u \<Longrightarrow> R u a u' \<Longrightarrow> I u'"
  shows "I s'"
  using assms(1,2)
proof (induction rule: runs.induct)
  case (runs_snoc s as s' a s'')
  then show ?case using assms(3) by blast
qed simp

lemma runs_trans: "runs R s as s' \<Longrightarrow> runs R s' bs s'' \<Longrightarrow> runs R s (as @ bs) s''"
proof (induction bs arbitrary: s'' rule: rev_induct)
  case Nil
  then show ?case by (auto elim: runs.cases)
next
  case (snoc b bs)
  from snoc.prems(2) obtain u where u: "runs R s' bs u" "R u b s''" by (auto elim: runs.cases)
  have "runs R s ((as @ bs) @ [b]) s''"
    by (rule runs_snoc [OF snoc.IH [OF snoc.prems(1) u(1)] u(2)])
  then show ?case by simp
qed

lemma runs_step: "R s a s' \<Longrightarrow> runs R s [a] s'"
  using runs_snoc [where R = R, OF runs_Nil] by simp

lemma runs_two: "R s a s' \<Longrightarrow> R s' b s'' \<Longrightarrow> runs R s [a, b] s''"
  using runs_snoc [where R = R and as = "[a]", OF runs_step] by simp

fun run_all :: "('s \<Rightarrow> 'a \<Rightarrow> 's option) \<Rightarrow> 's \<Rightarrow> 'a list \<Rightarrow> 's option" where
  "run_all nxt s [] = Some s"
| "run_all nxt s (a # as) = (case nxt s a of None \<Rightarrow> None | Some s' \<Rightarrow> run_all nxt s' as)"

lemma run_all_runs:
  assumes "\<And>s a s'. nxt s a = Some s' \<Longrightarrow> R s a s'"
  shows "run_all nxt s as = Some s' \<Longrightarrow> runs R s as s'"
proof (induction as arbitrary: s)
  case (Cons a as)
  then obtain s1 where s1: "nxt s a = Some s1" "run_all nxt s1 as = Some s'" by (auto split: option.splits)
  have "runs R s [a] s1" by (rule runs_step, rule assms, rule s1(1))
  from runs_trans [OF this Cons.IH [OF s1(2)]] show ?case by simp
qed (simp add: runs_Nil)

text \<open>A system whose steps keep an invariant, use up what is left to do, and stop at rest only.\<close>

locale bounded_work =
  fixes step :: "'s \<Rightarrow> 'a \<Rightarrow> 's \<Rightarrow> bool" and inv :: "'s \<Rightarrow> bool" and left :: "'s \<Rightarrow> nat" and rest :: "'s \<Rightarrow> bool"
  assumes step_keeps: "inv s \<Longrightarrow> step s a s' \<Longrightarrow> inv s'"
    and step_uses: "inv s \<Longrightarrow> step s a s' \<Longrightarrow> left s' < left s"
    and goes_on: "inv s \<Longrightarrow> \<not> rest s \<Longrightarrow> \<exists>a s'. step s a s'"
begin

lemma run_keeps: "runs step s as s' \<Longrightarrow> inv s \<Longrightarrow> inv s'"
  by (erule runs_invariant [where I = inv]) (auto intro: step_keeps)

lemma run_bounded: "runs step s as s' \<Longrightarrow> inv s \<Longrightarrow> length as + left s' \<le> left s"
proof (induction rule: runs.induct)
  case (runs_snoc s as s' a s'')
  then show ?case using step_uses [OF run_keeps [OF runs_snoc.hyps(1) runs_snoc.prems] runs_snoc.hyps(2)] by simp
qed simp

lemma stuck_at_rest: "runs step s as s' \<Longrightarrow> inv s \<Longrightarrow> (\<exists>a s''. step s' a s'') \<or> rest s'"
  using goes_on [OF run_keeps] by blast

lemma reaches_rest: "inv s \<Longrightarrow> \<exists>as s'. runs step s as s' \<and> rest s'"
proof (induction "left s" arbitrary: s rule: less_induct)
  case less
  show ?case
  proof (cases "rest s")
    case True
    then show ?thesis using runs_Nil [of step s] by blast
  next
    case False
    from goes_on [OF less.prems this] obtain a s1 where step: "step s a s1" by blast
    from less.hyps [OF step_uses [OF less.prems step] step_keeps [OF less.prems step]] obtain as s' where
      "runs step s1 as s'" "rest s'" by blast
    then show ?thesis using runs_trans [OF runs_step [of step, OF step]] by blast
  qed
qed

end

end
