(* ===== verification/Muduo_OS.thy ===== *)
theory Muduo_OS
  imports Muduo_Prelude
begin

text \<open>
  The boundary to the operating system. The kernel is not part of the repository: it is a
  parameter \<open>K\<close> of every operation that makes a system call, an arbitrary function of
  the history of calls made so far and of the call being made. Each call is appended with its
  result to the \<open>trace\<close>. What the code relies on is stated by the predicates at the end,
  each one the documented behaviour of a call.
\<close>

section \<open>System calls\<close>

record sockaddr_in =
  sin_family :: u16
  sin_port :: u16
  s_addr :: u32

text \<open>
  \<open>struct epoll_event\<close>: its \<open>data\<close> is a union; the code writes \<open>data.fd\<close> and then
  \<open>data.ptr\<close> over it, so only the pointer is left. A value-initialised event has no
  events and a null pointer.
\<close>

record epoll_event =
  ev_events :: u32
  ev_ptr :: ptr

definition null_event :: epoll_event where
  "null_event = \<lparr>ev_events = 0, ev_ptr = 0\<rparr>"

datatype ctl_op = EPOLL_CTL_ADD | EPOLL_CTL_DEL | EPOLL_CTL_MOD

datatype sockopt = TCP_NODELAY | SO_REUSEADDR | SO_REUSEPORT | SO_KEEPALIVE

datatype syscall =
    SysEpollCreate
  | SysEpollCtl int ctl_op int epoll_event
  | SysEpollWait int nat int
  | SysEventfd
  | SysRead int nat
  | SysWrite int "byte list" nat
  | SysRecv int nat
  | SysShutdownWrite int
  | SysSocket
  | SysBind int sockaddr_in
  | SysListen int int
  | SysAccept int u32
  | SysClose int
  | SysSetsockopt int sockopt int
  | SysGetsockoptError int
  | SysGetsockname int
  | SysTime

record sysret =
  sr_rv :: int
  sr_errno :: int
  sr_value :: int
  sr_bytes :: "byte list"
  sr_events :: "epoll_event list"
  sr_addr :: sockaddr_in

type_synonym history = "(syscall \<times> sysret) list"
type_synonym kernel = "history \<Rightarrow> syscall \<Rightarrow> sysret"

record os =
  trace :: history

definition do_sys :: "kernel \<Rightarrow> syscall \<Rightarrow> 'z os_scheme \<Rightarrow> sysret \<times> 'z os_scheme" where
  "do_sys K c m = (let r = K (trace m) c in (r, m\<lparr>trace := trace m @ [(c, r)]\<rparr>))"

section \<open>What a history says\<close>

text \<open>The bytes the kernel has taken from the program on a descriptor, in order.\<close>

fun sent_by :: "int \<Rightarrow> syscall \<times> sysret \<Rightarrow> byte list" where
  "sent_by fd (SysWrite fd' d n, r) = (if fd' = fd then take (nat (sr_rv r)) d else [])"
| "sent_by fd (_, r) = []"

definition wire :: "int \<Rightarrow> history \<Rightarrow> byte list" where
  "wire fd tr = concat (map (sent_by fd) tr)"

lemma wire_simps [simp]:
  "wire fd [] = []" "wire fd (tr @ tr') = wire fd tr @ wire fd tr'"
  "wire fd [x] = sent_by fd x"
  by (simp_all add: wire_def)

text \<open>
  The interest list of an epoll instance, as \<open>epoll_ctl(2)\<close> defines it from the
  successful calls. A failed call changes nothing.
\<close>

type_synonym interest = "int \<Rightarrow> epoll_event option"

fun interest_step :: "int \<Rightarrow> syscall \<times> sysret \<Rightarrow> interest \<Rightarrow> interest" where
  "interest_step ep (SysEpollCtl ep' opn fd ev, r) I =
     (if ep' = ep \<and> 0 \<le> sr_rv r
      then (case opn of EPOLL_CTL_ADD \<Rightarrow> I(fd \<mapsto> ev) | EPOLL_CTL_MOD \<Rightarrow> I(fd \<mapsto> ev)
            | EPOLL_CTL_DEL \<Rightarrow> I(fd := None))
      else I)"
| "interest_step ep (_, r) I = I"

definition interest :: "int \<Rightarrow> history \<Rightarrow> interest" where
  "interest ep tr = fold (interest_step ep) tr Map.empty"

lemma interest_simps [simp]:
  "interest ep [] = Map.empty"
  "interest ep (tr @ [x]) = interest_step ep x (interest ep tr)"
  by (simp_all add: interest_def)

text \<open>
  A call is legal when it is none of the cases the manual answers with \<open>EEXIST\<close> or
  \<open>ENOENT\<close>: a descriptor is added only when absent, modified or deleted only when present.
\<close>

definition ctl_legal :: "history \<Rightarrow> int \<Rightarrow> ctl_op \<Rightarrow> int \<Rightarrow> bool" where
  "ctl_legal tr ep opn fd =
     (if opn = EPOLL_CTL_ADD then interest ep tr fd = None else interest ep tr fd \<noteq> None)"

fun ctl_conforms :: "history \<Rightarrow> syscall \<times> sysret \<Rightarrow> bool" where
  "ctl_conforms tr (SysEpollCtl ep opn fd ev, r) = ctl_legal tr ep opn fd"
| "ctl_conforms tr (_, r) = True"

text \<open>A history whose \<open>epoll_ctl\<close> calls are all legal where they are made.\<close>

definition history_conforms :: "history \<Rightarrow> bool" where
  "history_conforms tr \<longleftrightarrow> (\<forall>i < length tr. ctl_conforms (take i tr) (tr ! i))"

lemma history_conforms_snoc [simp]:
  "history_conforms (tr @ [x]) \<longleftrightarrow> history_conforms tr \<and> ctl_conforms tr x"
  by (auto simp: history_conforms_def nth_append less_Suc_eq)

lemma history_snoc_pair [simp]:
  "history_conforms (tr @ [x, y]) \<longleftrightarrow> history_conforms tr \<and> ctl_conforms tr x \<and> ctl_conforms (tr @ [x]) y"
  "interest ep (tr @ [x, y]) = interest_step ep y (interest_step ep x (interest ep tr))"
  using history_conforms_snoc [of "tr @ [x]" y] by (simp_all add: interest_def)

lemma history_conforms_Nil [simp]: "history_conforms []"
  by (simp add: history_conforms_def)

section \<open>Documented behaviour of the calls\<close>

text \<open>
  \<open>write(2)\<close> and \<open>recv(2)\<close> return at most the count they are given; \<open>epoll_ctl(2)\<close>
  answers a legal call without an error (no shortage of kernel memory or watches);
  \<open>epoll_wait(2)\<close> returns at most the number of events asked for.
\<close>

definition write_documented :: "kernel \<Rightarrow> bool" where
  "write_documented K \<longleftrightarrow> (\<forall>tr fd d n. sr_rv (K tr (SysWrite fd d n)) \<le> int n)"

definition recv_documented :: "kernel \<Rightarrow> bool" where
  "recv_documented K \<longleftrightarrow> (\<forall>tr fd n. sr_rv (K tr (SysRecv fd n)) \<le> int n)"

definition ctl_documented :: "kernel \<Rightarrow> bool" where
  "ctl_documented K \<longleftrightarrow> (\<forall>tr ep opn fd ev. ctl_legal tr ep opn fd \<longrightarrow>
     sr_rv (K tr (SysEpollCtl ep opn fd ev)) = 0)"

definition epoll_wait_documented :: "kernel \<Rightarrow> bool" where
  "epoll_wait_documented K \<longleftrightarrow> (\<forall>tr ep n t. sr_rv (K tr (SysEpollWait ep n t)) \<le> int n
     \<and> length (sr_events (K tr (SysEpollWait ep n t))) = nat (sr_rv (K tr (SysEpollWait ep n t))))"

lemma write_documentedD: "write_documented K \<Longrightarrow> sr_rv (K tr (SysWrite fd d n)) \<le> int n"
  by (simp add: write_documented_def)

lemma recv_documentedD: "recv_documented K \<Longrightarrow> sr_rv (K tr (SysRecv fd n)) \<le> int n"
  by (simp add: recv_documented_def)

lemma ctl_documentedD:
  "ctl_documented K \<Longrightarrow> ctl_legal tr ep opn fd \<Longrightarrow> sr_rv (K tr (SysEpollCtl ep opn fd ev)) = 0"
  by (simp add: ctl_documented_def)

text \<open>
  Concrete kernels for the witnesses: every call succeeds with value 0, or every
  \<open>write\<close> takes at most \<open>q\<close> bytes.
\<close>

definition zero_ret :: sysret where
  "zero_ret = \<lparr>sr_rv = 0, sr_errno = 0, sr_value = 0, sr_bytes = [], sr_events = [],
     sr_addr = \<lparr>sin_family = 0, sin_port = 0, s_addr = 0\<rparr>\<rparr>"

definition quiet_kernel :: kernel where
  "quiet_kernel tr c = zero_ret"

definition quota_kernel :: "nat \<Rightarrow> kernel" where
  "quota_kernel q tr c =
     (case c of SysWrite fd d n \<Rightarrow> zero_ret\<lparr>sr_rv := int (min q n)\<rparr> | _ \<Rightarrow> zero_ret)"

lemma quiet_kernel_documented:
  "write_documented quiet_kernel" "recv_documented quiet_kernel" "ctl_documented quiet_kernel"
  by (simp_all add: write_documented_def recv_documented_def ctl_documented_def
      quiet_kernel_def zero_ret_def)

lemma quota_kernel_documented:
  "write_documented (quota_kernel q)" "recv_documented (quota_kernel q)"
  "ctl_documented (quota_kernel q)"
  by (simp_all add: write_documented_def recv_documented_def ctl_documented_def
      quota_kernel_def zero_ret_def)

end
