(* ===== verification/Muduo_Buffer.thy ===== *)
theory Muduo_Buffer
  imports Muduo_OS
begin

text \<open>
  The byte buffer of \<open>muduo/Buffer.h\<close>: a growable array with a read and a write index.
  The indices are \<open>size_t\<close> values and are kept at 64 bits. Every copy checks its bounds:
  a copy the code would make outside the array, or from outside the source, is
  \<open>Inl OutOfBounds\<close>, and \<open>resize\<close> beyond the vector's maximal size throws. The lemmas
  show the index invariant, that no copy leaves the array, and that the buffer implements a
  queue of bytes (\<open>contents\<close>).
\<close>

section \<open>State and operations\<close>

record buffer =
  buf_data :: "byte list"
  readerIndex :: size_t
  writerIndex :: size_t

definition kCheapPrepend :: size_t where "kCheapPrepend = 8"
definition kInitialSize :: size_t where "kInitialSize = 1024"

text \<open>The constructor does not use its argument.\<close>

definition Buffer :: "size_t \<Rightarrow> buffer" where
  "Buffer initialSize =
     \<lparr>buf_data = replicate (unat (kCheapPrepend + kInitialSize)) 0,
      readerIndex = kCheapPrepend, writerIndex = kCheapPrepend\<rparr>"

definition buf_size :: "buffer \<Rightarrow> size_t" where
  "buf_size b = word_of_nat (length (buf_data b))"

definition readableBytes :: "buffer \<Rightarrow> size_t" where
  "readableBytes b = writerIndex b - readerIndex b"

definition writableBytes :: "buffer \<Rightarrow> size_t" where
  "writableBytes b = buf_size b - writerIndex b"

definition prependableBytes :: "buffer \<Rightarrow> size_t" where
  "prependableBytes b = readerIndex b"

definition retrieveAll :: "buffer \<Rightarrow> buffer" where
  "retrieveAll b = b\<lparr>readerIndex := kCheapPrepend, writerIndex := kCheapPrepend\<rparr>"

definition retrieve :: "size_t \<Rightarrow> buffer \<Rightarrow> buffer" where
  "retrieve len b =
     (if len \<le> readableBytes b then b\<lparr>readerIndex := readerIndex b + len\<rparr> else retrieveAll b)"

text \<open>\<open>std::string(peek(), len)\<close> reads \<open>len\<close> bytes from the read index on.\<close>

definition peek_string :: "size_t \<Rightarrow> buffer \<Rightarrow> byte list result" where
  "peek_string len b =
     (if unat (readerIndex b) + unat len \<le> length (buf_data b)
      then Inr (take (unat len) (drop (unat (readerIndex b)) (buf_data b)))
      else Inl OutOfBounds)"

definition retrieveAsString :: "size_t \<Rightarrow> buffer \<Rightarrow> (byte list \<times> buffer) result" where
  "retrieveAsString len b = bindE (peek_string len b) (\<lambda>result. Inr (result, retrieve len b))"

definition retrieveAllAsString :: "buffer \<Rightarrow> (byte list \<times> buffer) result" where
  "retrieveAllAsString b = retrieveAsString (readableBytes b) b"

text \<open>\<open>std::vector<char>::resize\<close>: at most \<open>PTRDIFF_MAX\<close> elements, new ones are zero.\<close>

definition vec_max_size :: nat where "vec_max_size = 2 ^ 63 - 1"

definition vec_resize :: "size_t \<Rightarrow> byte list \<Rightarrow> byte list result" where
  "vec_resize n v =
     (if unat n \<le> vec_max_size
      then Inr (take (unat n) v @ replicate (unat n - length v) 0) else Inl LengthError)"

text \<open>\<open>std::copy\<close> inside the array, from \<open>[first, last)\<close> to \<open>dest\<close>.\<close>

definition copy_within :: "size_t \<Rightarrow> size_t \<Rightarrow> size_t \<Rightarrow> byte list \<Rightarrow> byte list result" where
  "copy_within pfirst plast dest v =
     (if unat pfirst \<le> unat plast \<and> unat plast \<le> length v
         \<and> unat dest + (unat plast - unat pfirst) \<le> length v
      then Inr (overwrite (unat dest) (take (unat plast - unat pfirst) (drop (unat pfirst) v)) v)
      else Inl OutOfBounds)"

definition makeSpace :: "size_t \<Rightarrow> buffer \<Rightarrow> buffer result" where
  "makeSpace len b =
     (if writableBytes b + prependableBytes b < len + kCheapPrepend
      then bindE (vec_resize (writerIndex b + len) (buf_data b)) (\<lambda>v. Inr (b\<lparr>buf_data := v\<rparr>))
      else
        let readable = readableBytes b in
        bindE (copy_within (readerIndex b) (writerIndex b) kCheapPrepend (buf_data b)) (\<lambda>v.
          Inr (b\<lparr>buf_data := v, readerIndex := kCheapPrepend,
                 writerIndex := kCheapPrepend + readable\<rparr>)))"

definition ensureWritableBytes :: "size_t \<Rightarrow> buffer \<Rightarrow> buffer result" where
  "ensureWritableBytes len b = (if writableBytes b < len then makeSpace len b else Inr b)"

text \<open>\<open>append(data, len)\<close>: \<open>d\<close> are the bytes of the object \<open>data\<close> points into.\<close>

definition append_bytes :: "byte list \<Rightarrow> size_t \<Rightarrow> buffer \<Rightarrow> buffer result" where
  "append_bytes d len b = bindE (ensureWritableBytes len b) (\<lambda>b1.
     if unat len \<le> length d \<and> unat (writerIndex b1) + unat len \<le> length (buf_data b1)
     then Inr (b1\<lparr>buf_data := overwrite (unat (writerIndex b1)) (take (unat len) d) (buf_data b1),
                  writerIndex := writerIndex b1 + len\<rparr>)
     else Inl OutOfBounds)"

text \<open>
  \<open>writeFd\<close> offers the readable bytes to \<open>write\<close>. The result is the return value and,
  when it is negative, the error number.
\<close>

definition readable_slice :: "buffer \<Rightarrow> byte list" where
  "readable_slice b = take (unat (readableBytes b)) (drop (unat (readerIndex b)) (buf_data b))"

definition writeFd :: "kernel \<Rightarrow> int \<Rightarrow> buffer \<Rightarrow> int \<Rightarrow> 'z os_scheme \<Rightarrow> (int \<times> int) \<times> 'z os_scheme"
  where
  "writeFd K fd b saveErrno m =
     (let (r, m1) = do_sys K (SysWrite fd (readable_slice b) (unat (readableBytes b))) m
      in ((sr_rv r, if sr_rv r < 0 then sr_errno r else saveErrno), m1))"

text \<open>
  \<open>readFd\<close> fills in an array \<open>vec\<close> of two \<open>iovec\<close>s and then calls \<open>recv\<close> with the
  address of that array as its buffer and the number of entries, 1 or 2, as its length. The
  received bytes (\<open>sr_bytes\<close>) land in \<open>vec\<close>, a local of 32 bytes that is not read
  again. \<open>extra\<close> is the uninitialised content of \<open>extraBuffer\<close>.
\<close>

definition extraBuffer_size :: nat where "extraBuffer_size = 65536"

definition readFd :: "kernel \<Rightarrow> byte list \<Rightarrow> int \<Rightarrow> buffer \<Rightarrow> int \<Rightarrow> 'z os_scheme
    \<Rightarrow> (((int \<times> int) \<times> buffer) \<times> 'z os_scheme) result" where
  "readFd K extra fd b saveErrno m =
     (let writable = writableBytes b;
          iovcnt = (if writable < word_of_nat extraBuffer_size then 2 else 1);
          (r, m1) = do_sys K (SysRecv fd iovcnt) m;
          n = sr_rv r
      in if n < 0 then Inr (((n, sr_errno r), b), m1)
         else if word_of_int n \<le> writable
         then Inr (((n, saveErrno), b\<lparr>writerIndex := writerIndex b + word_of_int n\<rparr>), m1)
         else bindE (append_bytes extra (word_of_int n - writable) (b\<lparr>writerIndex := buf_size b\<rparr>))
                (\<lambda>b1. Inr (((n, saveErrno), b1), m1)))"

section \<open>Invariant and abstraction\<close>

definition buffer_inv :: "buffer \<Rightarrow> bool" where
  "buffer_inv b \<longleftrightarrow> 8 \<le> unat (readerIndex b) \<and> unat (readerIndex b) \<le> unat (writerIndex b)
     \<and> unat (writerIndex b) \<le> length (buf_data b) \<and> length (buf_data b) \<le> vec_max_size"

definition contents :: "buffer \<Rightarrow> byte list" where
  "contents b = take (unat (writerIndex b) - unat (readerIndex b))
                  (drop (unat (readerIndex b)) (buf_data b))"

lemma buffer_invD:
  assumes "buffer_inv b"
  shows "8 \<le> unat (readerIndex b)" "unat (readerIndex b) \<le> unat (writerIndex b)"
    "unat (writerIndex b) \<le> length (buf_data b)" "length (buf_data b) < 2 ^ 63"
  using assms by (auto simp: buffer_inv_def vec_max_size_def)

lemma unat_kCheapPrepend [simp]: "unat kCheapPrepend = 8"
  by (simp add: kCheapPrepend_def)

lemma buffer_sizes:
  assumes "buffer_inv b"
  shows unat_buf_size: "unat (buf_size b) = length (buf_data b)"
    and unat_readable: "unat (readableBytes b) = unat (writerIndex b) - unat (readerIndex b)"
    and unat_writable: "unat (writableBytes b) = length (buf_data b) - unat (writerIndex b)"
    and unat_prependable: "unat (prependableBytes b) = unat (readerIndex b)"
proof -
  note inv = buffer_invD [OF assms]
  show size: "unat (buf_size b) = length (buf_data b)"
    using inv(4) by (simp add: buf_size_def unat_of_nat_size)
  show "unat (readableBytes b) = unat (writerIndex b) - unat (readerIndex b)"
    using inv(2) by (simp add: readableBytes_def unat_sub_size)
  show "unat (writableBytes b) = length (buf_data b) - unat (writerIndex b)"
    using inv(3) size by (simp add: writableBytes_def unat_sub_size)
qed (simp add: prependableBytes_def)

lemma length_contents:
  "buffer_inv b \<Longrightarrow> length (contents b) = unat (readableBytes b)"
  using buffer_invD [of b] by (simp add: contents_def unat_readable)

lemma readable_slice_contents: "buffer_inv b \<Longrightarrow> readable_slice b = contents b"
  by (simp add: readable_slice_def contents_def unat_readable)

lemma Buffer_inv: "buffer_inv (Buffer n)" and contents_Buffer: "contents (Buffer n) = []"
  by (simp_all add: buffer_inv_def Buffer_def contents_def kCheapPrepend_def kInitialSize_def
      vec_max_size_def)

lemma retrieveAll_inv: "buffer_inv b \<Longrightarrow> buffer_inv (retrieveAll b)"
  and contents_retrieveAll: "contents (retrieveAll b) = []"
  by (auto simp: buffer_inv_def retrieveAll_def contents_def)

lemma retrieve_props:
  assumes "buffer_inv b"
  shows retrieve_inv: "buffer_inv (retrieve len b)"
    and contents_retrieve: "contents (retrieve len b) = drop (unat len) (contents b)"
proof -
  note inv = buffer_invD [OF assms]
  consider (le) "unat len \<le> unat (writerIndex b) - unat (readerIndex b)"
    | (gt) "unat (writerIndex b) - unat (readerIndex b) < unat len" by linarith
  then have "buffer_inv (retrieve len b) \<and> contents (retrieve len b) = drop (unat len) (contents b)"
  proof cases
    case le
    then have "len \<le> readableBytes b" using assms by (simp add: word_le_nat_alt unat_readable)
    moreover have "unat (readerIndex b + len) = unat (readerIndex b) + unat len"
      using le inv by (intro unat_add_size) simp
    ultimately show ?thesis
      using assms le by (auto simp: retrieve_def buffer_inv_def contents_def drop_take add.commute)
  next
    case gt
    then have "\<not> len \<le> readableBytes b" using assms by (simp add: word_le_nat_alt unat_readable)
    moreover have "length (contents b) \<le> unat len"
      using gt assms by (simp add: length_contents unat_readable)
    ultimately show ?thesis
      using assms by (simp add: retrieve_def retrieveAll_inv contents_retrieveAll)
  qed
  then show "buffer_inv (retrieve len b)"
    and "contents (retrieve len b) = drop (unat len) (contents b)" by simp_all
qed

section \<open>Making room\<close>

text \<open>
  \<open>makeSpace\<close> is reached only when the free tail is too short. It then either grows the
  array to exactly the space needed or moves the readable bytes to the front; the move is never
  onto itself (the read index is past the prepend area), so \<open>std::copy\<close>'s precondition on
  overlapping ranges holds.
\<close>

lemma makeSpace_props:
  assumes inv: "buffer_inv b" and need: "unat (writableBytes b) < unat len"
    and len: "unat len \<le> vec_max_size"
  shows "if unat (writableBytes b) + unat (readerIndex b) < unat len + 8
         then (if unat (writerIndex b) + unat len \<le> vec_max_size
               then \<exists>b'. makeSpace len b = Inr b' \<and> buffer_inv b' \<and> contents b' = contents b
                 \<and> length (buf_data b') = unat (writerIndex b) + unat len
                 \<and> writerIndex b' = writerIndex b
               else makeSpace len b = Inl LengthError)
         else \<exists>b'. makeSpace len b = Inr b' \<and> buffer_inv b' \<and> contents b' = contents b
           \<and> length (buf_data b') = length (buf_data b) \<and> 8 < unat (readerIndex b)
           \<and> unat (writerIndex b') \<le> unat (writerIndex b)
           \<and> unat len \<le> unat (writableBytes b')"
proof -
  note i = buffer_invD [OF inv]
  note sz = buffer_sizes [OF inv]
  have wl: "unat (writerIndex b + len) = unat (writerIndex b) + unat len"
    using i len by (intro unat_add_size) (simp add: vec_max_size_def)
  have l8: "unat (len + kCheapPrepend) = unat len + 8"
    using len by (subst unat_add_size) (simp_all add: vec_max_size_def)
  have wp: "unat (writableBytes b + prependableBytes b)
      = length (buf_data b) - unat (writerIndex b) + unat (readerIndex b)"
    using i by (subst unat_add_size) (simp_all add: sz)
  have guard: "writableBytes b + prependableBytes b < len + kCheapPrepend
      \<longleftrightarrow> unat (writableBytes b) + unat (readerIndex b) < unat len + 8"
    by (simp add: word_less_nat_alt wp l8 sz)
  show ?thesis
  proof (cases "unat (writableBytes b) + unat (readerIndex b) < unat len + 8")
    case True
    have grow: "length (buf_data b) \<le> unat (writerIndex b) + unat len"
      using need i sz by simp
    have "take (unat (writerIndex b) - unat (readerIndex b))
        (drop (unat (readerIndex b)) (buf_data b @ replicate k 0)) = contents b" for k
      using i by (simp add: contents_def)
    with True grow i show ?thesis
      by (auto simp: makeSpace_def guard vec_resize_def wl buffer_inv_def contents_def)
  next
    case False
    let ?k = "unat (writerIndex b) - unat (readerIndex b)"
    define v where
      "v = overwrite 8 (take ?k (drop (unat (readerIndex b)) (buf_data b))) (buf_data b)"
    let ?b = "b\<lparr>buf_data := v, readerIndex := kCheapPrepend,
      writerIndex := kCheapPrepend + readableBytes b\<rparr>"
    have room: "8 + ?k \<le> length (buf_data b)" using i by linarith
    have lv: "length v = length (buf_data b)" using i room by (simp add: v_def)
    have w': "unat (kCheapPrepend + readableBytes b) = 8 + ?k"
      using i by (subst unat_add_size) (simp_all add: sz)
    have ms: "makeSpace len b = Inr ?b"
      using False room i by (simp add: makeSpace_def guard copy_within_def v_def Let_def)
    have inv': "buffer_inv ?b"
      using room lv w' inv by (auto simp: buffer_inv_def)
    have "contents ?b = take ?k (drop 8 v)" using w' by (simp add: contents_def)
    also have "\<dots> = contents b"
      using i by (simp add: v_def overwrite_def contents_def)
    finally have "contents ?b = contents b" .
    moreover have "8 < unat (readerIndex b)" using False need i by linarith
    moreover have "unat len \<le> unat (writableBytes ?b)"
      using False need sz i unat_writable [OF inv'] lv w' by simp
    moreover have "unat (writerIndex ?b) \<le> unat (writerIndex b)" using i w' by simp
    ultimately show ?thesis using False ms inv' lv by auto
  qed
qed

lemma ensureWritableBytes_props:
  assumes inv: "buffer_inv b" and len: "unat len \<le> vec_max_size"
  shows "(\<exists>b'. ensureWritableBytes len b = Inr b' \<and> buffer_inv b' \<and> contents b' = contents b
            \<and> unat len \<le> unat (writableBytes b') \<and> unat (writerIndex b') \<le> unat (writerIndex b)
            \<and> length (buf_data b') \<le> max (length (buf_data b)) (unat (writerIndex b) + unat len))
         \<or> (ensureWritableBytes len b = Inl LengthError
            \<and> vec_max_size < unat (writerIndex b) + unat len)"
proof (cases "writableBytes b < len")
  case True
  then have need: "unat (writableBytes b) < unat len" by (simp add: word_less_nat_alt)
  have w: "unat len \<le> unat (writableBytes b')"
    if "buffer_inv b'" "length (buf_data b') = unat (writerIndex b) + unat len"
      "writerIndex b' = writerIndex b" for b'
    using that by (simp add: unat_writable)
  from makeSpace_props [OF inv need len] show ?thesis
    using True w by (fastforce simp: ensureWritableBytes_def not_le split: if_splits)
next
  case False
  with inv show ?thesis by (auto simp: ensureWritableBytes_def word_less_nat_alt not_less)
qed

text \<open>
  Appending \<open>len\<close> bytes of an object that has at least that many: the only failure is the
  vector's size limit, never a copy outside the array, and the bytes are at the end.
\<close>

lemma append_bytes_props:
  assumes inv: "buffer_inv b" and len: "unat len \<le> vec_max_size" and d: "unat len \<le> length d"
  shows "(\<exists>b'. append_bytes d len b = Inr b' \<and> buffer_inv b'
            \<and> contents b' = contents b @ take (unat len) d
            \<and> unat (writerIndex b') \<le> unat (writerIndex b) + unat len)
         \<or> (append_bytes d len b = Inl LengthError
            \<and> vec_max_size < unat (writerIndex b) + unat len)"
  using ensureWritableBytes_props [OF inv len]
proof
  assume "\<exists>b'. ensureWritableBytes len b = Inr b' \<and> buffer_inv b' \<and> contents b' = contents b
    \<and> unat len \<le> unat (writableBytes b') \<and> unat (writerIndex b') \<le> unat (writerIndex b)
    \<and> length (buf_data b') \<le> max (length (buf_data b)) (unat (writerIndex b) + unat len)"
  then obtain b1 where b1: "ensureWritableBytes len b = Inr b1" "buffer_inv b1"
    "contents b1 = contents b" "unat len \<le> unat (writableBytes b1)"
    "unat (writerIndex b1) \<le> unat (writerIndex b)" by blast
  note i = buffer_invD [OF b1(2)]
  have fits: "unat (writerIndex b1) + unat len \<le> length (buf_data b1)"
    using b1(4) i(3) by (simp add: unat_writable [OF b1(2)])
  have w': "unat (writerIndex b1 + len) = unat (writerIndex b1) + unat len"
    using fits i(4) by (intro unat_add_size) simp
  let ?b = "b1\<lparr>buf_data := overwrite (unat (writerIndex b1)) (take (unat len) d) (buf_data b1),
    writerIndex := writerIndex b1 + len\<rparr>"
  have "append_bytes d len b = Inr ?b" using b1 d fits by (simp add: append_bytes_def)
  moreover have "buffer_inv ?b"
    using b1(2) fits d w' by (auto simp: buffer_inv_def min_def)
  moreover have "contents ?b = contents b1 @ take (unat len) d"
  proof -
    have "contents ?b = take (unat (writerIndex b1) + length (take (unat len) d)
        - unat (readerIndex b1)) (drop (unat (readerIndex b1)) (buf_data ?b))"
      using d w' by (simp add: contents_def min_def)
    also have "\<dots> = contents b1 @ take (unat len) d"
      unfolding contents_def
      using slice_before_overwrite [of "unat (readerIndex b1)" "unat (writerIndex b1)" "buf_data b1"
          "take (unat len) d"] i by simp
    finally show ?thesis .
  qed
  moreover have "unat (writerIndex ?b) \<le> unat (writerIndex b) + unat len"
    using w' b1(5) by simp
  ultimately show ?thesis using b1(3) by auto
qed (simp add: append_bytes_def)

lemma retrieveAllAsString_props:
  assumes "buffer_inv b"
  shows "retrieveAllAsString b = Inr (contents b, retrieve (readableBytes b) b)"
    and "contents (retrieve (readableBytes b) b) = []"
proof -
  have le: "unat (readerIndex b) + unat (readableBytes b) \<le> length (buf_data b)"
    using buffer_invD [OF assms] by (simp add: unat_readable [OF assms])
  show "retrieveAllAsString b = Inr (contents b, retrieve (readableBytes b) b)"
    using le assms by (simp add: retrieveAllAsString_def retrieveAsString_def peek_string_def
        contents_def unat_readable)
  show "contents (retrieve (readableBytes b) b) = []"
    using assms by (simp add: contents_retrieve length_contents)
qed

section \<open>The byte queue a buffer promises\<close>

text \<open>
  The contract the clients of a buffer rely on: \<open>push\<close> adds at the end or throws,
  \<open>discard\<close> drops from the front (everything, when asked for more than there is),
  \<open>pull\<close> returns what it drops. \<open>used\<close>
  bounds the space taken, which only a push extends; a push within \<open>capacity\<close> succeeds.
\<close>

datatype queue_op = Push "byte list" | Discard nat | Clear | Pull nat | PullAll

fun queue_exec :: "queue_op list \<Rightarrow> byte list \<Rightarrow> byte list \<times> byte list" where
  "queue_exec [] q = ([], q)"
| "queue_exec (Push xs # ops) q = queue_exec ops (q @ xs)"
| "queue_exec (Discard n # ops) q = queue_exec ops (drop n q)"
| "queue_exec (Clear # ops) q = queue_exec ops []"
| "queue_exec (Pull n # ops) q = (let (out, q') = queue_exec ops (drop n q) in (take n q @ out, q'))"
| "queue_exec (PullAll # ops) q = (let (out, q') = queue_exec ops [] in (q @ out, q'))"

fun pulls_ok :: "queue_op list \<Rightarrow> byte list \<Rightarrow> bool" where
  "pulls_ok [] q = True"
| "pulls_ok (Push xs # ops) q = pulls_ok ops (q @ xs)"
| "pulls_ok (Discard n # ops) q = pulls_ok ops (drop n q)"
| "pulls_ok (Clear # ops) q = pulls_ok ops []"
| "pulls_ok (Pull n # ops) q = (n \<le> length q \<and> pulls_ok ops (drop n q))"
| "pulls_ok (PullAll # ops) q = pulls_ok ops []"

fun pushed :: "queue_op list \<Rightarrow> nat" where
  "pushed [] = 0"
| "pushed (Push xs # ops) = length xs + pushed ops"
| "pushed (_ # ops) = pushed ops"

record 'q queue_impl =
  q_push :: "byte list \<Rightarrow> 'q \<Rightarrow> 'q result"
  q_discard :: "nat \<Rightarrow> 'q \<Rightarrow> 'q"
  q_clear :: "'q \<Rightarrow> 'q"
  q_pull :: "nat \<Rightarrow> 'q \<Rightarrow> (byte list \<times> 'q) result"
  q_pull_all :: "'q \<Rightarrow> (byte list \<times> 'q) result"

fun impl_exec :: "'q queue_impl \<Rightarrow> queue_op list \<Rightarrow> 'q \<Rightarrow> (byte list \<times> 'q) result" where
  "impl_exec Q [] q = Inr ([], q)"
| "impl_exec Q (Push xs # ops) q = bindE (q_push Q xs q) (impl_exec Q ops)"
| "impl_exec Q (Discard n # ops) q = impl_exec Q ops (q_discard Q n q)"
| "impl_exec Q (Clear # ops) q = impl_exec Q ops (q_clear Q q)"
| "impl_exec Q (Pull n # ops) q = bindE (q_pull Q n q) (\<lambda>(s, q1).
     bindE (impl_exec Q ops q1) (\<lambda>(out, q'). Inr (s @ out, q')))"
| "impl_exec Q (PullAll # ops) q = bindE (q_pull_all Q q) (\<lambda>(s, q1).
     bindE (impl_exec Q ops q1) (\<lambda>(out, q'). Inr (s @ out, q')))"

locale byte_queue =
  fixes inv :: "'q \<Rightarrow> bool"
    and bytes_of :: "'q \<Rightarrow> byte list"
    and used :: "'q \<Rightarrow> nat"
    and capacity :: nat
    and Q :: "'q queue_impl"
  assumes push_law: "inv q \<Longrightarrow> used q + length xs \<le> capacity \<Longrightarrow>
      \<exists>q'. q_push Q xs q = Inr q' \<and> inv q' \<and> bytes_of q' = bytes_of q @ xs
        \<and> used q' \<le> used q + length xs"
    and discard_law: "inv q \<Longrightarrow> inv (q_discard Q n q)
      \<and> bytes_of (q_discard Q n q) = drop n (bytes_of q) \<and> used (q_discard Q n q) \<le> used q"
    and clear_law: "inv q \<Longrightarrow> inv (q_clear Q q) \<and> bytes_of (q_clear Q q) = []
      \<and> used (q_clear Q q) \<le> used q"
    and pull_law: "inv q \<Longrightarrow> n \<le> length (bytes_of q) \<Longrightarrow>
      \<exists>q'. q_pull Q n q = Inr (take n (bytes_of q), q') \<and> inv q' \<and> bytes_of q' = drop n (bytes_of q)
        \<and> used q' \<le> used q"
    and pull_all_law: "inv q \<Longrightarrow>
      \<exists>q'. q_pull_all Q q = Inr (bytes_of q, q') \<and> inv q' \<and> bytes_of q' = [] \<and> used q' \<le> used q"
begin

lemma exec_refines:
  "inv q \<Longrightarrow> used q + pushed ops \<le> capacity \<Longrightarrow> pulls_ok ops (bytes_of q) \<Longrightarrow>
    \<exists>out q'. impl_exec Q ops q = Inr (out, q') \<and> inv q'
       \<and> queue_exec ops (bytes_of q) = (out, bytes_of q')"
proof (induction ops arbitrary: q)
  case Nil
  then show ?case by simp
next
  case (Cons x ops)
  note inv = Cons.prems(1)
  show ?case
  proof (cases x)
    case (Push xs)
    with Cons.prems push_law [OF inv, of xs] obtain q1 where
      q1: "q_push Q xs q = Inr q1" "inv q1" "bytes_of q1 = bytes_of q @ xs"
        "used q1 \<le> used q + length xs" by auto
    with Push Cons.prems Cons.IH [OF q1(2)] show ?thesis by auto
  next
    case (Discard n)
    with Cons.prems discard_law [OF inv, of n] Cons.IH [of "q_discard Q n q"] show ?thesis by simp
  next
    case Clear
    with Cons.prems clear_law [OF inv] Cons.IH [of "q_clear Q q"] show ?thesis by simp
  next
    case (Pull n)
    with Cons.prems pull_law [OF inv, of n] obtain q1 where
      q1: "q_pull Q n q = Inr (take n (bytes_of q), q1)" "inv q1" "bytes_of q1 = drop n (bytes_of q)"
        "used q1 \<le> used q"
      by auto
    with Pull Cons.prems Cons.IH [OF q1(2)] show ?thesis by auto
  next
    case PullAll
    from pull_all_law [OF inv] obtain q1 where
      q1: "q_pull_all Q q = Inr (bytes_of q, q1)" "inv q1" "bytes_of q1 = []" "used q1 \<le> used q"
      by blast
    with PullAll Cons.prems Cons.IH [OF q1(2)] show ?thesis by auto
  qed
qed

text \<open>The two steps of a stream sender: what is queued follows what has been written.\<close>

lemma stream_push:
  "inv q \<Longrightarrow> used q + length xs \<le> capacity \<Longrightarrow> q_push Q xs q = Inr q' \<Longrightarrow> w @ bytes_of q' = (w @ bytes_of q) @ xs"
  using push_law [of q xs] by auto

lemma stream_flush:
  "inv q \<Longrightarrow> (w @ take n (bytes_of q)) @ bytes_of (q_discard Q n q) = w @ bytes_of q"
  using discard_law [of q n] by simp

end

text \<open>The buffer's operations as that interface; a count is passed as a \<open>size_t\<close>.\<close>

definition buffer_queue :: "buffer queue_impl" where
  "buffer_queue =
     \<lparr>q_push = (\<lambda>xs. append_bytes xs (word_of_nat (length xs))),
      q_discard = (\<lambda>n b. if n < 2 ^ 64 then retrieve (word_of_nat n) b else retrieveAll b),
      q_clear = retrieveAll,
      q_pull = (\<lambda>n. retrieveAsString (word_of_nat n)),
      q_pull_all = retrieveAllAsString\<rparr>"

definition buf_used :: "buffer \<Rightarrow> nat" where
  "buf_used b = unat (writerIndex b)"

lemma retrieveAsString_within:
  assumes "buffer_inv b" and "unat len \<le> length (contents b)"
  shows "retrieveAsString len b = Inr (take (unat len) (contents b), retrieve len b)"
  using buffer_invD [OF assms(1)] assms
  by (simp add: retrieveAsString_def peek_string_def length_contents unat_readable contents_def)

lemma retrieve_used: "buffer_inv b \<Longrightarrow> buf_used (retrieve len b) \<le> buf_used b"
  using buffer_invD [of b] by (simp add: retrieve_def retrieveAll_def buf_used_def)

interpretation bufq: byte_queue buffer_inv contents buf_used vec_max_size buffer_queue
proof unfold_locales
  fix b :: buffer and xs :: "byte list"
  assume b: "buffer_inv b" and cap: "buf_used b + length xs \<le> vec_max_size"
  then have "unat (word_of_nat (length xs) :: size_t) = length xs"
    by (intro unat_of_nat_size) (simp add: vec_max_size_def)
  then show "\<exists>b'. q_push buffer_queue xs b = Inr b' \<and> buffer_inv b' \<and> contents b' = contents b @ xs
      \<and> buf_used b' \<le> buf_used b + length xs"
    using append_bytes_props [OF b, of "word_of_nat (length xs)" xs] cap
    by (auto simp: buffer_queue_def buf_used_def)
next
  fix b :: buffer and n :: nat
  assume b: "buffer_inv b"
  note sizes = buffer_invD [OF b]
  have short: "length (contents b) < 2 ^ 63"
    using sizes by (simp add: length_contents [OF b] unat_readable [OF b])
  show "buffer_inv (q_discard buffer_queue n b)
      \<and> contents (q_discard buffer_queue n b) = drop n (contents b)
      \<and> buf_used (q_discard buffer_queue n b) \<le> buf_used b"
    using b short sizes retrieve_used [OF b]
    by (simp add: buffer_queue_def retrieve_props retrieveAll_inv contents_retrieveAll unat_of_nat_size)
      (simp add: retrieveAll_def buf_used_def)
  show "buffer_inv (q_clear buffer_queue b) \<and> contents (q_clear buffer_queue b) = []
      \<and> buf_used (q_clear buffer_queue b) \<le> buf_used b"
    using b sizes by (simp add: buffer_queue_def retrieveAll_inv contents_retrieveAll)
      (simp add: retrieveAll_def buf_used_def)
  show "\<exists>q'. q_pull_all buffer_queue b = Inr (contents b, q') \<and> buffer_inv q' \<and> contents q' = []
      \<and> buf_used q' \<le> buf_used b"
    using retrieveAllAsString_props [OF b] retrieve_inv [OF b] retrieve_used [OF b]
    by (simp add: buffer_queue_def)
  assume n: "n \<le> length (contents b)"
  then have "unat (word_of_nat n :: size_t) = n" using short by (intro unat_of_nat_size) simp
  then show "\<exists>q'. q_pull buffer_queue n b = Inr (take n (contents b), q') \<and> buffer_inv q'
      \<and> contents q' = drop n (contents b) \<and> buf_used q' \<le> buf_used b"
    using n b retrieveAsString_within [OF b, of "word_of_nat n"] retrieve_used [OF b]
    by (simp add: buffer_queue_def retrieve_props)
qed

section \<open>System calls on a buffer\<close>

lemma writeFd_stream:
  assumes inv: "buffer_inv b" and w: "writeFd K fd b e m = ((n, e'), m')"
  shows "wire fd (trace m') = wire fd (trace m) @ take (nat n) (contents b)"
    and "trace m' = trace m @ [(SysWrite fd (contents b) (length (contents b)),
           K (trace m) (SysWrite fd (contents b) (length (contents b))))]"
    and "n = sr_rv (K (trace m) (SysWrite fd (contents b) (length (contents b))))"
  using w by (auto simp: writeFd_def do_sys_def Let_def readable_slice_contents [OF inv]
      length_contents [OF inv, symmetric])

lemma readFd_props:
  assumes inv: "buffer_inv b" and K: "recv_documented K" and x: "length extra = extraBuffer_size"
  shows "readFd K extra fd b e m = Inl LengthError \<and> vec_max_size < length (buf_data b) + 2
    \<or> (\<exists>n e' b' m'. readFd K extra fd b e m = Inr (((n, e'), b'), m') \<and> buffer_inv b' \<and> n \<le> 2
         \<and> (if n < 0 then b' = b
            else \<exists>stale. length stale = nat n \<and> contents b' = contents b @ stale
              \<and> (n \<le> int (unat (writableBytes b)) \<longrightarrow> buf_data b' = buf_data b
                   \<and> stale = take (nat n) (drop (unat (writerIndex b)) (buf_data b)))))"
proof -
  note i = buffer_invD [OF inv]
  define cnt :: nat where "cnt = (if writableBytes b < word_of_nat extraBuffer_size then 2 else 1)"
  define r where "r = K (trace m) (SysRecv fd cnt)"
  define m1 where "m1 = m\<lparr>trace := trace m @ [(SysRecv fd cnt, r)]\<rparr>"
  have n2: "sr_rv r \<le> 2"
    using recv_documentedD [OF K, of "trace m" fd cnt] by (simp add: r_def cnt_def split: if_splits)
  have eq: "readFd K extra fd b e m =
    (if sr_rv r < 0 then Inr (((sr_rv r, sr_errno r), b), m1)
     else if word_of_int (sr_rv r) \<le> writableBytes b
     then Inr (((sr_rv r, e), b\<lparr>writerIndex := writerIndex b + word_of_int (sr_rv r)\<rparr>), m1)
     else bindE (append_bytes extra (word_of_int (sr_rv r) - writableBytes b) (b\<lparr>writerIndex := buf_size b\<rparr>))
            (\<lambda>b1. Inr (((sr_rv r, e), b1), m1)))"
    by (simp add: readFd_def do_sys_def Let_def cnt_def r_def m1_def)
  show ?thesis
  proof (cases "sr_rv r < 0")
    case True
    with eq inv n2 show ?thesis by simp
  next
    case False
    define k where "k = nat (sr_rv r)"
    have k: "sr_rv r = int k" "k \<le> 2" using False n2 by (auto simp: k_def)
    have uk: "unat (word_of_int (sr_rv r) :: size_t) = k"
      using k by (simp add: unat_of_nat_size)
    show ?thesis
    proof (cases "k \<le> unat (writableBytes b)")
      case True
      have w': "unat (writerIndex b + word_of_int (sr_rv r)) = unat (writerIndex b) + k"
        using k i uk by (subst unat_add_size) simp_all
      have fits: "unat (writerIndex b) + k \<le> length (buf_data b)"
        using True i by (simp add: unat_writable [OF inv])
      let ?b = "b\<lparr>writerIndex := writerIndex b + word_of_int (sr_rv r)\<rparr>"
      have "buffer_inv ?b" using inv fits w' by (auto simp: buffer_inv_def)
      moreover have "contents ?b = contents b @ take k (drop (unat (writerIndex b)) (buf_data b))"
        using w' i by (simp add: contents_def slice_extend)
      moreover have "length (take k (drop (unat (writerIndex b)) (buf_data b))) = k"
        using fits by simp
      moreover have "word_of_int (sr_rv r) \<le> writableBytes b"
        using True uk by (simp add: word_le_nat_alt)
      ultimately show ?thesis using eq False k n2 by auto
    next
      case full: False
      let ?b = "b\<lparr>writerIndex := buf_size b\<rparr>"
      let ?tail = "drop (unat (writerIndex b)) (buf_data b)"
      define d :: size_t where "d = word_of_int (sr_rv r) - writableBytes b"
      have ud: "unat d = k - unat (writableBytes b)"
        unfolding d_def using full uk by (subst unat_sub_size) simp_all
      have inv1: "buffer_inv ?b" using inv i unat_buf_size [OF inv] by (simp add: buffer_inv_def)
      have c1: "contents ?b = contents b @ ?tail"
        using unat_buf_size [OF inv] i
          slice_split [of "unat (readerIndex b)" "unat (writerIndex b)" "length (buf_data b)" "buf_data b"]
        by (simp add: contents_def)
      let ?stale = "?tail @ take (unat d) extra"
      have len: "length ?stale = k"
        using ud full k x by (simp add: unat_writable [OF inv] extraBuffer_size_def)
      have "\<not> word_of_int (sr_rv r) \<le> writableBytes b"
        using full uk by (simp add: word_le_nat_alt)
      with eq False k(1) have rd: "readFd K extra fd b e m =
          bindE (append_bytes extra d ?b) (\<lambda>b1. Inr (((int k, e), b1), m1))"
        by (simp add: d_def)
      have "unat d \<le> vec_max_size" "unat d \<le> length extra"
        using ud k x by (simp_all add: vec_max_size_def extraBuffer_size_def)
      from append_bytes_props [OF inv1 this] consider
          (ok) b' where "append_bytes extra d ?b = Inr b'" "buffer_inv b'"
            "contents b' = contents ?b @ take (unat d) extra"
        | (err) "append_bytes extra d ?b = Inl LengthError" "vec_max_size < unat (buf_size b) + unat d" by auto
      then show ?thesis
      proof cases
        case ok
        have "nat (int k) = length ?stale" using len by simp
        moreover have "\<not> int k \<le> int (unat (writableBytes b))"
          using full by (simp only: of_nat_le_iff) simp
        moreover have "contents b' = contents b @ ?stale" using ok(3) c1 by simp
        ultimately show ?thesis
          using rd ok(1,2) k(2)
          by (intro disjI2 exI [of _ "int k"] exI [of _ e] exI [of _ b'] exI [of _ m1])
            (auto simp del: length_append)
      next
        case err
        then have "vec_max_size < length (buf_data b) + 2" using ud k(2) unat_buf_size [OF inv] by simp
        with rd err(1) show ?thesis by simp
      qed
    qed
  qed
qed

lemma drain_step:
  assumes "buffer_inv b" and "write_documented K"
    and "writeFd K fd b e m = ((n, e'), m')" and "0 < n"
  shows "wire fd (trace m') @ contents (retrieve (word_of_int n) b) = wire fd (trace m) @ contents b"
    and "nat n \<le> length (contents b)" and "unat (word_of_int n :: size_t) = nat n"
proof -
  note w = writeFd_stream [OF assms(1,3)]
  have "n \<le> int (length (contents b))"
    using w(3) write_documentedD [OF assms(2)] by metis
  then show le: "nat n \<le> length (contents b)" by simp
  have "length (contents b) < 2 ^ 63"
    using buffer_invD [OF assms(1)] by (simp add: length_contents [OF assms(1)] unat_readable [OF assms(1)])
  with le assms(4) show u: "unat (word_of_int n :: size_t) = nat n"
    by (intro unat_of_int_size) simp_all
  show "wire fd (trace m') @ contents (retrieve (word_of_int n) b) = wire fd (trace m) @ contents b"
    using w(1) u by (simp add: contents_retrieve [OF assms(1)])
qed

section \<open>Properties\<close>



text \<open>C28: \<open>append\<close> of \<open>len\<close> bytes taken from an object that has them never reads or
  writes outside an object: it either throws \<open>length_error\<close>, and then only because the
  write index plus \<open>len\<close> is beyond the vector's maximal size, or succeeds with exactly
  those bytes added after the previous contents.\<close>

theorem append_bytes_safe:
  assumes "buffer_inv b" and "unat len \<le> length d" and "unat len \<le> vec_max_size"
  shows "case append_bytes d len b of
      Inl e \<Rightarrow> e = LengthError \<and> vec_max_size < unat (writerIndex b) + unat len
    | Inr b' \<Rightarrow> buffer_inv b' \<and> contents b' = contents b @ take (unat len) d"
  using append_bytes_props [OF assms(1,3,2)] by auto

theorem append_bytes_safe_witness:
  "case append_bytes [7, 8, 9] 2 (Buffer 0) of
      Inl e \<Rightarrow> e = LengthError \<and> vec_max_size < unat (writerIndex (Buffer 0)) + 2
    | Inr b' \<Rightarrow> buffer_inv b' \<and> contents b' = [7, 8]"
  using append_bytes_safe [OF Buffer_inv [of 0], of 2 "[7, 8, 9]"]
  by (auto simp: vec_max_size_def contents_Buffer split: sum.splits)

text \<open>\<open>ensureWritableBytes(len)\<close> leaves room for \<open>len\<close> bytes without touching the
  contents; the array never becomes longer than the old one or than the write index plus
  \<open>len\<close>, and it keeps its length whenever moving the readable bytes to the front frees
  enough space.\<close>

theorem ensureWritableBytes_room:
  assumes "buffer_inv b" and "unat len \<le> vec_max_size"
  shows "case ensureWritableBytes len b of
      Inl e \<Rightarrow> e = LengthError \<and> vec_max_size < unat (writerIndex b) + unat len
    | Inr b' \<Rightarrow> buffer_inv b' \<and> contents b' = contents b \<and> unat len \<le> unat (writableBytes b')
        \<and> length (buf_data b') \<le> max (length (buf_data b)) (unat (writerIndex b) + unat len)
        \<and> (unat len + 8 \<le> unat (writableBytes b) + unat (prependableBytes b)
            \<longrightarrow> length (buf_data b') = length (buf_data b))"
proof (cases "writableBytes b < len")
  case True
  then have need: "unat (writableBytes b) < unat len" by (simp add: word_less_nat_alt)
  from makeSpace_props [OF assms(1) need assms(2)] ensureWritableBytes_props [OF assms] True
  show ?thesis
    by (auto simp: ensureWritableBytes_def prependableBytes_def split: if_splits sum.splits)
next
  case False
  with assms(1) show ?thesis
    by (simp add: ensureWritableBytes_def word_less_nat_alt not_less)
qed

theorem ensureWritableBytes_room_witness:
  "case ensureWritableBytes 12 \<lparr>buf_data = replicate 20 0, readerIndex = 14, writerIndex = 16\<rparr> of
      Inl e \<Rightarrow> False | Inr b' \<Rightarrow> 12 \<le> unat (writableBytes b')"
proof -
  let ?b = "\<lparr>buf_data = replicate 20 0, readerIndex = 14, writerIndex = 16\<rparr> :: buffer"
  have "buffer_inv ?b" by (simp add: buffer_inv_def vec_max_size_def)
  from ensureWritableBytes_room [OF this, of 12] show ?thesis
    by (auto simp: vec_max_size_def split: sum.splits)
qed

text \<open>\<open>retrieveAsString(len)\<close> on every branch: up to the readable length it returns and
  removes the oldest bytes; beyond it, as long as the array is long enough, it returns the
  readable bytes followed by stale bytes from behind the write index and empties the buffer; and
  past the end of the array it reads outside the object.\<close>

theorem retrieveAsString_branches:
  assumes "buffer_inv b"
  shows "retrieveAsString len b =
    (if unat len \<le> length (contents b) then Inr (take (unat len) (contents b), retrieve len b)
     else if unat (readerIndex b) + unat len \<le> length (buf_data b)
     then Inr (contents b @ take (unat len - length (contents b))
                 (drop (unat (writerIndex b)) (buf_data b)), retrieveAll b)
     else Inl OutOfBounds)"
proof (cases "unat len \<le> length (contents b)")
  case True
  with retrieveAsString_within [OF assms] show ?thesis by simp
next
  case False
  note i = buffer_invD [OF assms]
  have lc: "length (contents b) = unat (writerIndex b) - unat (readerIndex b)"
    by (simp add: length_contents [OF assms] unat_readable [OF assms])
  have "\<not> len \<le> readableBytes b"
    using False by (simp add: word_le_nat_alt length_contents [OF assms])
  moreover have "take (unat len) (drop (unat (readerIndex b)) (buf_data b)) =
      contents b @ take (unat len - length (contents b)) (drop (unat (writerIndex b)) (buf_data b))"
    using slice_extend [of "unat (readerIndex b)" "unat (writerIndex b)"
        "unat len - length (contents b)" "buf_data b"] False i lc
    by (simp add: contents_def)
  ultimately show ?thesis
    using False by (simp add: retrieveAsString_def peek_string_def retrieve_def)
qed

theorem retrieveAsString_branches_witness:
  "retrieveAsString 3 \<lparr>buf_data = replicate 8 0 @ [1, 2, 3, 4], readerIndex = 8, writerIndex = 9\<rparr>
     = Inr ([1, 2, 3], \<lparr>buf_data = replicate 8 0 @ [1, 2, 3, 4], readerIndex = 8, writerIndex = 8\<rparr>)"
proof -
  let ?b = "\<lparr>buf_data = replicate 8 0 @ [1, 2, 3, 4], readerIndex = 8, writerIndex = 9\<rparr> :: buffer"
  have "buffer_inv ?b" by (simp add: buffer_inv_def vec_max_size_def)
  from retrieveAsString_branches [OF this, of 3] show ?thesis
    by (simp add: contents_def retrieveAll_def kCheapPrepend_def)
qed

text \<open>C38: \<open>readFd\<close> reads at most two bytes per call, and while there is room for them the
  array is left as it was: what becomes readable is whatever stood behind the write index, not
  the bytes received. The call passes the \<open>iovec\<close> array itself to \<open>recv\<close>. The indices
  stay valid.\<close>

theorem readFd_delivers_stale_bytes:
  assumes "buffer_inv b" and "recv_documented K" and "length extra = extraBuffer_size"
    and "readFd K extra fd b e m = Inr (((n, e'), b'), m')"
    and "n \<le> int (unat (writableBytes b))"
  shows "buffer_inv b' \<and> n \<le> 2 \<and> buf_data b' = buf_data b
    \<and> contents b' = contents b @ take (nat n) (drop (unat (writerIndex b)) (buf_data b))"
  using readFd_props [OF assms(1-3), of fd e m] assms(4,5) by (auto split: if_splits)

theorem readFd_delivers_stale_bytes_witness:
  "\<exists>K b' (m' :: os). sr_bytes (K [] (SysRecv 5 2)) = [65, 66]
     \<and> readFd K (replicate extraBuffer_size 0) 5 (Buffer 0) 0 \<lparr>trace = []\<rparr> = Inr (((2, 0), b'), m')
     \<and> contents b' = [0, 0]"
proof -
  define K :: kernel where "K = (\<lambda>tr c. case c of SysRecv fd n \<Rightarrow>
      zero_ret\<lparr>sr_rv := int (min n 2), sr_bytes := [65, 66]\<rparr> | _ \<Rightarrow> zero_ret)"
  have K: "recv_documented K" by (simp add: recv_documented_def K_def)
  define b1 where "b1 = (Buffer 0)\<lparr>writerIndex := 10\<rparr>"
  have wb: "writableBytes (Buffer 0) = 1024"
    by (simp add: writableBytes_def Buffer_def buf_size_def kCheapPrepend_def kInitialSize_def)
  have two: "replicate 2 (0 :: byte) = [0, 0]" by (simp add: numeral_2_eq_2)
  have "readFd K (replicate extraBuffer_size 0) 5 (Buffer 0) 0 \<lparr>trace = []\<rparr> =
      Inr (((2, 0), b1), \<lparr>trace = [(SysRecv 5 2, K [] (SysRecv 5 2))]\<rparr>)"
    by (simp add: readFd_def do_sys_def Let_def wb extraBuffer_size_def K_def b1_def)
      (simp add: Buffer_def kCheapPrepend_def)
  moreover from readFd_delivers_stale_bytes [OF Buffer_inv K _ this] have "contents b1 = [0, 0]"
    by (simp add: wb contents_Buffer) (simp add: Buffer_def kCheapPrepend_def kInitialSize_def two)
  ultimately show ?thesis by (auto simp: K_def intro!: exI [of _ K])
qed

text \<open>Draining: after \<open>writeFd\<close> returned \<open>n > 0\<close> and \<open>n\<close> bytes are retrieved, the
  bytes handed to the kernel so far followed by the bytes still buffered are the same stream as
  before. No byte is lost, duplicated or reordered by a partial write.\<close>

theorem writeFd_retrieve_stream:
  assumes "buffer_inv b" and "write_documented K"
    and "writeFd K fd b e m = ((n, e'), m')" and "0 < n"
  shows "wire fd (trace m') @ contents (retrieve (word_of_int n) b) = wire fd (trace m) @ contents b"
  by (rule drain_step [OF assms])

theorem writeFd_retrieve_stream_witness:
  "\<exists>b (m' :: os). contents b = [1, 2, 3] \<and> wire 5 (trace m') = [1, 2]
     \<and> wire 5 (trace m') @ contents (retrieve 2 b) = [1, 2, 3]"
proof -
  let ?b = "\<lparr>buf_data = replicate 8 0 @ [1, 2, 3], readerIndex = 8, writerIndex = 11\<rparr> :: buffer"
  let ?m = "\<lparr>trace = []\<rparr>"
  have inv: "buffer_inv ?b" by (simp add: buffer_inv_def vec_max_size_def)
  have c: "contents ?b = [1, 2, 3]" by (simp add: contents_def)
  obtain m' where w: "writeFd (quota_kernel 2) 5 ?b 0 ?m = ((2, 0), m')"
    and m': "wire 5 (trace m') = [1, 2]"
    by (simp add: writeFd_def do_sys_def Let_def readable_slice_contents [OF inv] c readableBytes_def
        quota_kernel_def zero_ret_def)
  from writeFd_retrieve_stream [OF inv quota_kernel_documented(1) w] c m'
  show ?thesis by (intro exI [of _ ?b] exI [of _ m']) simp
qed

end
