(* ===== verification/Muduo_Channel.thy ===== *)
theory Muduo_Channel
  imports Muduo_OS
begin

text \<open>
  \<open>muduo/Channel.h\<close> and \<open>muduo/Channel.cpp\<close>: a descriptor with the events it is watched
  for, the events that happened and the callbacks. Channels are shared through raw pointers, so
  they live in a store (\<open>chan_at\<close>) and every access goes through the pointer: 0 is the null
  pointer and an address without a channel is dangling. The operations that reach the poller
  (\<open>enableReading\<close> and the others) are in \<open>Muduo_EventLoop\<close>.
\<close>

section \<open>State\<close>

definition EPOLLIN :: u32 where "EPOLLIN = 0x001"
definition EPOLLPRI :: u32 where "EPOLLPRI = 0x002"
definition EPOLLOUT :: u32 where "EPOLLOUT = 0x004"
definition EPOLLERR :: u32 where "EPOLLERR = 0x008"
definition EPOLLHUP :: u32 where "EPOLLHUP = 0x010"

definition kNoneEvent :: u32 where "kNoneEvent = 0x00"
definition kReadEvent :: u32 where "kReadEvent = EPOLLIN OR EPOLLPRI"
definition kWriteEvent :: u32 where "kWriteEvent = EPOLLOUT OR EPOLLPRI"

lemmas event_masks = EPOLLIN_def EPOLLPRI_def EPOLLOUT_def EPOLLERR_def EPOLLHUP_def
  kNoneEvent_def kReadEvent_def kWriteEvent_def

text \<open>The callbacks are closures; \<open>'cb\<close> is the type of their descriptions.\<close>

record 'cb channel =
  ch_loop :: ptr
  ch_fd :: int
  ch_events :: u32
  ch_revents :: u32
  ch_index :: int
  ch_tie :: ptr
  ch_tied :: bool
  readCallBack :: "'cb option"
  writeCallBack :: "'cb option"
  closeCallBack :: "'cb option"
  errorCallBack :: "'cb option"

definition Channel :: "ptr \<Rightarrow> int \<Rightarrow> 'cb channel" where
  "Channel l fd = \<lparr>ch_loop = l, ch_fd = fd, ch_events = 0, ch_revents = 0, ch_index = -1,
     ch_tie = 0, ch_tied = False, readCallBack = None, writeCallBack = None,
     closeCallBack = None, errorCallBack = None\<rparr>"

section \<open>Interest\<close>

definition enableReading_ev :: "u32 \<Rightarrow> u32" where "enableReading_ev e = e OR kReadEvent"
definition disableReading_ev :: "u32 \<Rightarrow> u32" where "disableReading_ev e = e AND NOT kReadEvent"
definition enableWriting_ev :: "u32 \<Rightarrow> u32" where "enableWriting_ev e = e OR kWriteEvent"
definition disableWriting_ev :: "u32 \<Rightarrow> u32" where "disableWriting_ev e = e AND NOT kWriteEvent"
definition disableAll_ev :: "u32 \<Rightarrow> u32" where "disableAll_ev e = kNoneEvent"

definition isNoneEvent :: "'cb channel \<Rightarrow> bool" where
  "isNoneEvent ch \<longleftrightarrow> ch_events ch = kNoneEvent"
definition isWriting :: "'cb channel \<Rightarrow> bool" where
  "isWriting ch \<longleftrightarrow> ch_events ch AND kWriteEvent \<noteq> 0"
definition isReading :: "'cb channel \<Rightarrow> bool" where
  "isReading ch \<longleftrightarrow> ch_events ch AND kReadEvent \<noteq> 0"

section \<open>The store of channels\<close>

record poller =
  po_owner :: ptr
  po_channels :: "int \<Rightarrow> ptr option"
  po_events :: "epoll_event list"
  po_epfd :: int

record 'cb machine = os +
  chan_at :: "ptr \<Rightarrow> 'cb channel option"
  poller_at :: "ptr \<Rightarrow> poller option"

definition load :: "ptr \<Rightarrow> (ptr \<Rightarrow> 'a option) \<Rightarrow> 'a result" where
  "load p heap = (if p = 0 then Inl NullPointer
     else case heap p of None \<Rightarrow> Inl DanglingPointer | Some x \<Rightarrow> Inr x)"

lemma load_Inr [halts]: "load p heap = Inr x \<longleftrightarrow> p \<noteq> 0 \<and> heap p = Some x"
  by (auto simp: load_def split: option.splits)

lemma load_Some [simp]: "p \<noteq> 0 \<Longrightarrow> heap p = Some x \<Longrightarrow> load p heap = Inr x"
  by (simp add: load_def)

lemma load_null [simp]: "load 0 heap = Inl NullPointer"
  by (simp add: load_def)

definition put_chan :: "ptr \<Rightarrow> 'cb channel \<Rightarrow> ('cb, 'z) machine_scheme \<Rightarrow> ('cb, 'z) machine_scheme"
  where "put_chan c ch m = m\<lparr>chan_at := (chan_at m)(c \<mapsto> ch)\<rparr>"

definition set_index :: "int \<Rightarrow> ptr \<Rightarrow> ('cb, 'z) machine_scheme \<Rightarrow> ('cb, 'z) machine_scheme result"
  where "set_index i c m = bindE (load c (chan_at m)) (\<lambda>ch. Inr (put_chan c (ch\<lparr>ch_index := i\<rparr>) m))"

definition set_revents :: "u32 \<Rightarrow> ptr \<Rightarrow> ('cb, 'z) machine_scheme \<Rightarrow> ('cb, 'z) machine_scheme result"
  where "set_revents r c m = bindE (load c (chan_at m)) (\<lambda>ch. Inr (put_chan c (ch\<lparr>ch_revents := r\<rparr>) m))"

definition tie :: "ptr \<Rightarrow> ptr \<Rightarrow> ('cb, 'z) machine_scheme \<Rightarrow> ('cb, 'z) machine_scheme result" where
  "tie obj c m = bindE (load c (chan_at m)) (\<lambda>ch.
     Inr (put_chan c (ch\<lparr>ch_tie := obj, ch_tied := True\<rparr>) m))"

section \<open>Dispatching an event\<close>

text \<open>
  \<open>run cb t m\<close> calls the closure \<open>cb\<close>; the time is used by the read callback only. The
  events and the callback are read again before each of the four calls, since the callback
  before may have changed the channel.
\<close>

definition dispatch :: "(u32 \<Rightarrow> bool) \<Rightarrow> ('cb channel \<Rightarrow> 'cb option)
    \<Rightarrow> ('cb \<Rightarrow> int \<Rightarrow> ('cb, 'z) machine_scheme \<Rightarrow> ('cb, 'z) machine_scheme result)
    \<Rightarrow> ptr \<Rightarrow> int \<Rightarrow> ('cb, 'z) machine_scheme \<Rightarrow> ('cb, 'z) machine_scheme result" where
  "dispatch happened callback run c t m = bindE (load c (chan_at m)) (\<lambda>ch.
     if happened (ch_revents ch)
     then (case callback ch of None \<Rightarrow> Inr m | Some cb \<Rightarrow> run cb t m)
     else Inr m)"

definition hung_up :: "u32 \<Rightarrow> bool" where
  "hung_up r \<longleftrightarrow> r AND EPOLLHUP \<noteq> 0 \<and> r AND EPOLLIN = 0"

definition handleEventWithGuard ::
    "('cb \<Rightarrow> int \<Rightarrow> ('cb, 'z) machine_scheme \<Rightarrow> ('cb, 'z) machine_scheme result)
    \<Rightarrow> ptr \<Rightarrow> int \<Rightarrow> ('cb, 'z) machine_scheme \<Rightarrow> ('cb, 'z) machine_scheme result" where
  "handleEventWithGuard run c t m =
     bindE (dispatch hung_up closeCallBack run c t m) (\<lambda>m1.
     bindE (dispatch (\<lambda>r. r AND EPOLLERR \<noteq> 0) errorCallBack run c t m1) (\<lambda>m2.
     bindE (dispatch (\<lambda>r. r AND EPOLLIN \<noteq> 0) readCallBack run c t m2) (\<lambda>m3.
     dispatch (\<lambda>r. r AND EPOLLOUT \<noteq> 0) writeCallBack run c t m3)))"

text \<open>\<open>alive\<close> says whether the object behind a \<open>weak_ptr\<close> can still be locked.\<close>

definition handleEvent :: "(ptr \<Rightarrow> ('cb, 'z) machine_scheme \<Rightarrow> bool)
    \<Rightarrow> ('cb \<Rightarrow> int \<Rightarrow> ('cb, 'z) machine_scheme \<Rightarrow> ('cb, 'z) machine_scheme result)
    \<Rightarrow> ptr \<Rightarrow> int \<Rightarrow> ('cb, 'z) machine_scheme \<Rightarrow> ('cb, 'z) machine_scheme result" where
  "handleEvent alive run c t m = bindE (load c (chan_at m)) (\<lambda>ch.
     if ch_tied ch
     then (if alive (ch_tie ch) m then handleEventWithGuard run c t m else Inr m)
     else handleEventWithGuard run c t m)"

section \<open>Interest masks\<close>

lemma mask_powers:
  "EPOLLIN = 2 ^ 0" "EPOLLPRI = 2 ^ 1" "EPOLLOUT = 2 ^ 2" "EPOLLERR = 2 ^ 3" "EPOLLHUP = 2 ^ 4"
  by (simp_all add: event_masks)

lemma bit_u32_power: "bit (2 ^ k :: u32) n \<longleftrightarrow> n = k \<and> k < 32"
  by (auto simp: bit_exp_iff)

lemma bit_masks [simp]:
  "bit EPOLLIN n \<longleftrightarrow> n = 0" "bit EPOLLPRI n \<longleftrightarrow> n = 1" "bit EPOLLOUT n \<longleftrightarrow> n = 2"
  "bit EPOLLERR n \<longleftrightarrow> n = 3" "bit EPOLLHUP n \<longleftrightarrow> n = 4"
  by (simp_all only: mask_powers bit_u32_power) simp_all

lemma mask_test:
  "e AND EPOLLIN = 0 \<longleftrightarrow> \<not> bit e 0" "e AND EPOLLPRI = 0 \<longleftrightarrow> \<not> bit e 1"
  "e AND EPOLLOUT = 0 \<longleftrightarrow> \<not> bit e 2" "e AND EPOLLERR = 0 \<longleftrightarrow> \<not> bit e 3"
  "e AND EPOLLHUP = 0 \<longleftrightarrow> \<not> bit e 4"
  "e AND kReadEvent = 0 \<longleftrightarrow> \<not> bit e 0 \<and> \<not> bit e 1"
  "e AND kWriteEvent = 0 \<longleftrightarrow> \<not> bit e 1 \<and> \<not> bit e 2"
  unfolding kReadEvent_def kWriteEvent_def mask_powers bit.conj_disj_distrib or_eq_0_iff
    and_exp_eq_0_iff_not_bit by auto

lemma bit_interest [simp]:
  "bit (enableReading_ev e) n \<longleftrightarrow> bit e n \<or> n = 0 \<or> n = 1"
  "bit (disableReading_ev e) n \<longleftrightarrow> bit e n \<and> n \<noteq> 0 \<and> n \<noteq> 1"
  "bit (enableWriting_ev e) n \<longleftrightarrow> bit e n \<or> n = 1 \<or> n = 2"
  "bit (disableWriting_ev e) n \<longleftrightarrow> bit e n \<and> n \<noteq> 1 \<and> n \<noteq> 2"
  "\<not> bit (disableAll_ev e) n"
  by (auto simp: enableReading_ev_def disableReading_ev_def enableWriting_ev_def
      disableWriting_ev_def disableAll_ev_def kReadEvent_def kWriteEvent_def kNoneEvent_def
      bit_or_iff bit_and_iff bit_not_iff possible_bit_def dest: bit_imp_le_length)

lemma enableReading_keeps_out: "enableReading_ev e AND EPOLLOUT = e AND EPOLLOUT"
  by (rule bit_eqI) (auto simp: bit_and_iff)

lemma interest_test:
  "isReading ch \<longleftrightarrow> bit (ch_events ch) 0 \<or> bit (ch_events ch) 1"
  "isWriting ch \<longleftrightarrow> bit (ch_events ch) 1 \<or> bit (ch_events ch) 2"
  by (simp_all add: isReading_def isWriting_def mask_test)

section \<open>Which callbacks an event calls\<close>

text \<open>The specification, by the bits of the reported events: bit 4 is a hang-up, bit 3 an error, bit 0
  data to read, bit 2 room to write.\<close>

definition calls_if :: "bool \<Rightarrow> 'cb option \<Rightarrow> 'cb list" where
  "calls_if b cb = (case cb of None \<Rightarrow> [] | Some f \<Rightarrow> if b then [f] else [])"

definition due_callbacks :: "'cb channel \<Rightarrow> 'cb list" where
  "due_callbacks ch = calls_if (bit (ch_revents ch) 4 \<and> \<not> bit (ch_revents ch) 0) (closeCallBack ch)
     @ calls_if (bit (ch_revents ch) 3) (errorCallBack ch)
     @ calls_if (bit (ch_revents ch) 0) (readCallBack ch)
     @ calls_if (bit (ch_revents ch) 2) (writeCallBack ch)"

text \<open>The four questions in the order of the code: what must have happened, whom to call.\<close>

definition slots :: "((u32 \<Rightarrow> bool) \<times> ('cb channel \<Rightarrow> 'cb option)) list" where
  "slots = [(hung_up, closeCallBack), (\<lambda>r. r AND EPOLLERR \<noteq> 0, errorCallBack),
     (\<lambda>r. r AND EPOLLIN \<noteq> 0, readCallBack), (\<lambda>r. r AND EPOLLOUT \<noteq> 0, writeCallBack)]"

definition due :: "'cb channel \<Rightarrow> (u32 \<Rightarrow> bool) \<times> ('cb channel \<Rightarrow> 'cb option) \<Rightarrow> 'cb list" where
  "due ch sl = (if fst sl (ch_revents ch)
     then (case snd sl ch of None \<Rightarrow> [] | Some cb \<Rightarrow> [cb]) else [])"

lemma due_callbacks_slots: "due_callbacks ch = concat (map (due ch) slots)"
  by (auto simp: due_callbacks_def calls_if_def slots_def due_def hung_up_def mask_test split: option.split)

definition same_dispatch :: "'cb channel \<Rightarrow> 'cb channel \<Rightarrow> bool" where
  "same_dispatch ch ch' \<longleftrightarrow> ch_revents ch' = ch_revents ch \<and> readCallBack ch' = readCallBack ch
     \<and> writeCallBack ch' = writeCallBack ch \<and> closeCallBack ch' = closeCallBack ch
     \<and> errorCallBack ch' = errorCallBack ch"

text \<open>Callbacks that neither destroy the channel nor change what it dispatches on.\<close>

definition keeps_dispatch ::
    "('cb \<Rightarrow> int \<Rightarrow> ('cb, 'z) machine_scheme \<Rightarrow> ('cb, 'z) machine_scheme result) \<Rightarrow> ptr \<Rightarrow> bool" where
  "keeps_dispatch run c \<longleftrightarrow> (\<forall>cb t m m' ch. run cb t m = Inr m' \<longrightarrow> chan_at m c = Some ch \<longrightarrow>
     (\<exists>ch'. chan_at m' c = Some ch' \<and> same_dispatch ch ch'))"

lemma dispatch_slots:
  assumes run: "keeps_dispatch run c" and c: "c \<noteq> 0"
    and "\<And>P sel ch ch'. (P, sel) \<in> set sls \<Longrightarrow> same_dispatch ch ch' \<Longrightarrow> sel ch' = sel ch"
    and "chan_at m c = Some ch'" and "same_dispatch ch ch'"
  shows "foldE (\<lambda>(P, sel). dispatch P sel run c t) sls m
    = foldE (\<lambda>cb. run cb t) (concat (map (due ch) sls)) m"
  using assms(3-5)
proof (induction sls arbitrary: m ch')
  case Nil
  then show ?case by simp
next
  case (Cons sl sls)
  obtain P sel where sl: "sl = (P, sel)" by (cases sl)
  have eq: "dispatch P sel run c t m = foldE (\<lambda>cb. run cb t) (due ch sl) m"
  proof -
    have "sel ch' = sel ch" using Cons.prems(1) [of P sel] Cons.prems(3) sl by simp
    with Cons.prems(2,3) c show ?thesis
      by (simp add: dispatch_def due_def sl same_dispatch_def split: option.split)
  qed
  show ?case
  proof (cases "dispatch P sel run c t m")
    case (Inl e)
    moreover have "foldE (\<lambda>cb. run cb t) (due ch sl) m = Inl e" using Inl eq by simp
    ultimately show ?thesis by (simp add: sl)
  next
    case (Inr m1)
    with Cons.prems(2) c have "m1 = m \<or> (\<exists>cb. run cb t m = Inr m1)"
      by (auto simp: dispatch_def split: if_splits option.splits)
    then obtain ch1 where ch1: "chan_at m1 c = Some ch1" "same_dispatch ch ch1"
      using run Cons.prems(2,3) by (fastforce simp: keeps_dispatch_def same_dispatch_def)
    have "foldE (\<lambda>(P, sel). dispatch P sel run c t) sls m1
        = foldE (\<lambda>cb. run cb t) (concat (map (due ch) sls)) m1"
      by (rule Cons.IH [OF _ ch1]) (use Cons.prems(1) in auto)
    moreover have "foldE (\<lambda>cb. run cb t) (due ch sl) m = Inr m1" using Inr eq by simp
    ultimately show ?thesis using Inr by (simp add: sl)
  qed
qed

text \<open>C20: Handling an event calls exactly the callbacks that are due, in the order close, error,
  read, write, and stops at the first that stops the program: close only on a hang-up (bit 4 of the
  events) without readable data (bit 0), the others on bits 3, 0 and 2, an unset one never. A tied
  channel whose owner is gone calls nothing. The callbacks are taken to leave the channel alive, with
  its reported events and its callbacks as they are, for the code reads these again before each call.\<close>

theorem handleEvent_calls_due:
  assumes "keeps_dispatch run c" and "c \<noteq> 0" and "chan_at m c = Some ch"
  shows "handleEvent alive run c t m =
    (if ch_tied ch \<and> \<not> alive (ch_tie ch) m then Inr m
     else foldE (\<lambda>cb. run cb t) (due_callbacks ch) m)"
proof -
  have "handleEventWithGuard run c t m = foldE (\<lambda>(P, sel). dispatch P sel run c t) slots m"
    by (simp add: handleEventWithGuard_def slots_def foldE_Cons_fun)
  also have "\<dots> = foldE (\<lambda>cb. run cb t) (due_callbacks ch) m"
    unfolding due_callbacks_slots using assms
    by (intro dispatch_slots) (auto simp: slots_def same_dispatch_def)
  finally show ?thesis using assms(2,3) by (simp add: handleEvent_def)
qed

text \<open>An example: a closure is a number, and calling it is recorded by a read of that number.\<close>

definition example_run :: "int \<Rightarrow> int \<Rightarrow> int machine \<Rightarrow> int machine result" where
  "example_run cb t m = Inr (m\<lparr>trace := trace m @ [(SysRead cb 0, zero_ret)]\<rparr>)"

definition example_channel :: "int channel" where
  "example_channel = (Channel 1 5)\<lparr>ch_revents := EPOLLIN OR EPOLLHUP OR EPOLLOUT,
     closeCallBack := Some 10, readCallBack := Some 11, writeCallBack := Some 12\<rparr>"

definition example_machine :: "int machine" where
  "example_machine = \<lparr>trace = [], chan_at = [7 \<mapsto> example_channel], poller_at = Map.empty\<rparr>"

theorem handleEvent_calls_due_witness:
  "handleEvent (\<lambda>_ _. True) example_run 7 0 example_machine
    = Inr (example_machine\<lparr>trace := [(SysRead 11 0, zero_ret), (SysRead 12 0, zero_ret)]\<rparr>)"
proof -
  have "keeps_dispatch example_run 7"
    by (auto simp: keeps_dispatch_def example_run_def same_dispatch_def)
  moreover have "chan_at example_machine 7 = Some example_channel"
    by (simp add: example_machine_def)
  moreover have "due_callbacks example_channel = [11, 12]"
    by (simp add: due_callbacks_def calls_if_def example_channel_def Channel_def bit_or_iff)
  ultimately show ?thesis
    by (subst handleEvent_calls_due [where ch = example_channel])
      (simp_all add: example_run_def example_channel_def Channel_def example_machine_def)
qed

text \<open>The read and the write mask share \<open>EPOLLPRI\<close>. A channel that has just been enabled
  for reading therefore counts as writing, although \<open>EPOLLOUT\<close> may not be watched; disabling
  writing takes \<open>EPOLLPRI\<close> away from reading as well; and after disabling writing a channel
  that reads is no longer counted as writing.\<close>

theorem reading_counts_as_writing:
  "isWriting (ch\<lparr>ch_events := enableReading_ev e\<rparr>)
   \<and> (enableReading_ev e AND EPOLLOUT = e AND EPOLLOUT)
   \<and> disableWriting_ev (enableReading_ev e) AND EPOLLPRI = 0
   \<and> isReading (ch\<lparr>ch_events := disableWriting_ev (enableReading_ev e)\<rparr>)
   \<and> \<not> isWriting (ch\<lparr>ch_events := disableWriting_ev (enableReading_ev e)\<rparr>)"
  by (simp add: interest_test mask_test enableReading_keeps_out)

end
