(* ===== verification/Muduo_Poller.thy ===== *)
theory Muduo_Poller
  imports Muduo_Channel
begin

text \<open>
  \<open>muduo/Poller.h\<close>, \<open>muduo/Poller.cpp\<close>, \<open>muduo/defaultPoller.cpp\<close>, \<open>muduo/EpollPoller.h\<close>
  and \<open>muduo/EpollPoller.cpp\<close>: the table of channels by descriptor, the calls that keep the
  kernel's interest list in step with it, and \<open>poll\<close>. The invariant \<open>registry_ok\<close> ties the
  index of every channel to the table and to the interest list; the locale \<open>demultiplexer\<close> is
  the contract of the virtual interface \<open>Poller\<close>.
\<close>

section \<open>Operations\<close>

definition kNew :: int where "kNew = -1"
definition kAdd :: int where "kAdd = 1"
definition kDelete :: int where "kDelete = 2"

definition kInitEventsListSize :: nat where "kInitEventsListSize = 16"

text \<open>The constructor; a negative descriptor from \<open>epoll_create1\<close> ends the process.\<close>

definition EpollPoller :: "kernel \<Rightarrow> ptr \<Rightarrow> 'z os_scheme \<Rightarrow> (poller \<times> 'z os_scheme) result" where
  "EpollPoller K l m = (let (r, m1) = do_sys K SysEpollCreate m in
     if sr_rv r < 0 then Inl ExitProcess
     else Inr (\<lparr>po_owner = l, po_channels = Map.empty,
                po_events = replicate kInitEventsListSize null_event, po_epfd = sr_rv r\<rparr>, m1))"

text \<open>\<open>newDefaultPoller\<close>: with \<open>MUDUO_USE_POLL\<close> in the environment there is no poller.\<close>

definition newDefaultPoller ::
    "bool \<Rightarrow> kernel \<Rightarrow> ptr \<Rightarrow> 'z os_scheme \<Rightarrow> (poller option \<times> 'z os_scheme) result" where
  "newDefaultPoller use_poll K l m =
     (if use_poll then Inr (None, m)
      else bindE (EpollPoller K l m) (\<lambda>(po, m1). Inr (Some po, m1)))"

definition hasChannel :: "ptr \<Rightarrow> ptr \<Rightarrow> ('cb, 'z) machine_scheme \<Rightarrow> bool result" where
  "hasChannel p c m = bindE (load c (chan_at m)) (\<lambda>ch. bindE (load p (poller_at m)) (\<lambda>po.
     Inr (po_channels po (ch_fd ch) = Some c)))"

definition update :: "kernel \<Rightarrow> ptr \<Rightarrow> ctl_op \<Rightarrow> ptr \<Rightarrow> ('cb, 'z) machine_scheme
    \<Rightarrow> ('cb, 'z) machine_scheme result" where
  "update K p opn c m = bindE (load c (chan_at m)) (\<lambda>ch. bindE (load p (poller_at m)) (\<lambda>po.
     let (r, m1) = do_sys K (SysEpollCtl (po_epfd po) opn (ch_fd ch)
                       \<lparr>ev_events = ch_events ch, ev_ptr = c\<rparr>) m
     in if sr_rv r < 0
        then (if opn = EPOLL_CTL_DEL then Inr m1 else Inl ExitProcess)
        else Inr m1))"

definition put_poller :: "ptr \<Rightarrow> poller \<Rightarrow> ('cb, 'z) machine_scheme \<Rightarrow> ('cb, 'z) machine_scheme" where
  "put_poller p po m = m\<lparr>poller_at := (poller_at m)(p \<mapsto> po)\<rparr>"

definition updateChannel :: "kernel \<Rightarrow> ptr \<Rightarrow> ptr \<Rightarrow> ('cb, 'z) machine_scheme
    \<Rightarrow> ('cb, 'z) machine_scheme result" where
  "updateChannel K p c m = bindE (load c (chan_at m)) (\<lambda>ch.
     let index = ch_index ch in
     if index = kNew \<or> index = kDelete
     then bindE (if index = kNew
                 then bindE (load p (poller_at m)) (\<lambda>po.
                        Inr (put_poller p (po\<lparr>po_channels := (po_channels po)(ch_fd ch \<mapsto> c)\<rparr>) m))
                 else Inr m) (\<lambda>m1.
          bindE (set_index kAdd c m1) (update K p EPOLL_CTL_ADD c))
     else if isNoneEvent ch
     then bindE (update K p EPOLL_CTL_DEL c m) (set_index kDelete c)
     else update K p EPOLL_CTL_MOD c m)"

definition removeChannel :: "kernel \<Rightarrow> ptr \<Rightarrow> ptr \<Rightarrow> ('cb, 'z) machine_scheme
    \<Rightarrow> ('cb, 'z) machine_scheme result" where
  "removeChannel K p c m = bindE (load c (chan_at m)) (\<lambda>ch. bindE (load p (poller_at m)) (\<lambda>po.
     let m1 = put_poller p (po\<lparr>po_channels := (po_channels po)(ch_fd ch := None)\<rparr>) m in
     bindE (if ch_index ch = kAdd then update K p EPOLL_CTL_DEL c m1 else Inr m1)
       (set_index kNew c)))"

text \<open>
  \<open>fillActivateChannels\<close> goes over the whole vector \<open>events_\<close>; \<open>numEvents\<close> is not used.
\<close>

definition fill_one :: "epoll_event \<Rightarrow> ptr list \<times> ('cb, 'z) machine_scheme
    \<Rightarrow> (ptr list \<times> ('cb, 'z) machine_scheme) result" where
  "fill_one ev = (\<lambda>(acts, m). bindE (set_revents (ev_events ev) (ev_ptr ev) m)
     (\<lambda>m1. Inr (acts @ [ev_ptr ev], m1)))"

definition fillActivateChannels :: "int \<Rightarrow> ptr \<Rightarrow> ptr list \<Rightarrow> ('cb, 'z) machine_scheme
    \<Rightarrow> (ptr list \<times> ('cb, 'z) machine_scheme) result" where
  "fillActivateChannels numEvents p acts m = bindE (load p (poller_at m)) (\<lambda>po.
     foldE fill_one (po_events po) (acts, m))"

text \<open>
  \<open>poll\<close>: \<open>epoll_wait\<close> writes its events at the front of \<open>events_\<close>; when the vector was
  filled it is doubled. The result is the time read after the wait and the active channels.
\<close>

definition poll :: "kernel \<Rightarrow> ptr \<Rightarrow> int \<Rightarrow> ptr list \<Rightarrow> ('cb, 'z) machine_scheme
    \<Rightarrow> ((int \<times> ptr list) \<times> ('cb, 'z) machine_scheme) result" where
  "poll K p timeoutMs acts m = bindE (load p (poller_at m)) (\<lambda>po.
     let (r, m1) = do_sys K (SysEpollWait (po_epfd po) (length (po_events po)) timeoutMs) m;
         numEvents = sr_rv r;
         m2 = put_poller p (po\<lparr>po_events :=
                overwrite 0 (take (nat numEvents) (sr_events r)) (po_events po)\<rparr>) m1;
         (now, m3) = do_sys K SysTime m2
     in if numEvents > 0
        then bindE (fillActivateChannels numEvents p acts m3) (\<lambda>(acts', m4).
          bindE (load p (poller_at m4)) (\<lambda>po'.
          if numEvents = int (length (po_events po'))
          then Inr ((sr_rv now, acts'), put_poller p (po'\<lparr>po_events := po_events po'
                      @ replicate (length (po_events po')) null_event\<rparr>) m4)
          else Inr ((sr_rv now, acts'), m4)))
        else Inr ((sr_rv now, acts), m3))"

section \<open>The registry invariant\<close>

definition watched_by :: "'cb channel option \<Rightarrow> ptr \<Rightarrow> epoll_event option" where
  "watched_by x c = (case x of None \<Rightarrow> None
     | Some ch \<Rightarrow> if ch_index ch = kAdd then Some \<lparr>ev_events = ch_events ch, ev_ptr = c\<rparr> else None)"

definition channels_ok :: "poller \<Rightarrow> (ptr \<Rightarrow> 'cb channel option) \<Rightarrow> bool" where
  "channels_ok po h \<longleftrightarrow>
     (\<forall>c ch. h c = Some ch \<longrightarrow> ch_loop ch = po_owner po \<longrightarrow>
        c \<noteq> 0 \<and> ch_index ch \<in> {kNew, kAdd, kDelete}
        \<and> (ch_index ch \<noteq> kNew \<longleftrightarrow> po_channels po (ch_fd ch) = Some c))
   \<and> (\<forall>fd c. po_channels po fd = Some c \<longrightarrow>
        (\<exists>ch. h c = Some ch \<and> ch_fd ch = fd \<and> ch_loop ch = po_owner po))"

definition expected :: "poller \<Rightarrow> (ptr \<Rightarrow> 'cb channel option) \<Rightarrow> interest" where
  "expected po h fd = (case po_channels po fd of None \<Rightarrow> None | Some c \<Rightarrow> watched_by (h c) c)"

definition registry_ok :: "poller \<Rightarrow> (ptr \<Rightarrow> 'cb channel option) \<Rightarrow> history \<Rightarrow> bool" where
  "registry_ok po h tr \<longleftrightarrow> channels_ok po h \<and> interest (po_epfd po) tr = expected po h
     \<and> history_conforms tr"

definition poller_inv :: "ptr \<Rightarrow> ('cb, 'z) machine_scheme \<Rightarrow> bool" where
  "poller_inv p m \<longleftrightarrow> p \<noteq> 0 \<and> (\<exists>po. poller_at m p = Some po \<and> registry_ok po (chan_at m) (trace m))"

text \<open>A channel of the poller whose descriptor no other channel of the poller uses.\<close>

definition free_for :: "poller \<Rightarrow> int \<Rightarrow> ptr \<Rightarrow> bool" where
  "free_for po fd c \<longleftrightarrow> po_channels po fd \<in> {None, Some c}"

definition usable :: "ptr \<Rightarrow> ptr \<Rightarrow> ('cb, 'z) machine_scheme \<Rightarrow> bool" where
  "usable p c m \<longleftrightarrow> (\<exists>po ch. poller_at m p = Some po \<and> chan_at m c = Some ch
     \<and> ch_loop ch = po_owner po \<and> free_for po (ch_fd ch) c)"

lemma free_forD: "free_for po fd c \<Longrightarrow> po_channels po fd = Some d \<Longrightarrow> d = c"
  by (auto simp: free_for_def)

lemma k_distinct [simp]:
  "kNew \<noteq> kAdd" "kNew \<noteq> kDelete" "kAdd \<noteq> kDelete" "kAdd \<noteq> kNew" "kDelete \<noteq> kNew" "kDelete \<noteq> kAdd"
  by (simp_all add: kNew_def kAdd_def kDelete_def)

lemma put_chan_simps [simp]:
  "chan_at (put_chan c ch m) = (chan_at m)(c \<mapsto> ch)" "trace (put_chan c ch m) = trace m"
  "poller_at (put_chan c ch m) = poller_at m"
  by (simp_all add: put_chan_def)

lemma put_poller_simps [simp]:
  "chan_at (put_poller p po m) = chan_at m" "trace (put_poller p po m) = trace m"
  "poller_at (put_poller p po m) = (poller_at m)(p \<mapsto> po)"
  by (simp_all add: put_poller_def)

definition log_sys :: "syscall \<Rightarrow> sysret \<Rightarrow> 'z os_scheme \<Rightarrow> 'z os_scheme" where
  "log_sys c r m = m\<lparr>trace := trace m @ [(c, r)]\<rparr>"

lemma log_sys_simps [simp]:
  "trace (log_sys c r m) = trace m @ [(c, r)]"
  "chan_at (log_sys c r mm) = chan_at mm" "poller_at (log_sys c r mm) = poller_at mm"
  by (simp_all add: log_sys_def)

lemma do_sys_log: "do_sys K c m = (K (trace m) c, log_sys c (K (trace m) c) m)"
  by (simp add: do_sys_def log_sys_def Let_def)

lemma machine_order [simp]:
  "put_chan c ch (put_chan c ch' m) = put_chan c ch m"
  "put_chan c ch (log_sys call r m) = log_sys call r (put_chan c ch m)"
  "put_poller p po (put_chan c ch m) = put_chan c ch (put_poller p po m)"
  "put_poller p po (log_sys call r m) = log_sys call r (put_poller p po m)"
  by (simp_all add: put_chan_def put_poller_def log_sys_def)

lemma put_same:
  "poller_at m p = Some po \<Longrightarrow> put_poller p po m = m"
  "chan_at m c = Some ch \<Longrightarrow> put_chan c ch m = m"
  by (simp_all add: put_chan_def put_poller_def fun_upd_idem)

lemma update_eq:
  assumes "p \<noteq> 0" "c \<noteq> 0" "poller_at m p = Some po" "chan_at m c = Some ch"
  shows "update K p opn c m =
    (let call = SysEpollCtl (po_epfd po) opn (ch_fd ch) \<lparr>ev_events = ch_events ch, ev_ptr = c\<rparr>;
         r = K (trace m) call
     in if sr_rv r < 0 \<and> opn \<noteq> EPOLL_CTL_DEL then Inl ExitProcess else Inr (log_sys call r m))"
  using assms by (simp add: update_def do_sys_log Let_def)

text \<open>What a change of interest does to the index, and the call it needs.\<close>

definition next_index :: "int \<Rightarrow> u32 \<Rightarrow> int" where
  "next_index i e = (if i = kAdd \<and> e = kNoneEvent then kDelete else kAdd)"

definition next_ctl :: "int \<Rightarrow> u32 \<Rightarrow> ctl_op" where
  "next_ctl i e = (if i \<noteq> kAdd then EPOLL_CTL_ADD
     else if e = kNoneEvent then EPOLL_CTL_DEL else EPOLL_CTL_MOD)"

lemma channels_okD:
  assumes "channels_ok po h" and "h c = Some ch" and "ch_loop ch = po_owner po"
  shows "c \<noteq> 0" "ch_index ch \<in> {kNew, kAdd, kDelete}"
    "ch_index ch \<noteq> kNew \<longleftrightarrow> po_channels po (ch_fd ch) = Some c"
  using assms unfolding channels_ok_def by blast+

lemma channels_ok_entry:
  assumes "channels_ok po h" and "po_channels po fd = Some c"
  obtains ch where "h c = Some ch" "ch_fd ch = fd" "ch_loop ch = po_owner po"
  using assms unfolding channels_ok_def by blast

lemma channels_ok_upd:
  assumes ok: "channels_ok po h" and c: "h c = Some ch" "ch_loop ch = po_owner po"
    and free: "free_for po (ch_fd ch) c"
    and ch': "ch_fd ch' = ch_fd ch" "ch_loop ch' = ch_loop ch" "ch_index ch' \<in> {kNew, kAdd, kDelete}"
  shows "channels_ok (po\<lparr>po_channels :=
      (po_channels po)(ch_fd ch := (if ch_index ch' = kNew then None else Some c))\<rparr>) (h(c \<mapsto> ch'))"
    (is "channels_ok ?po ?h")
proof -
  note cD = channels_okD [OF ok c]
  show ?thesis
    unfolding channels_ok_def
  proof (intro conjI allI impI)
    fix d dh
    assume d: "?h d = Some dh" "ch_loop dh = po_owner ?po"
    then show "d \<noteq> 0" "ch_index dh \<in> {kNew, kAdd, kDelete}"
      using cD channels_okD [OF ok, of d dh] ch' by (auto split: if_splits)
    show "ch_index dh \<noteq> kNew \<longleftrightarrow> po_channels ?po (ch_fd dh) = Some d"
      using d channels_okD(3) [OF ok, of d dh] ch' free_forD [OF free] by (auto split: if_splits)
  next
    fix fd d
    assume d: "po_channels ?po fd = Some d"
    show "\<exists>dh. ?h d = Some dh \<and> ch_fd dh = fd \<and> ch_loop dh = po_owner ?po"
    proof (cases "fd = ch_fd ch")
      case True
      with d c ch' show ?thesis by (auto split: if_splits)
    next
      case False
      with d obtain dh where dh: "h d = Some dh" "ch_fd dh = fd" "ch_loop dh = po_owner po"
        by (auto elim: channels_ok_entry [OF ok])
      with False c have "d \<noteq> c" by auto
      with dh show ?thesis by simp
    qed
  qed
qed

lemma expected_upd:
  assumes ok: "channels_ok po h" and c: "h c = Some ch"
    and ch': "ch_fd ch' = ch_fd ch"
  shows "expected (po\<lparr>po_channels :=
      (po_channels po)(ch_fd ch := (if ch_index ch' = kNew then None else Some c))\<rparr>) (h(c \<mapsto> ch'))
    = (expected po h)(ch_fd ch := watched_by (Some ch') c)"
proof
  fix fd
  have "d \<noteq> c" if "fd \<noteq> ch_fd ch" "po_channels po fd = Some d" for d
    using that c by (auto elim!: channels_ok_entry [OF ok])
  then show "expected (po\<lparr>po_channels :=
      (po_channels po)(ch_fd ch := (if ch_index ch' = kNew then None else Some c))\<rparr>) (h(c \<mapsto> ch')) fd
    = ((expected po h)(ch_fd ch := watched_by (Some ch') c)) fd"
    by (auto simp: expected_def watched_by_def split: option.splits)
qed

lemma expected_self:
  assumes "channels_ok po h" and "h c = Some ch" and "ch_loop ch = po_owner po"
    and "free_for po (ch_fd ch) c"
  shows "expected po h (ch_fd ch) = watched_by (Some ch) c"
proof (cases "po_channels po (ch_fd ch)")
  case None
  with channels_okD(3) [OF assms(1-3)] have "ch_index ch = kNew" by simp
  with None show ?thesis by (simp add: expected_def watched_by_def)
next
  case (Some d)
  with free_forD [OF assms(4)] have "d = c" by simp
  with Some assms(2) show ?thesis by (simp add: expected_def)
qed

lemma usable_obtain:
  assumes "poller_inv p m" and "usable p c m"
  obtains po ch where "p \<noteq> 0" "c \<noteq> 0" "poller_at m p = Some po" "chan_at m c = Some ch"
    "ch_loop ch = po_owner po" "registry_ok po (chan_at m) (trace m)"
    "free_for po (ch_fd ch) c"
proof -
  from assms obtain po ch where "p \<noteq> 0" "poller_at m p = Some po" "chan_at m c = Some ch"
    "ch_loop ch = po_owner po" "registry_ok po (chan_at m) (trace m)"
    "free_for po (ch_fd ch) c"
    by (auto simp: poller_inv_def usable_def)
  moreover from this have "c \<noteq> 0"
    using channels_okD(1) [of po "chan_at m" c ch] by (simp add: registry_ok_def)
  ultimately show thesis by (intro that) auto
qed

text \<open>A channel's interest set to \<open>e\<close>, followed by \<open>updateChannel\<close>.\<close>

definition watch :: "kernel \<Rightarrow> ptr \<Rightarrow> u32 \<Rightarrow> ptr \<Rightarrow> ('cb, 'z) machine_scheme
    \<Rightarrow> ('cb, 'z) machine_scheme result" where
  "watch K p e c m = bindE (load c (chan_at m)) (\<lambda>ch.
     updateChannel K p c (put_chan c (ch\<lparr>ch_events := e\<rparr>) m))"

lemma watch_ctl_legal:
  assumes ok: "registry_ok po (chan_at m) (trace m)" and c: "chan_at m c = Some ch"
    "ch_loop ch = po_owner po" "free_for po (ch_fd ch) c"
  shows "ctl_legal (trace m) (po_epfd po) (next_ctl (ch_index ch) e) (ch_fd ch)"
proof -
  from ok have chans: "channels_ok po (chan_at m)" by (simp add: registry_ok_def)
  show ?thesis
    using ok expected_self [OF chans c] channels_okD [OF chans c(1,2)]
    by (auto simp: registry_ok_def ctl_legal_def watched_by_def next_ctl_def)
qed

lemma watch_step:
  fixes e :: u32
  assumes K: "ctl_documented K" and p: "p \<noteq> 0" and po: "poller_at m p = Some po"
    and ok: "registry_ok po (chan_at m) (trace m)" and c: "chan_at m c = Some ch"
    "ch_loop ch = po_owner po" "free_for po (ch_fd ch) c"
  defines "ch' \<equiv> ch\<lparr>ch_events := e, ch_index := next_index (ch_index ch) e\<rparr>"
    and "po' \<equiv> po\<lparr>po_channels := (po_channels po)(ch_fd ch \<mapsto> c)\<rparr>"
    and "call \<equiv> SysEpollCtl (po_epfd po) (next_ctl (ch_index ch) e) (ch_fd ch)
                 \<lparr>ev_events = e, ev_ptr = c\<rparr>"
  shows "watch K p e c m = Inr (log_sys call (K (trace m) call) (put_chan c ch' (put_poller p po' m)))"
proof -
  from ok have chans: "channels_ok po (chan_at m)" by (simp add: registry_ok_def)
  note cD = channels_okD [OF chans c(1,2)]
  have "ctl_legal (trace m) (po_epfd po) (next_ctl (ch_index ch) e) (ch_fd ch)"
    by (rule watch_ctl_legal [OF ok c])
  from ctl_documentedD [OF K this] have rv: "sr_rv (K (trace m) call) = 0"
    by (simp add: call_def)
  have po_same: "po' = po" if "ch_index ch \<noteq> kNew"
    using that cD(3) by (simp add: po'_def fun_upd_idem)
  consider "ch_index ch = kNew" | "ch_index ch = kDelete" | "ch_index ch = kAdd" "e = kNoneEvent"
    | "ch_index ch = kAdd" "e \<noteq> kNoneEvent" using cD(2) by auto
  then show ?thesis
  proof cases
    case 1
    with rv p po c(1) cD(1) show ?thesis
      by (simp add: watch_def updateChannel_def set_index_def update_eq [where po = po'] Let_def
          next_ctl_def next_index_def ch'_def po'_def call_def)
  next
    case 2
    with rv p po c(1) cD(1) po_same show ?thesis
      by (simp add: watch_def updateChannel_def set_index_def update_eq [where po = po] Let_def
          next_ctl_def next_index_def ch'_def call_def put_same)
  next
    case 3
    with rv p po c(1) cD(1) po_same show ?thesis
      by (simp add: watch_def updateChannel_def set_index_def update_eq [where po = po] Let_def
          isNoneEvent_def next_ctl_def next_index_def ch'_def call_def put_same)
  next
    case 4
    then have same: "ch\<lparr>ch_events := e, ch_index := kAdd\<rparr> = ch\<lparr>ch_events := e\<rparr>"
      by (cases ch) simp
    from 4 rv p po c(1) cD(1) po_same show ?thesis
      by (simp add: watch_def updateChannel_def set_index_def update_eq [where po = po] Let_def
          isNoneEvent_def next_ctl_def next_index_def ch'_def call_def put_same same)
  qed
qed

lemma watch_registry:
  assumes ok: "registry_ok po h tr" and c: "h c = Some ch" "ch_loop ch = po_owner po"
    "free_for po (ch_fd ch) c"
    and legal: "ctl_legal tr (po_epfd po) (next_ctl (ch_index ch) e) (ch_fd ch)" and r: "0 \<le> sr_rv r"
  shows "registry_ok (po\<lparr>po_channels := (po_channels po)(ch_fd ch \<mapsto> c)\<rparr>)
    (h(c \<mapsto> ch\<lparr>ch_events := e, ch_index := next_index (ch_index ch) e\<rparr>))
    (tr @ [(SysEpollCtl (po_epfd po) (next_ctl (ch_index ch) e) (ch_fd ch)
       \<lparr>ev_events = e, ev_ptr = c\<rparr>, r)])"
proof -
  let ?ch = "ch\<lparr>ch_events := e, ch_index := next_index (ch_index ch) e\<rparr>"
  from ok have chans: "channels_ok po h" by (simp add: registry_ok_def)
  have idx: "next_index (ch_index ch) e \<noteq> kNew" "ch_index ?ch \<in> {kNew, kAdd, kDelete}"
    by (simp_all add: next_index_def)
  have "channels_ok (po\<lparr>po_channels := (po_channels po)(ch_fd ch \<mapsto> c)\<rparr>) (h(c \<mapsto> ?ch))"
    using channels_ok_upd [OF chans c, of ?ch] idx by simp
  moreover have "expected (po\<lparr>po_channels := (po_channels po)(ch_fd ch \<mapsto> c)\<rparr>) (h(c \<mapsto> ?ch))
      = (expected po h)(ch_fd ch := watched_by (Some ?ch) c)"
    using expected_upd [OF chans c(1), of ?ch] idx by simp
  ultimately show ?thesis
    using ok r legal by (auto simp: registry_ok_def watched_by_def next_index_def next_ctl_def)
qed

lemma remove_step:
  assumes K: "ctl_documented K" and p: "p \<noteq> 0" and po: "poller_at m p = Some po"
    and ok: "registry_ok po (chan_at m) (trace m)" and c: "chan_at m c = Some ch"
    "ch_loop ch = po_owner po" "free_for po (ch_fd ch) c"
  defines "ch' \<equiv> ch\<lparr>ch_index := kNew\<rparr>"
    and "po' \<equiv> po\<lparr>po_channels := (po_channels po)(ch_fd ch := None)\<rparr>"
    and "call \<equiv> SysEpollCtl (po_epfd po) EPOLL_CTL_DEL (ch_fd ch)
                 \<lparr>ev_events = ch_events ch, ev_ptr = c\<rparr>"
  shows "removeChannel K p c m = Inr (if ch_index ch = kAdd
      then log_sys call (K (trace m) call) (put_chan c ch' (put_poller p po' m))
      else put_chan c ch' (put_poller p po' m))"
    and "registry_ok po' ((chan_at m)(c \<mapsto> ch')) (if ch_index ch = kAdd
      then trace m @ [(call, K (trace m) call)] else trace m)"
proof -
  from ok have chans: "channels_ok po (chan_at m)" by (simp add: registry_ok_def)
  note cD = channels_okD [OF chans c(1,2)]
  have self: "expected po (chan_at m) (ch_fd ch) = watched_by (Some ch) c"
    by (rule expected_self [OF chans c])
  have legal: "ctl_legal (trace m) (po_epfd po) EPOLL_CTL_DEL (ch_fd ch)" if "ch_index ch = kAdd"
    using that ok self by (simp add: registry_ok_def ctl_legal_def watched_by_def)
  have rv: "sr_rv (K (trace m) call) = 0" if "ch_index ch = kAdd"
    using ctl_documentedD [OF K legal [OF that]] by (simp add: call_def)
  show "removeChannel K p c m = Inr (if ch_index ch = kAdd
      then log_sys call (K (trace m) call) (put_chan c ch' (put_poller p po' m))
      else put_chan c ch' (put_poller p po' m))"
    using p po c(1) cD(1) rv
    by (simp add: removeChannel_def set_index_def update_eq [where po = po'] Let_def ch'_def po'_def
        call_def)
  have "channels_ok po' ((chan_at m)(c \<mapsto> ch'))"
    using channels_ok_upd [OF chans c, of ch'] by (simp add: po'_def ch'_def)
  moreover have "expected po' ((chan_at m)(c \<mapsto> ch')) = (expected po (chan_at m))(ch_fd ch := None)"
    using expected_upd [OF chans c(1), of ch'] by (simp add: po'_def ch'_def watched_by_def)
  ultimately show "registry_ok po' ((chan_at m)(c \<mapsto> ch')) (if ch_index ch = kAdd
      then trace m @ [(call, K (trace m) call)] else trace m)"
    using ok legal rv self
    by (auto simp: registry_ok_def po'_def call_def watched_by_def fun_upd_idem)
qed

section \<open>The contract of the virtual interface\<close>

text \<open>
  What \<open>Channel\<close> and \<open>EventLoop\<close> rely on, whatever the implementation of \<open>Poller\<close>: a channel
  is registered or not, and the kernel watches it for a mask or not at all.
\<close>

datatype demux_op = Watch u32 | Forget

fun demux_spec :: "demux_op \<Rightarrow> bool \<times> u32 option \<Rightarrow> bool \<times> u32 option" where
  "demux_spec (Watch e) (_, w) = (True, if w \<noteq> None \<and> e = 0 then None else Some e)"
| "demux_spec Forget _ = (False, None)"

fun demux_impl :: "(u32 \<Rightarrow> ptr \<Rightarrow> 'm \<Rightarrow> 'm result) \<Rightarrow> (ptr \<Rightarrow> 'm \<Rightarrow> 'm result)
    \<Rightarrow> ptr \<Rightarrow> demux_op \<Rightarrow> 'm \<Rightarrow> 'm result" where
  "demux_impl set_interest forget c (Watch e) = set_interest e c"
| "demux_impl set_interest forget c Forget = forget c"

locale demultiplexer =
  fixes inv :: "'m \<Rightarrow> bool"
    and ready :: "ptr \<Rightarrow> 'm \<Rightarrow> bool"
    and registered :: "'m \<Rightarrow> ptr \<Rightarrow> bool"
    and watched :: "'m \<Rightarrow> ptr \<Rightarrow> u32 option"
    and set_interest :: "u32 \<Rightarrow> ptr \<Rightarrow> 'm \<Rightarrow> 'm result"
    and forget :: "ptr \<Rightarrow> 'm \<Rightarrow> 'm result"
    and has :: "ptr \<Rightarrow> 'm \<Rightarrow> bool result"
  assumes watch_law: "inv m \<Longrightarrow> ready c m \<Longrightarrow>
      \<exists>m'. set_interest e c m = Inr m' \<and> inv m' \<and> ready c m'
        \<and> (registered m' c, watched m' c) = demux_spec (Watch e) (registered m c, watched m c)
        \<and> (\<forall>d. d \<noteq> c \<longrightarrow> registered m' d = registered m d \<and> watched m' d = watched m d)"
    and forget_law: "inv m \<Longrightarrow> ready c m \<Longrightarrow>
      \<exists>m'. forget c m = Inr m' \<and> inv m' \<and> ready c m'
        \<and> (registered m' c, watched m' c) = demux_spec Forget (registered m c, watched m c)
        \<and> (\<forall>d. d \<noteq> c \<longrightarrow> registered m' d = registered m d \<and> watched m' d = watched m d)"
    and has_law: "inv m \<Longrightarrow> ready c m \<Longrightarrow> has c m = Inr (registered m c)"
begin

lemma op_refines:
  "inv m \<Longrightarrow> ready c m \<Longrightarrow>
    \<exists>m'. demux_impl set_interest forget c x m = Inr m' \<and> inv m' \<and> ready c m'
      \<and> (registered m' c, watched m' c) = demux_spec x (registered m c, watched m c)
      \<and> (\<forall>d. d \<noteq> c \<longrightarrow> registered m' d = registered m d \<and> watched m' d = watched m d)"
  using watch_law forget_law by (cases x) auto

lemma run_refines:
  "inv m \<Longrightarrow> ready c m \<Longrightarrow>
    \<exists>m'. foldE (demux_impl set_interest forget c) xs m = Inr m' \<and> inv m' \<and> ready c m'
      \<and> (registered m' c, watched m' c) = fold demux_spec xs (registered m c, watched m c)
      \<and> (\<forall>d. d \<noteq> c \<longrightarrow> registered m' d = registered m d \<and> watched m' d = watched m d)"
proof (induction xs arbitrary: m)
  case Nil
  then show ?case by simp
next
  case (Cons x xs)
  from op_refines [OF Cons.prems, of x] obtain m1 where
    m1: "demux_impl set_interest forget c x m = Inr m1" "inv m1" "ready c m1"
      "(registered m1 c, watched m1 c) = demux_spec x (registered m c, watched m c)"
      "\<forall>d. d \<noteq> c \<longrightarrow> registered m1 d = registered m d \<and> watched m1 d = watched m d" by blast
  from Cons.IH [OF m1(2,3)] m1 show ?case by auto
qed

lemma forgotten:
  assumes "inv m" and "ready c m"
  shows "\<exists>m'. foldE (demux_impl set_interest forget c) (xs @ [Forget]) m = Inr m'
    \<and> inv m' \<and> has c m' = Inr False \<and> watched m' c = None"
proof -
  obtain m' where "foldE (demux_impl set_interest forget c) (xs @ [Forget]) m = Inr m'"
    "inv m'" "ready c m'" "(registered m' c, watched m' c) = (False, None)"
    using run_refines [OF assms, of "xs @ [Forget]"] by auto
  then show ?thesis using has_law [of m' c] by auto
qed

end

section \<open>The epoll implementation meets the contract\<close>

definition registered :: "ptr \<Rightarrow> ('cb, 'z) machine_scheme \<Rightarrow> ptr \<Rightarrow> bool" where
  "registered p m c = (case (poller_at m p, chan_at m c) of
     (Some po, Some ch) \<Rightarrow> po_channels po (ch_fd ch) = Some c | _ \<Rightarrow> False)"

definition watched :: "ptr \<Rightarrow> ('cb, 'z) machine_scheme \<Rightarrow> ptr \<Rightarrow> u32 option" where
  "watched p m c = (case (poller_at m p, chan_at m c) of
     (Some po, Some ch) \<Rightarrow> (case interest (po_epfd po) (trace m) (ch_fd ch) of
        Some ev \<Rightarrow> if ev_ptr ev = c then Some (ev_events ev) else None | None \<Rightarrow> None)
   | _ \<Rightarrow> None)"

lemma registry_view:
  assumes "registry_ok po (chan_at m) (trace m)" and "poller_at m p = Some po"
    and "chan_at m c = Some ch" and "ch_loop ch = po_owner po"
    and "free_for po (ch_fd ch) c"
  shows "registered p m c \<longleftrightarrow> ch_index ch \<noteq> kNew"
    and "watched p m c = (if ch_index ch = kAdd then Some (ch_events ch) else None)"
proof -
  from assms(1) have chans: "channels_ok po (chan_at m)" by (simp add: registry_ok_def)
  show "registered p m c \<longleftrightarrow> ch_index ch \<noteq> kNew"
    using channels_okD(3) [OF chans assms(3,4)] assms(2,3) by (simp add: registered_def)
  have "interest (po_epfd po) (trace m) (ch_fd ch) = watched_by (Some ch) c"
    using assms(1) expected_self [OF chans assms(3-5)] by (simp add: registry_ok_def)
  then show "watched p m c = (if ch_index ch = kAdd then Some (ch_events ch) else None)"
    using assms(2,3) by (simp add: watched_def watched_by_def)
qed

lemma view_frame:
  assumes po: "poller_at m p = Some po" and po': "poller_at m' p = Some po'" "po_epfd po' = po_epfd po"
    and d: "d \<noteq> c" "chan_at m' d = chan_at m d"
    and free: "free_for po fd c"
    and chans: "po_channels po' = (po_channels po)(fd := x)" "x \<in> {None, Some c}"
    and int: "interest (po_epfd po) (trace m') = (interest (po_epfd po) (trace m))(fd := y)"
      "case y of None \<Rightarrow> True | Some ev \<Rightarrow> ev_ptr ev = c"
    and old: "case interest (po_epfd po) (trace m) fd of None \<Rightarrow> True | Some ev \<Rightarrow> ev_ptr ev = c"
  shows "registered p m' d = registered p m d" "watched p m' d = watched p m d"
proof -
  have "po_channels po fd \<noteq> Some d" "x \<noteq> Some d" using free chans(2) d(1) by (auto simp: free_for_def)
  then show "registered p m' d = registered p m d"
    using po po' d(2) chans(1) by (auto simp: registered_def split: option.split)
  show "watched p m' d = watched p m d"
    using po po' d int old by (auto simp: watched_def split: option.split)
qed

text \<open>One channel moved, everything else as it was.\<close>

lemma registry_move:
  assumes p: "p \<noteq> 0" and po: "poller_at m p = Some po"
    and ok: "registry_ok po (chan_at m) (trace m)" and c: "chan_at m c = Some ch"
    "ch_loop ch = po_owner po" "free_for po (ch_fd ch) c"
    and ch': "ch_fd ch' = ch_fd ch" "ch_loop ch' = ch_loop ch"
    and m': "chan_at m' = (chan_at m)(c \<mapsto> ch')" "poller_at m' = (poller_at m)(p \<mapsto> po')"
    and po': "po' = po\<lparr>po_channels :=
        (po_channels po)(ch_fd ch := (if ch_index ch' = kNew then None else Some c))\<rparr>"
    and ok': "registry_ok po' (chan_at m') (trace m')"
  shows "poller_inv p m' \<and> usable p c m'
    \<and> registered p m' c = (ch_index ch' \<noteq> kNew)
    \<and> watched p m' c = (if ch_index ch' = kAdd then Some (ch_events ch') else None)
    \<and> (\<forall>d. d \<noteq> c \<longrightarrow> registered p m' d = registered p m d \<and> watched p m' d = watched p m d)"
proof -
  from ok have chans: "channels_ok po (chan_at m)" by (simp add: registry_ok_def)
  have free': "free_for po' (ch_fd ch') c"
    using ch' by (simp add: po' free_for_def)
  have view: "registered p m' c = (ch_index ch' \<noteq> kNew)"
      "watched p m' c = (if ch_index ch' = kAdd then Some (ch_events ch') else None)"
  proof -
    have "poller_at m' p = Some po'" "chan_at m' c = Some ch'" "ch_loop ch' = po_owner po'"
      using m' c(2) ch'(2) by (simp_all add: po')
    from registry_view [OF ok' this free']
    show "registered p m' c = (ch_index ch' \<noteq> kNew)"
      "watched p m' c = (if ch_index ch' = kAdd then Some (ch_events ch') else None)" .
  qed
  have self: "interest (po_epfd po) (trace m) (ch_fd ch) = watched_by (Some ch) c"
    using ok expected_self [OF chans c] by (simp add: registry_ok_def)
  have "interest (po_epfd po) (trace m') = expected po' (chan_at m')"
    using ok' by (simp add: registry_ok_def po')
  also have "\<dots> = (interest (po_epfd po) (trace m))(ch_fd ch := watched_by (Some ch') c)"
    using expected_upd [OF chans c(1) ch'(1)] ok by (simp add: po' m'(1) registry_ok_def)
  finally have int: "interest (po_epfd po) (trace m') =
    (interest (po_epfd po) (trace m))(ch_fd ch := watched_by (Some ch') c)" .
  have frame: "registered p m' d = registered p m d" "watched p m' d = watched p m d" if "d \<noteq> c" for d
  proof -
    let ?x = "if ch_index ch' = kNew then None else Some c"
    have d: "chan_at m' d = chan_at m d" using that by (simp add: m'(1))
    have p': "poller_at m' p = Some po'" "po_epfd po' = po_epfd po" by (simp_all add: m'(2) po')
    have x: "po_channels po' = (po_channels po)(ch_fd ch := ?x)" "?x \<in> {None, Some c}"
      by (simp_all add: po')
    have w: "case watched_by (Some y) c of None \<Rightarrow> True | Some ev \<Rightarrow> ev_ptr ev = c" for y :: "'a channel"
      by (simp add: watched_by_def)
    have old: "case interest (po_epfd po) (trace m) (ch_fd ch) of None \<Rightarrow> True | Some ev \<Rightarrow> ev_ptr ev = c"
      using self w by simp
    from view_frame [OF po p' that d c(3) x int w old]
    show "registered p m' d = registered p m d" "watched p m' d = watched p m d" .
  qed
  have "poller_inv p m'" using p ok' by (auto simp: poller_inv_def m'(2))
  moreover have "usable p c m'"
    unfolding usable_def
    by (rule exI [of _ po'], rule exI [of _ ch']) (use m' c(2) ch'(2) free' in \<open>simp add: po'\<close>)
  ultimately show ?thesis using view frame by blast
qed

lemma watch_move:
  assumes K: "ctl_documented K" and "poller_inv p m" and "usable p c m"
  shows "\<exists>m'. watch K p e c m = Inr m' \<and> poller_inv p m' \<and> usable p c m'
    \<and> (registered p m' c, watched p m' c) = demux_spec (Watch e) (registered p m c, watched p m c)
    \<and> (\<forall>d. d \<noteq> c \<longrightarrow> registered p m' d = registered p m d \<and> watched p m' d = watched p m d)"
  using assms(2,3)
proof (rule usable_obtain)
  fix po ch
  assume a: "p \<noteq> 0" "c \<noteq> 0" "poller_at m p = Some po" "chan_at m c = Some ch"
    "ch_loop ch = po_owner po" "registry_ok po (chan_at m) (trace m)"
    and free: "free_for po (ch_fd ch) c"
  let ?ch = "ch\<lparr>ch_events := e, ch_index := next_index (ch_index ch) e\<rparr>"
  let ?call = "SysEpollCtl (po_epfd po) (next_ctl (ch_index ch) e) (ch_fd ch) \<lparr>ev_events = e, ev_ptr = c\<rparr>"
  let ?po = "po\<lparr>po_channels := (po_channels po)(ch_fd ch \<mapsto> c)\<rparr>"
  have idx: "next_index (ch_index ch) e \<noteq> kNew" by (simp add: next_index_def)
  have legal: "ctl_legal (trace m) (po_epfd po) (next_ctl (ch_index ch) e) (ch_fd ch)"
    by (rule watch_ctl_legal [OF a(6,4,5) free])
  have ok': "registry_ok ?po ((chan_at m)(c \<mapsto> ?ch)) (trace m @ [(?call, K (trace m) ?call)])"
    using ctl_documentedD [OF K legal] by (intro watch_registry [OF a(6,4,5) free legal]) simp_all
  obtain m' where m': "watch K p e c m = Inr m'"
    "chan_at m' = (chan_at m)(c \<mapsto> ?ch)" "poller_at m' = (poller_at m)(p \<mapsto> ?po)"
    "registry_ok ?po (chan_at m') (trace m')"
    using watch_step [OF K a(1,3,6,4,5) free, of e] ok' by simp
  have move: "poller_inv p m' \<and> usable p c m' \<and> registered p m' c
    \<and> watched p m' c = (if next_index (ch_index ch) e = kAdd then Some e else None)
    \<and> (\<forall>d. d \<noteq> c \<longrightarrow> registered p m' d = registered p m d \<and> watched p m' d = watched p m d)"
    using registry_move [OF a(1,3,6,4,5) free _ _ m'(2,3) _ m'(4)] idx by simp
  have "watched p m c = (if ch_index ch = kAdd then Some (ch_events ch) else None)"
    by (rule registry_view [OF a(6,3,4,5) free])
  with move m'(1) show ?thesis
    by (intro exI [of _ m']) (simp add: next_index_def kNoneEvent_def)
qed

lemma remove_move:
  assumes K: "ctl_documented K" and "poller_inv p m" and "usable p c m"
  shows "\<exists>m'. removeChannel K p c m = Inr m' \<and> poller_inv p m' \<and> usable p c m'
    \<and> (registered p m' c, watched p m' c) = demux_spec Forget (registered p m c, watched p m c)
    \<and> (\<forall>d. d \<noteq> c \<longrightarrow> registered p m' d = registered p m d \<and> watched p m' d = watched p m d)"
  using assms(2,3)
proof (rule usable_obtain)
  fix po ch
  assume a: "p \<noteq> 0" "c \<noteq> 0" "poller_at m p = Some po" "chan_at m c = Some ch"
    "ch_loop ch = po_owner po" "registry_ok po (chan_at m) (trace m)"
    and free: "free_for po (ch_fd ch) c"
  let ?ch = "ch\<lparr>ch_index := kNew\<rparr>"
  let ?po = "po\<lparr>po_channels := (po_channels po)(ch_fd ch := None)\<rparr>"
  note step = remove_step [OF K a(1,3,6,4,5) free]
  from step(1) obtain m' where m': "removeChannel K p c m = Inr m'"
    "chan_at m' = (chan_at m)(c \<mapsto> ?ch)" "poller_at m' = (poller_at m)(p \<mapsto> ?po)"
    "registry_ok ?po (chan_at m') (trace m')"
    using step(2) by (auto split: if_splits)
  from registry_move [OF a(1,3,6,4,5) free _ _ m'(2,3) _ m'(4)] m'(1)
  show ?thesis by (intro exI [of _ m']) simp
qed

interpretation epoll: demultiplexer "\<lambda>m. ctl_documented K \<and> poller_inv p m" "usable p"
  "registered p" "watched p" "watch K p" "removeChannel K p" "hasChannel p" for K p
proof unfold_locales
  fix m :: "('a, 'b) machine_scheme" and c e
  assume inv: "ctl_documented K \<and> poller_inv p m" and u: "usable p c m"
  from watch_move [of K p m c e] inv u
  show "\<exists>m'. watch K p e c m = Inr m' \<and> (ctl_documented K \<and> poller_inv p m') \<and> usable p c m'
    \<and> (registered p m' c, watched p m' c) = demux_spec (Watch e) (registered p m c, watched p m c)
    \<and> (\<forall>d. d \<noteq> c \<longrightarrow> registered p m' d = registered p m d \<and> watched p m' d = watched p m d)"
    by simp
  from remove_move [of K p m c] inv u
  show "\<exists>m'. removeChannel K p c m = Inr m' \<and> (ctl_documented K \<and> poller_inv p m') \<and> usable p c m'
    \<and> (registered p m' c, watched p m' c) = demux_spec Forget (registered p m c, watched p m c)
    \<and> (\<forall>d. d \<noteq> c \<longrightarrow> registered p m' d = registered p m d \<and> watched p m' d = watched p m d)"
    by simp
  show "hasChannel p c m = Inr (registered p m c)"
    using inv u by (auto elim!: usable_obtain simp: hasChannel_def registered_def)
qed

section \<open>Filling in the active channels\<close>

definition live_event :: "(ptr \<Rightarrow> 'cb channel option) \<Rightarrow> epoll_event \<Rightarrow> bool" where
  "live_event h ev \<longleftrightarrow> ev_ptr ev \<noteq> 0 \<and> h (ev_ptr ev) \<noteq> None"

fun fill_heap :: "epoll_event list \<Rightarrow> (ptr \<Rightarrow> 'cb channel option) \<Rightarrow> (ptr \<Rightarrow> 'cb channel option)" where
  "fill_heap [] h = h"
| "fill_heap (ev # evs) h =
     fill_heap evs (case h (ev_ptr ev) of None \<Rightarrow> h
       | Some ch \<Rightarrow> h(ev_ptr ev \<mapsto> ch\<lparr>ch_revents := ev_events ev\<rparr>))"

lemma live_fill_heap [simp]: "live_event (fill_heap evs h) = live_event h"
  by (induction evs arbitrary: h) (auto simp: live_event_def fun_eq_iff split: option.split)

lemma fill_one_live:
  "c \<noteq> 0 \<Longrightarrow> chan_at m c = Some ch \<Longrightarrow> ev_ptr ev = c \<Longrightarrow>
    fill_one ev (acts, m) = Inr (acts @ [c], put_chan c (ch\<lparr>ch_revents := ev_events ev\<rparr>) m)"
  by (simp add: fill_one_def set_revents_def)

lemma put_chan_overwritten: "(put_chan c ch m)\<lparr>chan_at := h\<rparr> = m\<lparr>chan_at := h\<rparr>"
  by (simp add: put_chan_def)

lemma foldE_fill_live:
  "\<forall>ev \<in> set evs. live_event (chan_at m) ev \<Longrightarrow>
    foldE fill_one evs (acts, m)
    = Inr (acts @ map ev_ptr evs, m\<lparr>chan_at := fill_heap evs (chan_at m)\<rparr>)"
proof (induction evs arbitrary: acts m)
  case Nil
  then show ?case by simp
next
  case (Cons ev evs)
  then obtain ch where ch: "ev_ptr ev \<noteq> 0" "chan_at m (ev_ptr ev) = Some ch"
    by (auto simp: live_event_def)
  let ?m = "put_chan (ev_ptr ev) (ch\<lparr>ch_revents := ev_events ev\<rparr>) m"
  have "\<forall>x \<in> set evs. live_event (chan_at ?m) x"
    using Cons.prems by (auto simp: live_event_def)
  note IH = Cons.IH [OF this, of "acts @ [ev_ptr ev]"]
  have heap: "fill_heap (ev # evs) (chan_at m) = fill_heap evs (chan_at ?m)"
    using ch(2) by simp
  show ?case
    unfolding heap using IH
    by (simp only: foldE.simps fill_one_live [OF ch refl] bindE.simps put_chan_overwritten
        append_assoc append_Cons append_Nil list.map)
qed

lemma fill_heap_other: "c \<notin> ev_ptr ` set evs \<Longrightarrow> fill_heap evs h c = h c"
  by (induction evs arbitrary: h) (auto split: option.split)

lemma fill_heap_revents:
  assumes "distinct (map ev_ptr evs)" and "ev \<in> set evs" and "live_event h ev"
  shows "\<exists>ch. fill_heap evs h (ev_ptr ev) = Some ch \<and> ch_revents ch = ev_events ev"
  using assms
proof (induction evs arbitrary: h)
  case Nil
  then show ?case by simp
next
  case (Cons x evs)
  show ?case
  proof (cases "ev = x")
    case True
    with Cons.prems obtain ch where ch: "h (ev_ptr x) = Some ch" and "ev_ptr x \<notin> ev_ptr ` set evs"
      by (auto simp: live_event_def)
    with True fill_heap_other [of "ev_ptr x" evs "h(ev_ptr x \<mapsto> ch\<lparr>ch_revents := ev_events x\<rparr>)"]
    show ?thesis by simp
  next
    case False
    with Cons.prems have mem: "ev \<in> set evs" by simp
    then have "ev_ptr ev \<in> ev_ptr ` set evs" by simp
    with Cons.prems(1) have "ev_ptr ev \<noteq> ev_ptr x" by (metis distinct.simps(2) list.set_map list.simps(9))
    note this mem
    then show ?thesis using Cons.prems Cons.IH by (auto simp: live_event_def split: option.split)
  qed
qed

lemma foldE_fill_null:
  assumes "\<forall>ev \<in> set evs. live_event (chan_at m) ev"
  shows "foldE fill_one (evs @ null_event # rest) (acts, m) = Inl NullPointer"
  using foldE_fill_live [OF assms]
  by (simp add: fill_one_def set_revents_def null_event_def)

lemma poll_eq:
  assumes "p \<noteq> 0" and "poller_at m p = Some po"
    and r: "r = K (trace m) (SysEpollWait (po_epfd po) (length (po_events po)) t)"
    and "0 < sr_rv r" and "length (sr_events r) = nat (sr_rv r)"
    and evs: "evs = overwrite 0 (sr_events r) (po_events po)"
  obtains now m3 where "chan_at m3 = chan_at m"
    "poller_at m3 = (poller_at m)(p \<mapsto> po\<lparr>po_events := evs\<rparr>)"
    "poll K p t acts m = bindE (foldE fill_one evs (acts, m3)) (\<lambda>(acts', m4).
       bindE (load p (poller_at m4)) (\<lambda>po'.
       if sr_rv r = int (length (po_events po'))
       then Inr ((now, acts'), put_poller p (po'\<lparr>po_events := po_events po'
                   @ replicate (length (po_events po')) null_event\<rparr>) m4)
       else Inr ((now, acts'), m4)))"
proof -
  define m1 where "m1 = log_sys (SysEpollWait (po_epfd po) (length (po_events po)) t) r m"
  define m2 where "m2 = put_poller p (po\<lparr>po_events := evs\<rparr>) m1"
  define now where "now = K (trace m @ [(SysEpollWait (po_epfd po) (length (po_events po)) t, r)]) SysTime"
  define m3 where "m3 = log_sys SysTime now m2"
  have m3: "chan_at m3 = chan_at m" "poller_at m3 = (poller_at m)(p \<mapsto> po\<lparr>po_events := evs\<rparr>)"
    by (simp_all add: m3_def m2_def m1_def)
  show thesis
    using assms(1,2,4,5) m3(2)
    by (intro that [OF m3, of "sr_rv now"])
      (simp add: poll_def split_def do_sys_log Let_def fillActivateChannels_def r [symmetric] m1_def [symmetric]
        evs [symmetric] m2_def [symmetric] now_def [symmetric]
        m3_def [symmetric] del: machine_order cong del: if_weak_cong)
qed

section \<open>Properties\<close>

text \<open>C2: The poller's contract, for every sequence of interest changes and removals of one
  channel: with a kernel that answers legal \<open>epoll_ctl\<close> calls without error nothing stops the
  program, the registry invariant is kept, whether the channel is registered and the mask the
  kernel watches it for are those of the abstract machine \<open>demux_spec\<close>, and no other channel is
  touched.\<close>

theorem interest_changes_refine:
  assumes "ctl_documented K" and "poller_inv p m" and "usable p c m"
  shows "\<exists>m'. foldE (demux_impl (watch K p) (removeChannel K p) c) xs m = Inr m'
    \<and> poller_inv p m' \<and> usable p c m'
    \<and> (registered p m' c, watched p m' c) = fold demux_spec xs (registered p m c, watched p m c)
    \<and> (\<forall>d. d \<noteq> c \<longrightarrow> registered p m' d = registered p m d \<and> watched p m' d = watched p m d)"
  using epoll.run_refines [of K p m c xs] assms by blast

text \<open>A poller with nothing registered and one channel on descriptor 5.\<close>

definition small_poller :: poller where
  "small_poller = \<lparr>po_owner = 1, po_channels = Map.empty,
     po_events = replicate kInitEventsListSize null_event, po_epfd = 3\<rparr>"

definition small_machine :: "int machine" where
  "small_machine = \<lparr>trace = [], chan_at = [7 \<mapsto> Channel 1 5], poller_at = [2 \<mapsto> small_poller]\<rparr>"

lemma small_machine_ok: "poller_inv 2 small_machine" "usable 2 7 small_machine"
proof -
  have "channels_ok small_poller (chan_at small_machine)"
    by (simp add: channels_ok_def small_machine_def small_poller_def Channel_def kNew_def kAdd_def
        kDelete_def)
  then show "poller_inv 2 small_machine"
    by (simp add: poller_inv_def registry_ok_def small_machine_def small_poller_def expected_def
        fun_eq_iff)
  show "usable 2 7 small_machine"
    by (simp add: usable_def small_machine_def small_poller_def Channel_def free_for_def)
qed

theorem interest_changes_refine_witness:
  "\<exists>m'. foldE (demux_impl (watch quiet_kernel 2) (removeChannel quiet_kernel 2) 7)
      [Watch 3, Watch 0, Watch 4] small_machine = Inr m'
    \<and> registered 2 m' 7 \<and> watched 2 m' 7 = Some 4"
proof -
  have "watched 2 small_machine 7 = None"
    by (simp add: watched_def small_machine_def)
  with interest_changes_refine [OF quiet_kernel_documented(3) small_machine_ok, of "[Watch 3, Watch 0, Watch 4]"]
  show ?thesis by auto
qed

text \<open>C29: Whatever was done to a channel, removing it leaves it unknown to the poller and not
  watched by the kernel, and every \<open>epoll_ctl\<close> call made on the way was legal: no descriptor is
  added twice, modified or deleted when absent.\<close>

theorem removed_channel_forgotten:
  assumes "ctl_documented K" and "poller_inv p m" and "usable p c m"
  shows "\<exists>m'. foldE (demux_impl (watch K p) (removeChannel K p) c) (xs @ [Forget]) m = Inr m'
    \<and> hasChannel p c m' = Inr False \<and> watched p m' c = None \<and> history_conforms (trace m')"
  using epoll.forgotten [of K p m c xs] assms by (auto simp: poller_inv_def registry_ok_def)

theorem removed_channel_forgotten_witness:
  "\<exists>m'. foldE (demux_impl (watch quiet_kernel 2) (removeChannel quiet_kernel 2) 7)
      ([Watch 3, Watch 7] @ [Forget]) small_machine = Inr m' \<and> hasChannel 2 7 m' = Inr False
    \<and> watched 2 m' 7 = None \<and> history_conforms (trace m')"
  by (rule removed_channel_forgotten [OF quiet_kernel_documented(3) small_machine_ok])

text \<open>The first events crash the loop. A poller whose event vector is as constructed and a
  wait that reports at least one event but does not fill the vector: \<open>fillActivateChannels\<close>
  ignores the number of events, runs into the entries that \<open>epoll_wait\<close> did not write and calls
  through their null pointer, even though every event reported belongs to a live channel.\<close>

theorem first_poll_dereferences_null:
  assumes "p \<noteq> 0" and "poller_at m p = Some po"
    and "po_events po = replicate kInitEventsListSize null_event"
    and "r = K (trace m) (SysEpollWait (po_epfd po) kInitEventsListSize t)"
    and "0 < sr_rv r" and "sr_rv r < int kInitEventsListSize"
    and "length (sr_events r) = nat (sr_rv r)"
    and "\<forall>ev \<in> set (sr_events r). live_event (chan_at m) ev"
  shows "poll K p t acts m = Inl NullPointer"
proof -
  obtain k where k: "kInitEventsListSize - length (sr_events r) = Suc k"
    using assms(5-7) by (cases "kInitEventsListSize - length (sr_events r)") auto
  have evs: "sr_events r @ null_event # replicate k null_event = overwrite 0 (sr_events r) (po_events po)"
    using k by (simp add: overwrite_def assms(3))
  have r: "r = K (trace m) (SysEpollWait (po_epfd po) (length (po_events po)) t)"
    using assms(3,4) by simp
  obtain now m3 where "chan_at m3 = chan_at m" and
    poll: "poll K p t acts m = bindE (foldE fill_one (sr_events r @ null_event # replicate k null_event)
       (acts, m3)) (\<lambda>(acts', m4). bindE (load p (poller_at m4)) (\<lambda>po'.
       if sr_rv r = int (length (po_events po'))
       then Inr ((now, acts'), put_poller p (po'\<lparr>po_events := po_events po'
                   @ replicate (length (po_events po')) null_event\<rparr>) m4)
       else Inr ((now, acts'), m4)))"
    by (rule poll_eq [OF assms(1,2), of r K t "sr_events r @ null_event # replicate k null_event" acts,
          OF r assms(5,7) evs])
  with assms(8) foldE_fill_null [of "sr_events r" m3 "replicate k null_event" acts]
  show ?thesis by (simp del: foldE_append)
qed

definition one_event_kernel :: kernel where
  "one_event_kernel tr c = (case c of
     SysEpollWait ep n t \<Rightarrow> zero_ret\<lparr>sr_rv := 1, sr_events := [\<lparr>ev_events = EPOLLIN, ev_ptr = 7\<rparr>]\<rparr>
   | _ \<Rightarrow> zero_ret)"

theorem first_poll_dereferences_null_witness:
  "poll one_event_kernel 2 10000 [] small_machine = Inl NullPointer"
  by (rule first_poll_dereferences_null [where po = small_poller and
        r = "zero_ret\<lparr>sr_rv := 1, sr_events := [\<lparr>ev_events = EPOLLIN, ev_ptr = 7\<rparr>]\<rparr>"])
    (simp_all add: small_machine_def small_poller_def one_event_kernel_def kInitEventsListSize_def
      live_event_def)

text \<open>When every entry of the event vector points to a live channel, a successful wait appends
  one active channel per entry of the whole vector, the entries left from earlier waits included;
  each channel gets the events of its entry; and the vector is doubled exactly when the wait
  filled it.\<close>

theorem poll_reports_whole_vector:
  assumes "p \<noteq> 0" and "poller_at m p = Some po"
    and "r = K (trace m) (SysEpollWait (po_epfd po) (length (po_events po)) t)"
    and "0 < sr_rv r" and "sr_rv r \<le> int (length (po_events po))"
    and "length (sr_events r) = nat (sr_rv r)"
    and "evs = sr_events r @ drop (nat (sr_rv r)) (po_events po)"
    and "\<forall>ev \<in> set evs. live_event (chan_at m) ev" and "distinct (map ev_ptr evs)"
  shows "\<exists>now m' po'. poll K p t acts m = Inr ((now, acts @ map ev_ptr evs), m')
    \<and> (\<forall>ev \<in> set evs. \<exists>ch. chan_at m' (ev_ptr ev) = Some ch \<and> ch_revents ch = ev_events ev)
    \<and> poller_at m' p = Some po' \<and> length (po_events po') =
        (if sr_rv r = int (length (po_events po)) then 2 * length (po_events po)
         else length (po_events po))"
proof -
  have evs: "overwrite 0 (sr_events r) (po_events po) = evs"
    using assms(6,7) by (simp add: overwrite_def)
  have len: "length evs = length (po_events po)" using assms(5-7) by simp
  obtain now m3 where
    m3: "chan_at m3 = chan_at m" "poller_at m3 = (poller_at m)(p \<mapsto> po\<lparr>po_events := evs\<rparr>)"
    and poll: "poll K p t acts m = bindE (foldE fill_one evs (acts, m3)) (\<lambda>(acts', m4).
          bindE (load p (poller_at m4)) (\<lambda>po'.
          if sr_rv r = int (length (po_events po'))
          then Inr ((now, acts'), put_poller p (po'\<lparr>po_events := po_events po'
                      @ replicate (length (po_events po')) null_event\<rparr>) m4)
          else Inr ((now, acts'), m4)))"
    by (rule poll_eq [OF assms(1,2), of r K t evs acts, OF assms(3,4,6) evs [symmetric]])
  have fold: "foldE fill_one evs (acts, m3)
      = Inr (acts @ map ev_ptr evs, m3\<lparr>chan_at := fill_heap evs (chan_at m)\<rparr>)"
    using foldE_fill_live [of evs m3 acts] assms(8) m3(1) by simp
  have "\<forall>ev \<in> set evs. \<exists>ch. fill_heap evs (chan_at m) (ev_ptr ev) = Some ch \<and> ch_revents ch = ev_events ev"
    using fill_heap_revents [OF assms(9)] assms(8) by blast
  then show ?thesis
    using poll fold m3(2) assms(1) len by (cases "sr_rv r = int (length (po_events po))") simp_all
qed

theorem poll_reports_whole_vector_witness:
  "\<exists>now m' po'. poll one_event_kernel 2 10000 []
      (small_machine\<lparr>poller_at := [2 \<mapsto> small_poller\<lparr>po_events := [null_event]\<rparr>]\<rparr>) = Inr ((now, [7]), m')
    \<and> poller_at m' 2 = Some po' \<and> length (po_events po') = 2"
proof -
  let ?r = "zero_ret\<lparr>sr_rv := 1, sr_events := [\<lparr>ev_events = EPOLLIN, ev_ptr = 7\<rparr>]\<rparr>"
  let ?po = "small_poller\<lparr>po_events := [null_event]\<rparr>"
  let ?m = "small_machine\<lparr>poller_at := [2 \<mapsto> ?po]\<rparr>"
  have "\<exists>now m' po'. poll one_event_kernel 2 10000 [] ?m = Inr ((now, [] @ map ev_ptr (sr_events ?r)), m')
    \<and> (\<forall>ev \<in> set (sr_events ?r). \<exists>ch. chan_at m' (ev_ptr ev) = Some ch \<and> ch_revents ch = ev_events ev)
    \<and> poller_at m' 2 = Some po' \<and> length (po_events po') =
        (if sr_rv ?r = int (length (po_events ?po)) then 2 * length (po_events ?po)
         else length (po_events ?po))"
    by (rule poll_reports_whole_vector)
      (simp_all add: small_machine_def small_poller_def one_event_kernel_def live_event_def zero_ret_def)
  then show ?thesis by (auto simp: zero_ret_def)
qed

end
