(* ===== verification/Muduo_Socket.thy ===== *)
theory Muduo_Socket
  imports Muduo_OS
begin

text \<open>
  \<open>muduo/InetAddress.h\<close>, \<open>muduo/InetAddress.cpp\<close>, \<open>muduo/Socket.h\<close> and \<open>muduo/Socket.cpp\<close>:
  IPv4 addresses with their byte orders and texts, and the wrappers of the socket calls. The
  host is little-endian. \<open>inet_addr\<close> is a parameter of the constructor; its documented
  behaviour on dotted quads is \<open>inet_addr_documented\<close>.
\<close>

section \<open>Addresses\<close>

definition AF_INET :: u16 where "AF_INET = 2"

definition htons :: "u16 \<Rightarrow> u16" where "htons w = push_bit 8 w OR drop_bit 8 w"
definition ntohs :: "u16 \<Rightarrow> u16" where "ntohs w = push_bit 8 w OR drop_bit 8 w"

text \<open>The \<open>i\<close>-th byte in memory of an address in network order.\<close>

definition octet :: "u32 \<Rightarrow> nat \<Rightarrow> nat" where
  "octet a i = unat (take_bit 8 (drop_bit (8 * i) a))"

text \<open>What \<open>inet_ntop\<close> writes for \<open>AF_INET\<close>.\<close>

definition dotted :: "u32 \<Rightarrow> string" where
  "dotted a = dec_nat (octet a 0) @ ''.'' @ dec_nat (octet a 1) @ ''.'' @ dec_nat (octet a 2)
     @ ''.'' @ dec_nat (octet a 3)"

definition inet_addr_documented :: "(string \<Rightarrow> u32) \<Rightarrow> bool" where
  "inet_addr_documented inet_addr \<longleftrightarrow> (\<forall>a. inet_addr (dotted a) = a)"

definition InetAddress :: "(string \<Rightarrow> u32) \<Rightarrow> u16 \<Rightarrow> string \<Rightarrow> sockaddr_in" where
  "InetAddress inet_addr port ip =
     \<lparr>sin_family = AF_INET, sin_port = htons port, s_addr = inet_addr ip\<rparr>"

definition setSockAddr :: "sockaddr_in \<Rightarrow> sockaddr_in \<Rightarrow> sockaddr_in" where
  "setSockAddr new old = new"

text \<open>A write of the characters of \<open>s\<close> and a terminator into \<open>char buf[n]\<close> from \<open>i\<close> on.\<close>

definition write_cstring :: "nat \<Rightarrow> nat \<Rightarrow> string \<Rightarrow> string \<Rightarrow> string result" where
  "write_cstring n i s buf = (if i + length s + 1 \<le> n then Inr (take i buf @ s) else Inl OutOfBounds)"

text \<open>\<open>inet_ntop\<close> fails when the text does not fit and then leaves the zeroed buffer alone.\<close>

definition ip_text :: "nat \<Rightarrow> sockaddr_in \<Rightarrow> string" where
  "ip_text n addr = (if length (dotted (s_addr addr)) < n then dotted (s_addr addr) else '''')"

definition toIp :: "sockaddr_in \<Rightarrow> string" where
  "toIp addr = ip_text 64 addr"

definition toPort :: "sockaddr_in \<Rightarrow> u16" where
  "toPort addr = ntohs (sin_port addr)"

definition toIpPort :: "sockaddr_in \<Rightarrow> string result" where
  "toIpPort addr = (let buf = ip_text 64 addr; e = length buf; port = ntohs (sin_port addr)
     in write_cstring 64 e (CHR '':'' # dec_nat (unat port)) buf)"

section \<open>Sockets\<close>

definition bindAddress :: "kernel \<Rightarrow> int \<Rightarrow> sockaddr_in \<Rightarrow> 'z os_scheme \<Rightarrow> 'z os_scheme result" where
  "bindAddress K fd addr m = (let (r, m1) = do_sys K (SysBind fd addr) m
     in if sr_rv r \<noteq> 0 then Inl ExitProcess else Inr m1)"

definition socket_listen :: "kernel \<Rightarrow> int \<Rightarrow> 'z os_scheme \<Rightarrow> 'z os_scheme result" where
  "socket_listen K fd m = (let (r, m1) = do_sys K (SysListen fd 1024) m
     in if sr_rv r \<noteq> 0 then Inl ExitProcess else Inr m1)"

text \<open>
  \<open>len\<close> is the uninitialised \<open>socklen_t\<close> that is passed to \<open>accept\<close>. The result is the
  descriptor and the peer address, which is only set when the descriptor is not negative.
\<close>

definition socket_accept :: "kernel \<Rightarrow> u32 \<Rightarrow> int \<Rightarrow> sockaddr_in \<Rightarrow> 'z os_scheme
    \<Rightarrow> (int \<times> sockaddr_in) \<times> 'z os_scheme" where
  "socket_accept K len fd peerAddr m = (let (r, m1) = do_sys K (SysAccept fd len) m;
     connfd = sr_rv r
     in ((connfd, if connfd \<ge> 0 then setSockAddr (sr_addr r) peerAddr else peerAddr), m1))"

definition shutdownWrite :: "kernel \<Rightarrow> int \<Rightarrow> 'z os_scheme \<Rightarrow> 'z os_scheme" where
  "shutdownWrite K fd m = snd (do_sys K (SysShutdownWrite fd) m)"

definition setsockopt :: "sockopt \<Rightarrow> kernel \<Rightarrow> int \<Rightarrow> bool \<Rightarrow> 'z os_scheme \<Rightarrow> 'z os_scheme" where
  "setsockopt opt K fd on m = snd (do_sys K (SysSetsockopt fd opt (if on then 1 else 0)) m)"

definition setTcpNoDelay :: "kernel \<Rightarrow> int \<Rightarrow> bool \<Rightarrow> 'z os_scheme \<Rightarrow> 'z os_scheme" where
  "setTcpNoDelay = setsockopt TCP_NODELAY"
definition setReuseAddr :: "kernel \<Rightarrow> int \<Rightarrow> bool \<Rightarrow> 'z os_scheme \<Rightarrow> 'z os_scheme" where
  "setReuseAddr = setsockopt SO_REUSEADDR"
definition setReusePort :: "kernel \<Rightarrow> int \<Rightarrow> bool \<Rightarrow> 'z os_scheme \<Rightarrow> 'z os_scheme" where
  "setReusePort = setsockopt SO_REUSEPORT"
definition setKeepAlive :: "kernel \<Rightarrow> int \<Rightarrow> bool \<Rightarrow> 'z os_scheme \<Rightarrow> 'z os_scheme" where
  "setKeepAlive = setsockopt SO_KEEPALIVE"

definition close_socket :: "kernel \<Rightarrow> int \<Rightarrow> 'z os_scheme \<Rightarrow> 'z os_scheme" where
  "close_socket K fd m = snd (do_sys K (SysClose fd) m)"

section \<open>Texts of addresses\<close>

lemma htons_involution: "ntohs (htons w) = w"
  unfolding htons_def ntohs_def
  by (rule bit_word_eqI) (auto simp: bit_or_iff bit_push_bit_iff bit_drop_bit_eq dest: bit_imp_le_length)

lemma octet_bound: "octet a i < 256"
proof -
  have "unat (take_bit 8 (drop_bit (8 * i) a)) = take_bit 8 (unat (drop_bit (8 * i) a))"
    by (rule unsigned_take_bit_eq)
  also have "\<dots> < 2 ^ 8" by (rule take_bit_nat_less_exp)
  finally show ?thesis by (simp add: octet_def)
qed

lemma octet_length: "length (dec_nat (octet a i)) \<le> 3"
  using length_dec_nat [of "octet a i" 2] octet_bound [of a i] by (simp add: numeral_3_eq_3 [symmetric])

lemma length_dotted: "length (dotted a) \<le> 15"
  using octet_length [of a 0] octet_length [of a 1] octet_length [of a 2] octet_length [of a 3]
  by (simp add: dotted_def)

lemma ip_text_fits: "ip_text 64 addr = dotted (s_addr addr)"
  using length_dotted [of "s_addr addr"] by (simp add: ip_text_def)

text \<open>Texts without a separator, followed by the separator, can be taken apart again.\<close>

lemma split_at_sep:
  assumes "c \<notin> set s" and "c \<notin> set s'" and "s @ c # t = s' @ c # t'"
  shows "s = s' \<and> t = t'"
  using assms
proof (induction s arbitrary: s')
  case Nil
  then show ?case by (cases s') auto
next
  case (Cons x xs)
  then show ?case by (cases s') auto
qed

lemma dec_nat_no_sep [simp]:
  "CHR ''.'' \<notin> set (dec_nat n)" "CHR '':'' \<notin> set (dec_nat n)"
  "CHR ''-'' \<notin> set (dec_nat n)" "CHR ''#'' \<notin> set (dec_nat n)"
  using set_dec_nat [of n] by auto

lemma octets_determine:
  assumes "\<And>i. i < 4 \<Longrightarrow> octet a i = octet b i"
  shows "a = b"
proof (rule bit_word_eqI)
  fix n
  assume n: "n < LENGTH(32)"
  define i k where "i = n div 8" and "k = n mod 8"
  have ik: "n = 8 * i + k" "k < 8" "i < 4" using n by (simp_all add: i_def k_def)
  have "take_bit 8 (drop_bit (8 * i) a) = take_bit 8 (drop_bit (8 * i) b)"
    using assms [OF ik(3)] by (simp add: octet_def word_unat_eq_iff)
  then have "bit (take_bit 8 (drop_bit (8 * i) a)) k = bit (take_bit 8 (drop_bit (8 * i) b)) k"
    by simp
  then show "bit a n \<longleftrightarrow> bit b n"
    using ik by (simp add: bit_take_bit_iff bit_drop_bit_eq)
qed

lemma dotted_inject: "dotted a = dotted b \<longleftrightarrow> a = b"
proof
  assume "dotted a = dotted b"
  then have eq: "dec_nat (octet a 0) @ CHR ''.'' # dec_nat (octet a 1) @ CHR ''.'' # dec_nat (octet a 2)
      @ CHR ''.'' # dec_nat (octet a 3)
    = dec_nat (octet b 0) @ CHR ''.'' # dec_nat (octet b 1) @ CHR ''.'' # dec_nat (octet b 2)
      @ CHR ''.'' # dec_nat (octet b 3)"
    by (simp add: dotted_def)
  note s0 = split_at_sep [OF dec_nat_no_sep(1,1) eq]
  note s1 = split_at_sep [OF dec_nat_no_sep(1,1) conjunct2 [OF s0]]
  note s2 = split_at_sep [OF dec_nat_no_sep(1,1) conjunct2 [OF s1]]
  have "octet a i = octet b i" if "i < 4" for i
  proof -
    from that consider "i = 0" | "i = 1" | "i = 2" | "i = 3" by linarith
    then show ?thesis by cases (use s0 s1 s2 in simp_all)
  qed
  then show "a = b" by (rule octets_determine)
qed simp

lemma dotted_no_colon [simp]: "CHR '':'' \<notin> set (dotted a)"
  by (simp add: dotted_def)

section \<open>Properties\<close>

text \<open>\<open>toIpPort\<close> never writes outside its 64-byte array, whatever the address, and its
  result is the dotted quad, a colon and the port; and addresses of the same family with the
  same text are the same, so a text identifies its peer.\<close>

theorem toIpPort_safe_injective:
  "toIpPort a = Inr (toIp a @ CHR '':'' # dec_nat (unat (toPort a)))
   \<and> (toIpPort a = toIpPort b \<and> sin_family a = sin_family b \<longleftrightarrow> a = b)"
proof -
  have eq: "toIpPort x = Inr (dotted (s_addr x) @ CHR '':'' # dec_nat (unat (ntohs (sin_port x))))" for x
  proof -
    have "unat (ntohs (sin_port x)) < 10 ^ Suc 4"
      using unsigned_less [of "ntohs (sin_port x)", where ?'a = nat] by simp
    then have "length (dec_nat (unat (ntohs (sin_port x)))) \<le> Suc 4" by (rule length_dec_nat)
    then show ?thesis
      using length_dotted [of "s_addr x"] by (simp add: toIpPort_def Let_def ip_text_fits write_cstring_def)
  qed
  have "htons (ntohs w) = w" for w
    using htons_involution by (simp add: htons_def ntohs_def)
  then have port: "ntohs v = ntohs w \<longleftrightarrow> v = w" for v w by metis
  have "a = b" if same: "toIpPort a = toIpPort b" "sin_family a = sin_family b"
  proof -
    from same(1) have "dotted (s_addr a) = dotted (s_addr b)
        \<and> dec_nat (unat (ntohs (sin_port a))) = dec_nat (unat (ntohs (sin_port b)))"
      unfolding eq by (intro split_at_sep) simp_all
    then have "s_addr a = s_addr b" "ntohs (sin_port a) = ntohs (sin_port b)"
      by (simp_all add: dotted_inject word_unat_eq_iff)
    with same(2) port show ?thesis by (cases a; cases b) simp
  qed
  then show ?thesis by (auto simp: eq toIp_def toPort_def ip_text_fits)
qed

text \<open>C39: An address built from a port and a dotted quad gives both back.\<close>

theorem InetAddress_roundtrip:
  assumes "inet_addr_documented inet_addr"
  shows "toPort (InetAddress inet_addr port (dotted a)) = port
    \<and> toIp (InetAddress inet_addr port (dotted a)) = dotted a
    \<and> toIpPort (InetAddress inet_addr port (dotted a)) = Inr (dotted a @ CHR '':'' # dec_nat (unat port))"
proof -
  let ?x = "InetAddress inet_addr port (dotted a)"
  have "s_addr ?x = a" using assms by (simp add: InetAddress_def inet_addr_documented_def)
  then have ip: "toIp ?x = dotted a" by (simp add: toIp_def ip_text_fits)
  have port: "toPort ?x = port" by (simp add: toPort_def InetAddress_def htons_involution)
  have "unat port < 10 ^ Suc 4" using unsigned_less [of port, where ?'a = nat] by simp
  then have "length (dec_nat (unat port)) \<le> Suc 4" by (rule length_dec_nat)
  then have "toIpPort ?x = Inr (dotted a @ CHR '':'' # dec_nat (unat port))"
    using length_dotted [of a] ip port
    by (simp add: toIpPort_def Let_def write_cstring_def toIp_def toPort_def)
  with ip port show ?thesis by simp
qed

text \<open>An \<open>inet_addr\<close> that parses dotted quads.\<close>

definition next_number :: "string \<Rightarrow> nat \<times> string" where
  "next_number s = (undec (takeWhile (\<lambda>c. c \<noteq> CHR ''.'') s), drop 1 (dropWhile (\<lambda>c. c \<noteq> CHR ''.'') s))"

definition parse_dotted :: "string \<Rightarrow> u32" where
  "parse_dotted s = (let (a, s1) = next_number s; (b, s2) = next_number s1; (c, s3) = next_number s2;
     (d, s4) = next_number s3 in word_of_nat (a + 2 ^ 8 * b + 2 ^ 16 * c + 2 ^ 24 * d))"

lemma next_number_dec:
  "next_number (dec_nat n @ CHR ''.'' # t) = (n, t)" "next_number (dec_nat n) = (n, [])"
proof -
  have no: "\<forall>x \<in> set (dec_nat n). x \<noteq> CHR ''.''" using dec_nat_no_sep(1) by metis
  have "takeWhile (\<lambda>c. c \<noteq> CHR ''.'') (dec_nat n) = dec_nat n"
    "dropWhile (\<lambda>c. c \<noteq> CHR ''.'') (dec_nat n) = []"
    "takeWhile (\<lambda>c. c \<noteq> CHR ''.'') (dec_nat n @ CHR ''.'' # t) = dec_nat n"
    "dropWhile (\<lambda>c. c \<noteq> CHR ''.'') (dec_nat n @ CHR ''.'' # t) = CHR ''.'' # t"
    using no by (simp_all add: takeWhile_append2 dropWhile_append2 takeWhile_eq_all_conv [THEN iffD2]
        dropWhile_eq_Nil_conv [THEN iffD2] del: takeWhile_eq_all_conv dropWhile_eq_Nil_conv)
  then show "next_number (dec_nat n @ CHR ''.'' # t) = (n, t)" "next_number (dec_nat n) = (n, [])"
    by (simp_all only: next_number_def undec_dec_nat drop_Suc_Cons drop_0 One_nat_def drop_Nil)
qed

lemma octet_nat: "octet a i = unat a div 2 ^ (8 * i) mod 256"
  unfolding octet_def unsigned_take_bit_eq unsigned_drop_bit_eq
  using unsigned_less [of a, where ?'a = nat] by (simp add: take_bit_eq_mod drop_bit_eq_div)

lemma base_256:
  fixes n :: nat
  assumes "n < 2 ^ 32"
  shows "n div 2 ^ (8 * 0) mod 256 + 2 ^ 8 * (n div 2 ^ (8 * 1) mod 256)
    + 2 ^ 16 * (n div 2 ^ (8 * 2) mod 256) + 2 ^ 24 * (n div 2 ^ (8 * 3) mod 256) = n"
proof -
  define x y z where "x = n div 256" and "y = x div 256" and "z = y div 256"
  have "n = n mod 256 + 256 * x" "x = x mod 256 + 256 * y" "y = y mod 256 + 256 * z"
    by (simp_all add: x_def y_def z_def)
  moreover have "n div 65536 = y" "n div 16777216 = z"
    by (simp_all add: x_def y_def z_def div_mult2_eq [symmetric])
  moreover have "z < 256" using assms by (simp add: x_def y_def z_def div_mult2_eq [symmetric])
  ultimately show ?thesis by (simp add: x_def [symmetric])
qed

lemma parse_dotted_documented: "inet_addr_documented parse_dotted"
  unfolding inet_addr_documented_def
proof
  fix a :: u32
  let ?n = "unat a"
  have n: "?n < 2 ^ 32" using unsigned_less [of a, where ?'a = nat] by simp
  have "octet a 0 + 2 ^ 8 * octet a 1 + 2 ^ 16 * octet a 2 + 2 ^ 24 * octet a 3 = ?n"
    using n unfolding octet_nat by (rule base_256)
  moreover have "parse_dotted (dotted a)
      = word_of_nat (octet a 0 + 2 ^ 8 * octet a 1 + 2 ^ 16 * octet a 2 + 2 ^ 24 * octet a 3)"
    by (simp add: parse_dotted_def dotted_def next_number_dec)
  ultimately show "parse_dotted (dotted a) = a" by simp
qed

theorem InetAddress_roundtrip_witness:
  "toIpPort (InetAddress parse_dotted 8080 (dotted 0x0100007F)) = Inr ''127.0.0.1:8080''"
proof -
  have "dotted 0x0100007F = ''127.0.0.1''"
    by (simp add: dotted_def octet_nat dec_nat.simps)
  moreover have "dec_nat 8080 = ''8080''" by (simp add: dec_nat.simps)
  ultimately show ?thesis
    using InetAddress_roundtrip [OF parse_dotted_documented, of 8080 "0x0100007F"] by simp
qed

end
