(* ===== verification/Muduo_EventLoop.thy ===== *)
theory Muduo_EventLoop
  imports Muduo_Poller "HOL-Library.Multiset"
begin

text \<open>
  \<open>muduo/EventLoop.h\<close>, \<open>muduo/EventLoop.cpp\<close>, the calls of \<open>muduo/Channel.h\<close> that go through
  the loop (\<open>enableReading\<close> and the others) and the thread id cache of
  \<open>muduo/CurrentThread.cpp\<close>. The state adds the event loops, the thread that runs now and the
  thread-local \<open>t_loopInThisThread\<close>. Closures are values of a type \<open>'cb\<close>; what calling one does
  is a parameter (\<open>run\<close> for the callbacks of a channel, \<open>call\<close> for functors).
\<close>

section \<open>State\<close>

record 'cb eventloop =
  looping :: bool
  el_quit :: bool
  threadId :: int
  pollReturnTime :: int
  el_poller :: ptr
  weakupFd :: int
  weakupChannel :: ptr
  activateChannels :: "ptr list"
  callingPendingFunctors :: bool
  pendingFunctors :: "'cb list"

record 'cb reactor = "'cb machine" +
  loop_at :: "ptr \<Rightarrow> 'cb eventloop option"
  cur_tid :: int
  t_loopInThisThread :: "int \<Rightarrow> ptr"

definition kPollTimeMs :: int where "kPollTimeMs = 10000"

definition put_loop :: "ptr \<Rightarrow> 'cb eventloop \<Rightarrow> ('cb, 'z) reactor_scheme \<Rightarrow> ('cb, 'z) reactor_scheme"
  where "put_loop l el m = m\<lparr>loop_at := (loop_at m)(l \<mapsto> el)\<rparr>"

section \<open>Channels and the loop\<close>

definition loop_updateChannel :: "kernel \<Rightarrow> ptr \<Rightarrow> ptr \<Rightarrow> ('cb, 'z) reactor_scheme
    \<Rightarrow> ('cb, 'z) reactor_scheme result" where
  "loop_updateChannel K l c m = bindE (load l (loop_at m)) (\<lambda>el. updateChannel K (el_poller el) c m)"

definition loop_removeChannel :: "kernel \<Rightarrow> ptr \<Rightarrow> ptr \<Rightarrow> ('cb, 'z) reactor_scheme
    \<Rightarrow> ('cb, 'z) reactor_scheme result" where
  "loop_removeChannel K l c m = bindE (load l (loop_at m)) (\<lambda>el. removeChannel K (el_poller el) c m)"

definition loop_hasChannel :: "ptr \<Rightarrow> ptr \<Rightarrow> ('cb, 'z) reactor_scheme \<Rightarrow> bool result" where
  "loop_hasChannel l c m = bindE (load l (loop_at m)) (\<lambda>el. hasChannel (el_poller el) c m)"

definition channel_update :: "kernel \<Rightarrow> ptr \<Rightarrow> ('cb, 'z) reactor_scheme
    \<Rightarrow> ('cb, 'z) reactor_scheme result" where
  "channel_update K c m = bindE (load c (chan_at m)) (\<lambda>ch. loop_updateChannel K (ch_loop ch) c m)"

definition channel_remove :: "kernel \<Rightarrow> ptr \<Rightarrow> ('cb, 'z) reactor_scheme
    \<Rightarrow> ('cb, 'z) reactor_scheme result" where
  "channel_remove K c m = bindE (load c (chan_at m)) (\<lambda>ch. loop_removeChannel K (ch_loop ch) c m)"

text \<open>The common shape of the five functions: change \<open>events_\<close>, then \<open>update()\<close>.\<close>

definition change_events :: "(u32 \<Rightarrow> u32) \<Rightarrow> kernel \<Rightarrow> ptr \<Rightarrow> ('cb, 'z) reactor_scheme
    \<Rightarrow> ('cb, 'z) reactor_scheme result" where
  "change_events f K c m = bindE (load c (chan_at m)) (\<lambda>ch.
     channel_update K c (put_chan c (ch\<lparr>ch_events := f (ch_events ch)\<rparr>) m))"

definition enableReading :: "kernel \<Rightarrow> ptr \<Rightarrow> ('cb, 'z) reactor_scheme \<Rightarrow> ('cb, 'z) reactor_scheme result"
  where "enableReading = change_events enableReading_ev"
definition disableReading :: "kernel \<Rightarrow> ptr \<Rightarrow> ('cb, 'z) reactor_scheme \<Rightarrow> ('cb, 'z) reactor_scheme result"
  where "disableReading = change_events disableReading_ev"
definition enableWriting :: "kernel \<Rightarrow> ptr \<Rightarrow> ('cb, 'z) reactor_scheme \<Rightarrow> ('cb, 'z) reactor_scheme result"
  where "enableWriting = change_events enableWriting_ev"
definition disableWriting :: "kernel \<Rightarrow> ptr \<Rightarrow> ('cb, 'z) reactor_scheme \<Rightarrow> ('cb, 'z) reactor_scheme result"
  where "disableWriting = change_events disableWriting_ev"
definition disableAll :: "kernel \<Rightarrow> ptr \<Rightarrow> ('cb, 'z) reactor_scheme \<Rightarrow> ('cb, 'z) reactor_scheme result"
  where "disableAll = change_events disableAll_ev"

definition setReadCallBack :: "'cb \<Rightarrow> ptr \<Rightarrow> ('cb, 'z) reactor_scheme
    \<Rightarrow> ('cb, 'z) reactor_scheme result" where
  "setReadCallBack cb c m = bindE (load c (chan_at m)) (\<lambda>ch.
     Inr (put_chan c (ch\<lparr>readCallBack := Some cb\<rparr>) m))"

section \<open>Waking the loop\<close>

text \<open>The eight bytes of the \<open>uint64_t\<close> 1, least significant first.\<close>

definition one_bytes :: "byte list" where "one_bytes = [1, 0, 0, 0, 0, 0, 0, 0]"

definition weakup :: "kernel \<Rightarrow> ptr \<Rightarrow> ('cb, 'z) reactor_scheme \<Rightarrow> ('cb, 'z) reactor_scheme result" where
  "weakup K l m = bindE (load l (loop_at m)) (\<lambda>el.
     Inr (snd (do_sys K (SysWrite (weakupFd el) one_bytes 8) m)))"

definition handleRead :: "kernel \<Rightarrow> ptr \<Rightarrow> ('cb, 'z) reactor_scheme \<Rightarrow> ('cb, 'z) reactor_scheme result"
  where "handleRead K l m = bindE (load l (loop_at m)) (\<lambda>el.
     Inr (snd (do_sys K (SysRead (weakupFd el) 8) m)))"

definition isInLoopthread :: "'cb eventloop \<Rightarrow> ('cb, 'z) reactor_scheme \<Rightarrow> bool" where
  "isInLoopthread el m \<longleftrightarrow> threadId el = cur_tid m"

definition quit :: "kernel \<Rightarrow> ptr \<Rightarrow> ('cb, 'z) reactor_scheme \<Rightarrow> ('cb, 'z) reactor_scheme result" where
  "quit K l m = bindE (load l (loop_at m)) (\<lambda>el.
     let m1 = put_loop l (el\<lparr>el_quit := True\<rparr>) m
     in if \<not> isInLoopthread el m1 then weakup K l m1 else Inr m1)"

definition queueInLoop :: "kernel \<Rightarrow> ptr \<Rightarrow> 'cb \<Rightarrow> ('cb, 'z) reactor_scheme
    \<Rightarrow> ('cb, 'z) reactor_scheme result" where
  "queueInLoop K l cb m = bindE (load l (loop_at m)) (\<lambda>el.
     let m1 = put_loop l (el\<lparr>pendingFunctors := pendingFunctors el @ [cb]\<rparr>) m
     in if \<not> isInLoopthread el m1 \<or> callingPendingFunctors el then weakup K l m1 else Inr m1)"

definition runInLoop :: "kernel \<Rightarrow> ('cb \<Rightarrow> ('cb, 'z) reactor_scheme \<Rightarrow> ('cb, 'z) reactor_scheme result)
    \<Rightarrow> ptr \<Rightarrow> 'cb \<Rightarrow> ('cb, 'z) reactor_scheme \<Rightarrow> ('cb, 'z) reactor_scheme result" where
  "runInLoop K call l cb m = bindE (load l (loop_at m)) (\<lambda>el.
     if isInLoopthread el m then call cb m else queueInLoop K l cb m)"

section \<open>The loop\<close>

definition doPendingFunctors :: "('cb \<Rightarrow> ('cb, 'z) reactor_scheme \<Rightarrow> ('cb, 'z) reactor_scheme result)
    \<Rightarrow> ptr \<Rightarrow> ('cb, 'z) reactor_scheme \<Rightarrow> ('cb, 'z) reactor_scheme result" where
  "doPendingFunctors call l m = bindE (load l (loop_at m)) (\<lambda>el.
     let functors = pendingFunctors el;
         m1 = put_loop l (el\<lparr>callingPendingFunctors := True, pendingFunctors := []\<rparr>) m
     in bindE (foldE call functors m1) (\<lambda>m2. bindE (load l (loop_at m2)) (\<lambda>el2.
        Inr (put_loop l (el2\<lparr>callingPendingFunctors := False\<rparr>) m2))))"

text \<open>One turn: wait, handle the active channels in order, run the functors.\<close>

definition loop_turn :: "kernel \<Rightarrow> (ptr \<Rightarrow> ('cb, 'z) reactor_scheme \<Rightarrow> bool)
    \<Rightarrow> ('cb \<Rightarrow> int \<Rightarrow> ('cb, 'z) reactor_scheme \<Rightarrow> ('cb, 'z) reactor_scheme result)
    \<Rightarrow> ('cb \<Rightarrow> ('cb, 'z) reactor_scheme \<Rightarrow> ('cb, 'z) reactor_scheme result)
    \<Rightarrow> ptr \<Rightarrow> ('cb, 'z) reactor_scheme \<Rightarrow> ('cb, 'z) reactor_scheme result" where
  "loop_turn K alive run call l m = bindE (load l (loop_at m)) (\<lambda>el.
     bindE (poll K (el_poller el) kPollTimeMs [] (put_loop l (el\<lparr>activateChannels := []\<rparr>) m))
       (\<lambda>((now, acts), m1). bindE (load l (loop_at m1)) (\<lambda>el1.
     let m2 = put_loop l (el1\<lparr>activateChannels := acts, pollReturnTime := now\<rparr>) m1
     in bindE (foldE (\<lambda>c m'. bindE (load l (loop_at m')) (\<lambda>el'.
                 handleEvent alive run c (pollReturnTime el') m')) acts m2)
          (doPendingFunctors call l))))"

text \<open>\<open>while (!quit_)\<close>: a loop that is never told to quit does not return (\<open>None\<close>).\<close>

partial_function (option) loop_while ::
    "(('cb, 'z) reactor_scheme \<Rightarrow> ('cb, 'z) reactor_scheme result) \<Rightarrow> ptr
    \<Rightarrow> ('cb, 'z) reactor_scheme \<Rightarrow> ('cb, 'z) reactor_scheme result option" where
  "loop_while turn l m = (case load l (loop_at m) of Inl e \<Rightarrow> Some (Inl e)
     | Inr el \<Rightarrow> if el_quit el then Some (Inr m)
       else (case turn m of Inl e \<Rightarrow> Some (Inl e) | Inr m' \<Rightarrow> loop_while turn l m'))"

definition loop_start :: "ptr \<Rightarrow> ('cb, 'z) reactor_scheme \<Rightarrow> ('cb, 'z) reactor_scheme result" where
  "loop_start l m = bindE (load l (loop_at m)) (\<lambda>el.
     Inr (put_loop l (el\<lparr>looping := True, el_quit := False\<rparr>) m))"

definition loop_stop :: "ptr \<Rightarrow> ('cb, 'z) reactor_scheme \<Rightarrow> ('cb, 'z) reactor_scheme result" where
  "loop_stop l m = bindE (load l (loop_at m)) (\<lambda>el. Inr (put_loop l (el\<lparr>looping := False\<rparr>) m))"

definition loop :: "kernel \<Rightarrow> (ptr \<Rightarrow> ('cb, 'z) reactor_scheme \<Rightarrow> bool)
    \<Rightarrow> ('cb \<Rightarrow> int \<Rightarrow> ('cb, 'z) reactor_scheme \<Rightarrow> ('cb, 'z) reactor_scheme result)
    \<Rightarrow> ('cb \<Rightarrow> ('cb, 'z) reactor_scheme \<Rightarrow> ('cb, 'z) reactor_scheme result)
    \<Rightarrow> ptr \<Rightarrow> ('cb, 'z) reactor_scheme \<Rightarrow> ('cb, 'z) reactor_scheme result option" where
  "loop K alive run call l m = (case loop_start l m of Inl e \<Rightarrow> Some (Inl e)
     | Inr m1 \<Rightarrow> map_option (\<lambda>r. bindE r (loop_stop l)) (loop_while (loop_turn K alive run call l) l m1))"

section \<open>Construction and destruction\<close>

definition createEventFd :: "kernel \<Rightarrow> 'z os_scheme \<Rightarrow> (int \<times> 'z os_scheme) result" where
  "createEventFd K m = (let (r, m1) = do_sys K SysEventfd m in
     if sr_rv r < 0 then Inl ExitProcess else Inr (sr_rv r, m1))"

text \<open>
  The constructor. \<open>l\<close>, \<open>p\<close> and \<open>w\<close> are the addresses of the loop, of its poller and of its
  wake-up channel; \<open>hr\<close> is the closure \<open>std::bind(&EventLoop::handleRead, this)\<close>.
\<close>

definition EventLoop :: "bool \<Rightarrow> kernel \<Rightarrow> 'cb \<Rightarrow> ptr \<Rightarrow> ptr \<Rightarrow> ptr \<Rightarrow> ('cb, 'z) reactor_scheme
    \<Rightarrow> ('cb, 'z) reactor_scheme result" where
  "EventLoop use_poll K hr l p w m =
     bindE (newDefaultPoller use_poll K l m) (\<lambda>(po, m1).
     bindE (createEventFd K m1) (\<lambda>(fd, m2).
     let m3 = (case po of None \<Rightarrow> m2 | Some x \<Rightarrow> put_poller p x m2);
         m4 = put_chan w (Channel l fd) m3;
         m5 = put_loop l \<lparr>looping = False, el_quit = False, threadId = cur_tid m, pollReturnTime = 0,
                el_poller = (case po of None \<Rightarrow> 0 | Some x \<Rightarrow> p), weakupFd = fd, weakupChannel = w,
                activateChannels = [], callingPendingFunctors = False, pendingFunctors = []\<rparr> m4
     in if t_loopInThisThread m5 (cur_tid m5) \<noteq> 0 then Inl ExitProcess
        else let m6 = m5\<lparr>t_loopInThisThread := (t_loopInThisThread m5)(cur_tid m5 := l)\<rparr>
        in bindE (setReadCallBack hr w m6) (enableReading K w)))"

text \<open>The destructor, the members \<open>weakupChannel_\<close> and \<open>poller_\<close> with their own destructors.\<close>

definition destroy_EventLoop :: "kernel \<Rightarrow> ptr \<Rightarrow> ('cb, 'z) reactor_scheme
    \<Rightarrow> ('cb, 'z) reactor_scheme result" where
  "destroy_EventLoop K l m = bindE (load l (loop_at m)) (\<lambda>el.
     bindE (disableAll K (weakupChannel el) m) (\<lambda>m1.
     bindE (channel_remove K (weakupChannel el) m1) (\<lambda>m2.
     let m3 = snd (do_sys K (SysClose (weakupFd el)) m2);
         m4 = m3\<lparr>t_loopInThisThread := (t_loopInThisThread m3)(cur_tid m3 := 0)\<rparr>;
         m5 = m4\<lparr>chan_at := (chan_at m4)(weakupChannel el := None)\<rparr>
     in bindE (load (el_poller el) (poller_at m5)) (\<lambda>po.
        let m6 = snd (do_sys K (SysClose (po_epfd po)) m5)
        in Inr (m6\<lparr>poller_at := (poller_at m6)(el_poller el := None),
                   loop_at := (loop_at m6)(l := None)\<rparr>)))))"

text \<open>\<open>CurrentThread::tid()\<close>: the cached id, asked of the kernel once per thread.\<close>

definition cacheTid :: "int \<Rightarrow> int \<Rightarrow> int" where
  "cacheTid gettid t_cachedTid = (if t_cachedTid = 0 then gettid else t_cachedTid)"

definition tid :: "int \<Rightarrow> int \<Rightarrow> int" where
  "tid gettid t_cachedTid = (if t_cachedTid = 0 then cacheTid gettid t_cachedTid else t_cachedTid)"

section \<open>What an operation leaves alone\<close>

lemma put_loop_simps [simp]:
  "chan_at (put_loop l el m) = chan_at m" "trace (put_loop l el m) = trace m"
  "poller_at (put_loop l el m) = poller_at m" "cur_tid (put_loop l el m) = cur_tid m"
  "loop_at (put_loop l el m) = (loop_at m)(l \<mapsto> el)"
  "t_loopInThisThread (put_loop l el m) = t_loopInThisThread m"
  by (simp_all add: put_loop_def)

lemma machine_keeps_loops [simp]:
  "loop_at (put_chan c ch m) = loop_at m" "loop_at (put_poller p po m) = loop_at m"
  "loop_at (log_sys call r m) = loop_at m"
  "cur_tid (put_chan c ch m) = cur_tid m" "cur_tid (put_poller p po m) = cur_tid m"
  "cur_tid (log_sys call r m) = cur_tid m"
  "t_loopInThisThread (put_chan c ch m) = t_loopInThisThread m"
  "t_loopInThisThread (put_poller p po m) = t_loopInThisThread m"
  "t_loopInThisThread (log_sys call r m) = t_loopInThisThread m"
  by (simp_all add: put_chan_def put_poller_def log_sys_def)

lemma put_loop_put_loop [simp]: "put_loop l el (put_loop l el' m) = put_loop l el m"
  by (simp add: put_loop_def)

lemma put_loop_same: "loop_at m l = Some el \<Longrightarrow> put_loop l el m = m"
  by (simp add: put_loop_def fun_upd_idem)

lemma weakup_eq:
  "l \<noteq> 0 \<Longrightarrow> loop_at m l = Some el \<Longrightarrow> weakup K l m
    = Inr (let call = SysWrite (weakupFd el) one_bytes 8 in log_sys call (K (trace m) call) m)"
  by (simp add: weakup_def do_sys_log Let_def)

lemma queueInLoop_eq:
  assumes "l \<noteq> 0" and "loop_at m l = Some el"
  shows "queueInLoop K l f m = Inr
    (let m1 = put_loop l (el\<lparr>pendingFunctors := pendingFunctors el @ [f]\<rparr>) m;
         call = SysWrite (weakupFd el) one_bytes 8
     in if threadId el \<noteq> cur_tid m \<or> callingPendingFunctors el
        then log_sys call (K (trace m) call) m1 else m1)"
  using assms by (simp add: queueInLoop_def isInLoopthread_def Let_def
      weakup_eq [where el = "el\<lparr>pendingFunctors := pendingFunctors el @ [f]\<rparr>"])

section \<open>The queue of functors\<close>

text \<open>
  The contract of a task queue that is drained in rounds: a submitted task goes to the back; a
  round runs what was there when it began, in order, and what those tasks submit is left for the
  next round. \<open>past\<close> are the tasks run so far, \<open>spawns f\<close> the tasks that \<open>f\<close> submits.
\<close>

datatype 'f task_op = Submit 'f | Drain

fun task_spec :: "('f \<Rightarrow> 'f list) \<Rightarrow> 'f task_op \<Rightarrow> 'f list \<times> 'f list \<Rightarrow> 'f list \<times> 'f list" where
  "task_spec spawns (Submit f) (past, todo) = (past, todo @ [f])"
| "task_spec spawns Drain (past, todo) = (past @ todo, concat (map spawns todo))"

fun task_impl :: "('f \<Rightarrow> 'm \<Rightarrow> 'm result) \<Rightarrow> ('m \<Rightarrow> 'm result) \<Rightarrow> 'f task_op \<Rightarrow> 'm \<Rightarrow> 'm result" where
  "task_impl submit drain (Submit f) m = submit f m"
| "task_impl submit drain Drain m = drain m"

fun submitted :: "'f task_op list \<Rightarrow> 'f list" where
  "submitted [] = []"
| "submitted (Submit f # xs) = f # submitted xs"
| "submitted (Drain # xs) = submitted xs"

lemma task_spec_silent:
  assumes "\<And>f. spawns f = []"
  shows "fst (fold (task_spec spawns) xs q) @ snd (fold (task_spec spawns) xs q)
    = fst q @ snd q @ submitted xs"
proof (induction xs arbitrary: q)
  case (Cons x xs)
  have "concat (map spawns t) = []" for t using assms by simp
  then show ?case using Cons [of "task_spec spawns x q"] by (cases x; cases q) (simp_all del: concat_eq_Nil_conv)
qed simp

lemma task_spec_count:
  "\<exists>new. fst (fold (task_spec spawns) xs q) = fst q @ new
    \<and> mset new + mset (snd (fold (task_spec spawns) xs q))
      = mset (snd q) + mset (submitted xs) + mset (concat (map spawns new))"
proof (induction xs arbitrary: q)
  case (Cons x xs)
  obtain r t where q: "q = (r, t)" by (cases q)
  obtain new where new: "fst (fold (task_spec spawns) xs (task_spec spawns x q))
      = fst (task_spec spawns x q) @ new"
    "mset new + mset (snd (fold (task_spec spawns) xs (task_spec spawns x q)))
      = mset (snd (task_spec spawns x q)) + mset (submitted xs) + mset (concat (map spawns new))"
    using Cons [of "task_spec spawns x q"] by blast
  show ?case
  proof (cases x)
    case (Submit f)
    with new q show ?thesis by (intro exI [of _ new]) simp
  next
    case Drain
    with new q show ?thesis by (intro exI [of _ "t @ new"]) (simp add: ac_simps)
  qed
qed simp

locale task_queue =
  fixes submit :: "'f \<Rightarrow> 'm \<Rightarrow> 'm result"
    and drain :: "'m \<Rightarrow> 'm result"
    and inv :: "'m \<Rightarrow> bool"
    and past :: "'m \<Rightarrow> 'f list"
    and todo :: "'m \<Rightarrow> 'f list"
    and spawns :: "'f \<Rightarrow> 'f list"
  assumes submit_law: "inv m \<Longrightarrow>
      \<exists>m'. submit f m = Inr m' \<and> inv m' \<and> past m' = past m \<and> todo m' = todo m @ [f]"
    and drain_law: "inv m \<Longrightarrow>
      \<exists>m'. drain m = Inr m' \<and> inv m' \<and> past m' = past m @ todo m
        \<and> todo m' = concat (map spawns (todo m))"
begin

lemma op_refines:
  "inv m \<Longrightarrow> \<exists>m'. task_impl submit drain x m = Inr m' \<and> inv m'
    \<and> (past m', todo m') = task_spec spawns x (past m, todo m)"
  using submit_law drain_law by (cases x) auto

lemma run_refines:
  "inv m \<Longrightarrow> \<exists>m'. foldE (task_impl submit drain) xs m = Inr m' \<and> inv m'
    \<and> (past m', todo m') = fold (task_spec spawns) xs (past m, todo m)"
proof (induction xs arbitrary: m)
  case (Cons x xs)
  from op_refines [OF Cons.prems, of x] obtain m1 where
    m1: "task_impl submit drain x m = Inr m1" "inv m1"
      "(past m1, todo m1) = task_spec spawns x (past m, todo m)" by blast
  from Cons.IH [OF m1(2)] m1 show ?case by auto
qed simp

lemma every_task_once:
  assumes "inv m"
  shows "\<exists>m' new. foldE (task_impl submit drain) xs m = Inr m' \<and> past m' = past m @ new
    \<and> mset new + mset (todo m') = mset (todo m) + mset (submitted xs) + mset (concat (map spawns new))
    \<and> ((\<forall>f. spawns f = []) \<longrightarrow> new @ todo m' = todo m @ submitted xs)"
proof -
  obtain m' where m': "foldE (task_impl submit drain) xs m = Inr m'"
    "(past m', todo m') = fold (task_spec spawns) xs (past m, todo m)"
    using run_refines [OF assms] by blast
  have q: "past m' = fst (fold (task_spec spawns) xs (past m, todo m))"
    "todo m' = snd (fold (task_spec spawns) xs (past m, todo m))"
    using m'(2) by (metis fst_conv, metis snd_conv)
  obtain new where new: "past m' = past m @ new"
    "mset new + mset (todo m') = mset (todo m) + mset (submitted xs) + mset (concat (map spawns new))"
    using task_spec_count [of spawns xs "(past m, todo m)"] by (auto simp: q)
  have "new @ todo m' = todo m @ submitted xs" if "\<forall>f. spawns f = []"
    using task_spec_silent [of spawns xs "(past m, todo m)"] that new(1) by (simp add: q [symmetric])
  with m'(1) new show ?thesis by blast
qed

end

text \<open>
  Functors that return, leave the loop where it is and queue \<open>spawns f\<close>; \<open>past\<close> is any record
  of the functors run that writing to the wake-up descriptor and the loop's own fields do not
  change.
\<close>

definition functors_conform :: "('cb \<Rightarrow> ('cb, 'z) reactor_scheme \<Rightarrow> ('cb, 'z) reactor_scheme result)
    \<Rightarrow> ptr \<Rightarrow> (('cb, 'z) reactor_scheme \<Rightarrow> 'cb list) \<Rightarrow> ('cb \<Rightarrow> 'cb list) \<Rightarrow> bool" where
  "functors_conform call l past spawns \<longleftrightarrow>
     (\<forall>f m el. loop_at m l = Some el \<longrightarrow> (\<exists>m' el'. call f m = Inr m' \<and> loop_at m' l = Some el'
        \<and> pendingFunctors el' = pendingFunctors el @ spawns f \<and> past m' = past m @ [f]))
   \<and> (\<forall>m el. past (put_loop l el m) = past m)
   \<and> (\<forall>m fd d n r. past (log_sys (SysWrite fd d n) r m) = past m)"

definition pending_of :: "ptr \<Rightarrow> ('cb, 'z) reactor_scheme \<Rightarrow> 'cb list" where
  "pending_of l m = (case loop_at m l of None \<Rightarrow> [] | Some el \<Rightarrow> pendingFunctors el)"

lemma foldE_functors:
  assumes "functors_conform call l past spawns" and "loop_at m l = Some el"
  shows "\<exists>m' el'. foldE call fs m = Inr m' \<and> loop_at m' l = Some el'
    \<and> pendingFunctors el' = pendingFunctors el @ concat (map spawns fs) \<and> past m' = past m @ fs"
  using assms(2)
proof (induction fs arbitrary: m el)
  case (Cons f fs)
  from assms(1) Cons.prems obtain m1 el1 where m1: "call f m = Inr m1" "loop_at m1 l = Some el1"
    "pendingFunctors el1 = pendingFunctors el @ spawns f" "past m1 = past m @ [f]"
    unfolding functors_conform_def by blast
  from Cons.IH [OF m1(2)] m1 show ?case by auto
qed simp

lemma doPendingFunctors_round:
  assumes ok: "functors_conform call l past spawns" and l: "l \<noteq> 0" "loop_at m l = Some el"
  shows "\<exists>m' el'. doPendingFunctors call l m = Inr m' \<and> loop_at m' l = Some el'
    \<and> pendingFunctors el' = concat (map spawns (pendingFunctors el))
    \<and> past m' = past m @ pendingFunctors el \<and> \<not> callingPendingFunctors el'"
proof -
  let ?el = "el\<lparr>callingPendingFunctors := True, pendingFunctors := []\<rparr>"
  have put: "past (put_loop l x y) = past y" for x y using ok by (simp add: functors_conform_def)
  have "loop_at (put_loop l ?el m) l = Some ?el" by simp
  from foldE_functors [OF ok this, of "pendingFunctors el"] obtain m2 el2 where
    m2: "foldE call (pendingFunctors el) (put_loop l ?el m) = Inr m2" "loop_at m2 l = Some el2"
      "pendingFunctors el2 = concat (map spawns (pendingFunctors el))"
      "past m2 = past m @ pendingFunctors el" by (auto simp: put)
  have "doPendingFunctors call l m = Inr (put_loop l (el2\<lparr>callingPendingFunctors := False\<rparr>) m2)"
    using l m2 by (simp add: doPendingFunctors_def Let_def)
  with m2 show ?thesis by (simp add: put)
qed

interpretation loopq: task_queue "queueInLoop K l" "doPendingFunctors call l"
  "\<lambda>m. l \<noteq> 0 \<and> functors_conform call l past spawns \<and> loop_at m l \<noteq> None" past "pending_of l" spawns
  for K l call past spawns
proof unfold_locales
  fix m :: "('a, 'b) reactor_scheme" and f :: 'a
  assume "l \<noteq> 0 \<and> functors_conform call l past spawns \<and> loop_at m l \<noteq> None"
  then obtain el where l: "l \<noteq> 0" "loop_at m l = Some el" and ok: "functors_conform call l past spawns"
    by auto
  from ok have keep: "past (put_loop l x y) = past y" "past (log_sys (SysWrite fd d n) r y) = past y"
    for x y fd d n r by (simp_all add: functors_conform_def)
  show "\<exists>m'. queueInLoop K l f m = Inr m'
      \<and> (l \<noteq> 0 \<and> functors_conform call l past spawns \<and> loop_at m' l \<noteq> None)
      \<and> past m' = past m \<and> pending_of l m' = pending_of l m @ [f]"
    using l ok by (simp add: queueInLoop_eq [OF l] Let_def keep pending_of_def)
  show "\<exists>m'. doPendingFunctors call l m = Inr m'
      \<and> (l \<noteq> 0 \<and> functors_conform call l past spawns \<and> loop_at m' l \<noteq> None)
      \<and> past m' = past m @ pending_of l m \<and> pending_of l m' = concat (map spawns (pending_of l m))"
    using doPendingFunctors_round [OF ok l] l ok by (auto simp: pending_of_def)
qed

section \<open>Properties\<close>

text \<open>C6: Queueing and draining: whatever the interleaving of \<open>queueInLoop\<close> and
  \<open>doPendingFunctors\<close>, every functor runs exactly once. The functors run and those still queued
  are together, as multisets, the ones queued at first, the ones submitted and the ones queued by
  the functors that ran; and when no functor queues another, they run in the order of
  submission.\<close>

theorem functors_run_once:
  assumes "l \<noteq> 0" and "loop_at m l \<noteq> None" and "functors_conform call l past spawns"
  shows "\<exists>m' new. foldE (task_impl (queueInLoop K l) (doPendingFunctors call l)) xs m = Inr m'
    \<and> past m' = past m @ new
    \<and> mset new + mset (pending_of l m')
      = mset (pending_of l m) + mset (submitted xs) + mset (concat (map spawns new))
    \<and> ((\<forall>f. spawns f = []) \<longrightarrow> new @ pending_of l m' = pending_of l m @ submitted xs)"
  using loopq.every_task_once [of l call past spawns m K xs] assms by blast

text \<open>An example: functor \<open>n\<close> records itself with a \<open>close\<close> of descriptor \<open>n\<close> and queues \<open>n - 1\<close>
  when \<open>n\<close> is positive.\<close>

definition small_loop :: "int eventloop" where
  "small_loop = \<lparr>looping = False, el_quit = False, threadId = 100, pollReturnTime = 0, el_poller = 2,
     weakupFd = 4, weakupChannel = 7, activateChannels = [], callingPendingFunctors = False,
     pendingFunctors = []\<rparr>"

definition small_reactor :: "int reactor" where
  "small_reactor = \<lparr>trace = [], chan_at = [7 \<mapsto> Channel 1 4], poller_at = [2 \<mapsto> small_poller],
     loop_at = [1 \<mapsto> small_loop], cur_tid = 100, t_loopInThisThread = (\<lambda>_. 0)(100 := 1)\<rparr>"

definition countdown :: "int \<Rightarrow> int reactor \<Rightarrow> int reactor result" where
  "countdown n m = (let m1 = snd (do_sys quiet_kernel (SysClose n) m)
     in if 0 < n then queueInLoop quiet_kernel 1 (n - 1) m1 else Inr m1)"

fun closed_by :: "syscall \<times> sysret \<Rightarrow> int list" where
  "closed_by (SysClose n, r) = [n]"
| "closed_by (_, r) = []"

definition closed :: "int reactor \<Rightarrow> int list" where
  "closed m = concat (map closed_by (trace m))"

lemma countdown_conforms:
  "functors_conform countdown 1 closed (\<lambda>n. if 0 < n then [n - 1] else [])"
  unfolding functors_conform_def
proof (intro conjI allI impI)
  fix f and m :: "int reactor" and el
  assume el: "loop_at m 1 = Some el"
  let ?m = "log_sys (SysClose f) (quiet_kernel (trace m) (SysClose f)) m"
  have "loop_at ?m 1 = Some el" using el by simp
  from queueInLoop_eq [OF _ this]
  show "\<exists>m' el'. countdown f m = Inr m' \<and> loop_at m' 1 = Some el'
      \<and> pendingFunctors el' = pendingFunctors el @ (if 0 < f then [f - 1] else [])
      \<and> closed m' = closed m @ [f]"
    using el by (simp add: countdown_def do_sys_log Let_def closed_def)
qed (simp_all add: closed_def)

theorem functors_run_once_witness:
  "\<exists>m' new. foldE (task_impl (queueInLoop quiet_kernel 1) (doPendingFunctors countdown 1))
      [Submit 2, Drain, Submit 0] small_reactor = Inr m'
    \<and> closed m' = [] @ new \<and> mset new + mset (pending_of 1 m')
      = mset [2, 0] + mset (concat (map (\<lambda>n. if 0 < n then [n - 1] else []) new))"
proof -
  have "loop_at small_reactor 1 \<noteq> None" by (simp add: small_reactor_def)
  from functors_run_once [OF _ this countdown_conforms, of quiet_kernel "[Submit 2, Drain, Submit 0]"]
  show ?thesis
    by (auto simp: closed_def small_reactor_def pending_of_def small_loop_def)
qed

section \<open>When the loop returns\<close>

definition running :: "ptr \<Rightarrow> ('cb, 'z) reactor_scheme \<Rightarrow> bool" where
  "running l m \<longleftrightarrow> l \<noteq> 0 \<and> (case loop_at m l of None \<Rightarrow> False | Some el \<Rightarrow> \<not> el_quit el)"

definition turns :: "('m \<Rightarrow> 'm result) \<Rightarrow> nat \<Rightarrow> 'm \<Rightarrow> 'm result" where
  "turns turn n m = foldE (\<lambda>_. turn) (replicate n ()) m"

lemma turns_simps [simp]:
  "turns turn 0 m = Inr m"
  "turns turn (Suc n) m = bindE (turn m) (turns turn n)"
  by (simp_all add: turns_def [abs_def])

lemma loop_while_unfold:
  assumes "l \<noteq> 0" and "loop_at m l = Some el"
  shows "loop_while turn l m = (if el_quit el then Some (Inr m)
    else (case turn m of Inl e \<Rightarrow> Some (Inl e) | Inr m' \<Rightarrow> loop_while turn l m'))"
  using assms by (subst loop_while.simps) simp

lemma loop_while_stops:
  assumes "l \<noteq> 0" and "\<And>k s. k < n \<Longrightarrow> turns turn k m = Inr s \<Longrightarrow> running l s"
    and "turns turn n m = Inr s" and "loop_at s l = Some el" and "el_quit el"
  shows "loop_while turn l m = Some (Inr s)"
  using assms(2,3)
proof (induction n arbitrary: m)
  case 0
  then show ?case using assms(1,4,5) by (simp add: loop_while_unfold)
next
  case (Suc n)
  from Suc.prems(2) obtain m1 where m1: "turn m = Inr m1" "turns turn n m1 = Inr s"
    by (auto simp: halts)
  have "running l m" using Suc.prems(1) [of 0] by simp
  then obtain el0 where "loop_at m l = Some el0" "\<not> el_quit el0"
    by (auto simp: running_def split: option.splits)
  moreover have "loop_while turn l m1 = Some (Inr s)"
    using Suc.IH [OF _ m1(2)] Suc.prems(1) [of "Suc k" for k] m1(1) by auto
  ultimately show ?case using assms(1) m1(1) by (simp add: loop_while_unfold)
qed

lemma loop_while_halts:
  assumes "l \<noteq> 0" and "\<And>k s. k < n \<Longrightarrow> turns turn k m = Inr s \<Longrightarrow> running l s"
    and "turns turn n m = Inl e"
  shows "loop_while turn l m = Some (Inl e)"
  using assms(2,3)
proof (induction n arbitrary: m)
  case (Suc n)
  have "running l m" using Suc.prems(1) [of 0] by simp
  then obtain el0 where el0: "loop_at m l = Some el0" "\<not> el_quit el0"
    by (auto simp: running_def split: option.splits)
  show ?case
  proof (cases "turn m")
    case (Inl x)
    with Suc.prems(2) el0 assms(1) show ?thesis by (simp add: loop_while_unfold)
  next
    case (Inr m1)
    with Suc.prems(2) have "turns turn n m1 = Inl e" by simp
    from Suc.IH [OF _ this] Suc.prems(1) [of "Suc k" for k] Inr
    have "loop_while turn l m1 = Some (Inl e)" by auto
    with Inr el0 assms(1) show ?thesis by (simp add: loop_while_unfold)
  qed
qed simp

lemma loop_while_result:
  assumes "loop_while turn l m = Some r"
  shows "\<exists>n. \<not> (\<exists>s. turns turn n m = Inr s \<and> running l s)"
proof (rule loop_while.raw_induct [OF _ assms])
  fix lw :: "(('a, 'b) reactor_scheme \<Rightarrow> ('a, 'b) reactor_scheme result) \<Rightarrow> ptr
      \<Rightarrow> ('a, 'b) reactor_scheme \<Rightarrow> ('a, 'b) reactor_scheme result option" and turn l m r
  assume IH: "\<And>turn l m r. lw turn l m = Some r
      \<Longrightarrow> \<exists>n. \<not> (\<exists>s. turns turn n m = Inr s \<and> running l s)"
    and eq: "(case load l (loop_at m) of Inl e \<Rightarrow> Some (Inl e)
      | Inr el \<Rightarrow> if el_quit el then Some (Inr m)
        else (case turn m of Inl e \<Rightarrow> Some (Inl e) | Inr m' \<Rightarrow> lw turn l m')) = Some r"
  show "\<exists>n. \<not> (\<exists>s. turns turn n m = Inr s \<and> running l s)"
  proof (cases "running l m")
    case False
    then have "\<not> (\<exists>s. turns turn 0 m = Inr s \<and> running l s)" by simp
    then show ?thesis by blast
  next
    case True
    then obtain el where el: "load l (loop_at m) = Inr el" "\<not> el_quit el"
      by (auto simp: running_def split: option.splits)
    show ?thesis
    proof (cases "turn m")
      case (Inl e)
      then have "\<not> (\<exists>s. turns turn (Suc 0) m = Inr s \<and> running l s)" by simp
      then show ?thesis by blast
    next
      case (Inr m1)
      with eq el have "lw turn l m1 = Some r" by simp
      from IH [OF this] obtain n where "\<not> (\<exists>s. turns turn n m1 = Inr s \<and> running l s)" by blast
      with Inr have "\<not> (\<exists>s. turns turn (Suc n) m = Inr s \<and> running l s)" by simp
      then show ?thesis by blast
    qed
  qed
qed

lemma loop_while_gone:
  assumes "\<And>k s. k < n \<Longrightarrow> turns turn k m = Inr s \<Longrightarrow> running l s"
    and "turns turn n m = Inr s" and "l \<noteq> 0" and "loop_at s l = None"
  shows "loop_while turn l m = Some (Inl DanglingPointer)"
  using assms(1,2)
proof (induction n arbitrary: m)
  case 0
  then show ?case using assms(3,4) by (subst loop_while.simps) (simp add: load_def)
next
  case (Suc n)
  from Suc.prems(2) obtain m1 where m1: "turn m = Inr m1" "turns turn n m1 = Inr s"
    by (auto simp: halts)
  have "running l m" using Suc.prems(1) [of 0] by simp
  then obtain el0 where "loop_at m l = Some el0" "\<not> el_quit el0"
    by (auto simp: running_def split: option.splits)
  moreover have "loop_while turn l m1 = Some (Inl DanglingPointer)"
    using Suc.IH [OF _ m1(2)] Suc.prems(1) [of "Suc k" for k] m1(1) by auto
  ultimately show ?case using assms(3) m1(1) by (simp add: loop_while_unfold)
qed

lemma loop_while_returns:
  assumes "l \<noteq> 0" and "\<not> (\<exists>s. turns turn n m = Inr s \<and> running l s)"
  shows "\<exists>r. loop_while turn l m = Some r"
proof -
  define k where "k = (LEAST n. \<not> (\<exists>s. turns turn n m = Inr s \<and> running l s))"
  have k: "\<not> (\<exists>s. turns turn k m = Inr s \<and> running l s)"
    unfolding k_def using assms(2) by (rule LeastI)
  have before: "running l s" if "i < k" "turns turn i m = Inr s" for i s
    using not_less_Least [OF that(1) [unfolded k_def]] that(2) by auto
  show ?thesis
  proof (cases "turns turn k m")
    case (Inl e)
    with loop_while_halts [of l k turn m e] assms(1) before show ?thesis by blast
  next
    case (Inr s)
    show ?thesis
    proof (cases "loop_at s l")
      case None
        with loop_while_gone [of k turn m l s] Inr assms(1) before show ?thesis by blast
    next
      case (Some el)
      with k Inr assms(1) have "el_quit el" by (simp add: running_def)
      with loop_while_stops [of l k turn m s el] Inr Some assms(1) before show ?thesis by blast
    qed
  qed
qed

lemma loop_start_eq:
  "l \<noteq> 0 \<Longrightarrow> loop_at m l = Some el \<Longrightarrow>
    loop_start l m = Inr (put_loop l (el\<lparr>looping := True, el_quit := False\<rparr>) m)"
  by (simp add: loop_start_def)

lemma turns_Suc_end: "turns turn (Suc n) m = bindE (turns turn n m) turn"
proof -
  have "replicate (Suc n) () = replicate n () @ [()]" by (simp add: replicate_append_same)
  moreover have "foldE (\<lambda>_. turn) [()] = turn" by (rule ext) simp
  ultimately show ?thesis by (simp add: turns_def del: replicate_Suc foldE.simps)
qed


text \<open>C22: A turn in which \<open>quit_\<close> is set is completed. Let \<open>n\<close> turns have left the loop running, and
  let the next one wait (\<open>s1\<close>), handle all active channels in order (\<open>s2\<close>) and call all functors that
  are then queued (\<open>s3\<close>). If \<open>quit_\<close> is set at the end, be it by the first handler, a later one or a
  functor, \<open>loop()\<close> returns: all handlers and all functors have been called, and then \<open>looping_\<close> is
  cleared.\<close>

theorem loop_stops_at_quit:
  assumes "l \<noteq> 0" and "loop_at m l = Some el0"
    and "m0 = put_loop l (el0\<lparr>looping := True, el_quit := False\<rparr>) m"
    and "\<And>k s. k \<le> n \<Longrightarrow> turns (loop_turn K alive run call l) k m0 = Inr s \<Longrightarrow> running l s"
    and "turns (loop_turn K alive run call l) n m0 = Inr s" and "loop_at s l = Some el"
    and "poll K (el_poller el) kPollTimeMs [] (put_loop l (el\<lparr>activateChannels := []\<rparr>) s) = Inr ((now, ws), s1)"
    and "loop_at s1 l = Some el1"
    and "foldE (\<lambda>w x. bindE (load l (loop_at x)) (\<lambda>elx. handleEvent alive run w (pollReturnTime elx) x)) ws
      (put_loop l (el1\<lparr>activateChannels := ws, pollReturnTime := now\<rparr>) s1) = Inr s2"
    and "loop_at s2 l = Some el2"
    and "foldE call (pendingFunctors el2) (put_loop l (el2\<lparr>callingPendingFunctors := True, pendingFunctors := []\<rparr>) s2) = Inr s3"
    and "loop_at s3 l = Some el3" and "el_quit el3"
  shows "loop K alive run call l m
    = Some (Inr (put_loop l (el3\<lparr>callingPendingFunctors := False, looping := False\<rparr>) s3))"
proof -
  let ?t = "loop_turn K alive run call l"
  let ?el = "el3\<lparr>callingPendingFunctors := False\<rparr>"
  have "?t s = Inr (put_loop l ?el s3)"
    using assms(1,6-12) by (simp add: loop_turn_def doPendingFunctors_def Let_def)
  then have "turns ?t (Suc n) m0 = Inr (put_loop l ?el s3)"
    using assms(5) turns_Suc_end [of ?t n m0] by simp
  from loop_while_stops [OF assms(1) _ this, of ?el] assms(4,13)
  have "loop_while ?t l m0 = Some (Inr (put_loop l ?el s3))" by (simp add: less_Suc_eq_le)
  then show ?thesis
    using assms(1) by (simp add: loop_def loop_start_eq [OF assms(1,2)] assms(3) [symmetric] loop_stop_def)
qed

text \<open>A \<open>quit()\<close> made before \<open>loop()\<close> is lost: \<open>loop()\<close> clears \<open>quit_\<close> first, so it does
  exactly what it does without that call.\<close>

theorem quit_before_loop_lost:
  assumes "l \<noteq> 0" and "loop_at m l = Some el" and "threadId el = cur_tid m"
  shows "\<exists>m1. quit K l m = Inr m1 \<and> running l m1 = False
    \<and> loop K alive run call l m1 = loop K alive run call l m"
proof -
  let ?m1 = "put_loop l (el\<lparr>el_quit := True\<rparr>) m"
  have "quit K l m = Inr ?m1" using assms by (simp add: quit_def isInLoopthread_def Let_def)
  moreover have "loop_start l ?m1 = loop_start l m" using assms by (simp add: loop_start_eq)
  ultimately show ?thesis by (simp add: loop_def running_def)
qed

definition busy_reactor :: "int reactor" where
  "busy_reactor = small_reactor\<lparr>loop_at := [1 \<mapsto> small_loop\<lparr>pendingFunctors := [9]\<rparr>]\<rparr>"

definition quit_call :: "int \<Rightarrow> int reactor \<Rightarrow> int reactor result" where
  "quit_call f m = quit quiet_kernel 1 m"

definition no_callback :: "int \<Rightarrow> int \<Rightarrow> int reactor \<Rightarrow> int reactor result" where
  "no_callback cb t m = Inr m"

lemma busy_turn:
  "\<exists>s el'. turns (loop_turn quiet_kernel (\<lambda>_ _. True) no_callback quit_call 1) 1
      (put_loop 1 (small_loop\<lparr>pendingFunctors := [9], looping := True, el_quit := False\<rparr>) busy_reactor)
     = Inr s \<and> loop_at s 1 = Some el' \<and> el_quit el' \<and> pendingFunctors el' = []"
  by (simp add: loop_turn_def poll_def do_sys_def busy_reactor_def small_reactor_def small_loop_def
      small_poller_def quiet_kernel_def zero_ret_def doPendingFunctors_def quit_call_def quit_def
      isInLoopthread_def put_loop_def put_poller_def Let_def)


text \<open>An example: the handler of the active channel quits the loop; functor 9 is queued.\<close>

definition handler_quits :: "int \<Rightarrow> int \<Rightarrow> int reactor \<Rightarrow> int reactor result" where
  "handler_quits cb t m = quit quiet_kernel 1 m"

definition close_call :: "int \<Rightarrow> int reactor \<Rightarrow> int reactor result" where
  "close_call f m = Inr (log_sys (SysClose f) zero_ret m)"

definition handler_reactor :: "int reactor" where
  "handler_reactor = busy_reactor\<lparr>chan_at := [7 \<mapsto> (Channel 1 4)\<lparr>readCallBack := Some 5\<rparr>],
     poller_at := [2 \<mapsto> small_poller\<lparr>po_events := [null_event]\<rparr>]\<rparr>"

lemma handler_turn:
  defines "s \<equiv> put_loop 1 (small_loop\<lparr>pendingFunctors := [9], looping := True, el_quit := False\<rparr>) handler_reactor"
  shows "\<exists>now ws s1 el1 s2 el2 s3 el3.
      poll one_event_kernel 2 kPollTimeMs [] (put_loop 1 (small_loop\<lparr>pendingFunctors := [9], looping := True, el_quit := False\<rparr>) s)
        = Inr ((now, ws), s1)
    \<and> loop_at s1 1 = Some el1
    \<and> foldE (\<lambda>w x. bindE (load 1 (loop_at x)) (\<lambda>elx. handleEvent (\<lambda>_ _. True) handler_quits w (pollReturnTime elx) x)) ws
        (put_loop 1 (el1\<lparr>activateChannels := ws, pollReturnTime := now\<rparr>) s1) = Inr s2
    \<and> loop_at s2 1 = Some el2 \<and> el_quit el2
    \<and> foldE close_call (pendingFunctors el2) (put_loop 1 (el2\<lparr>callingPendingFunctors := True, pendingFunctors := []\<rparr>) s2) = Inr s3
    \<and> loop_at s3 1 = Some el3 \<and> el_quit el3 \<and> last (trace s3) = (SysClose 9, zero_ret)"
  by (simp add: s_def poll_def do_sys_def handler_reactor_def busy_reactor_def small_reactor_def small_loop_def small_poller_def
      one_event_kernel_def quiet_kernel_def zero_ret_def fillActivateChannels_def fill_one_def set_revents_def handleEvent_def
      handleEventWithGuard_def dispatch_def hung_up_def event_masks handler_quits_def close_call_def quit_def
      isInLoopthread_def put_loop_def put_poller_def put_chan_def log_sys_def Channel_def overwrite_def Let_def)

theorem loop_stops_at_quit_witness:
  "\<exists>s el. loop one_event_kernel (\<lambda>_ _. True) handler_quits close_call 1 handler_reactor
      = Some (Inr (put_loop 1 el s)) \<and> \<not> looping el \<and> last (trace s) = (SysClose 9, zero_ret)"
proof -
  let ?el = "small_loop\<lparr>pendingFunctors := [9], looping := True, el_quit := False\<rparr>"
  let ?s = "put_loop 1 ?el handler_reactor"
  obtain now ws s1 el1 s2 el2 s3 el3 where t:
    "poll one_event_kernel 2 kPollTimeMs [] (put_loop 1 ?el ?s) = Inr ((now, ws), s1)" "loop_at s1 1 = Some el1"
    "foldE (\<lambda>w x. bindE (load 1 (loop_at x)) (\<lambda>elx. handleEvent (\<lambda>_ _. True) handler_quits w (pollReturnTime elx) x)) ws
        (put_loop 1 (el1\<lparr>activateChannels := ws, pollReturnTime := now\<rparr>) s1) = Inr s2"
    "loop_at s2 1 = Some el2"
    "foldE close_call (pendingFunctors el2) (put_loop 1 (el2\<lparr>callingPendingFunctors := True, pendingFunctors := []\<rparr>) s2) = Inr s3"
    "loop_at s3 1 = Some el3" "el_quit el3" "last (trace s3) = (SysClose 9, zero_ret)"
    using handler_turn by blast
  have "loop one_event_kernel (\<lambda>_ _. True) handler_quits close_call 1 handler_reactor
      = Some (Inr (put_loop 1 (el3\<lparr>callingPendingFunctors := False, looping := False\<rparr>) s3))"
    by (rule loop_stops_at_quit [where n = 0 and s = ?s and el = ?el and ?el0.0 = "small_loop\<lparr>pendingFunctors := [9]\<rparr>" and ?m0.0 = ?s])
      (use t in \<open>auto simp: handler_reactor_def busy_reactor_def running_def small_loop_def\<close>)
  with t(8) show ?thesis by (intro exI [of _ s3] exI [of _ "el3\<lparr>callingPendingFunctors := False, looping := False\<rparr>"]) simp
qed

theorem quit_before_loop_lost_witness:
  "\<exists>m1. quit quiet_kernel 1 small_reactor = Inr m1 \<and> running 1 m1 = False
    \<and> loop quiet_kernel (\<lambda>_ _. True) no_callback countdown 1 m1
      = loop quiet_kernel (\<lambda>_ _. True) no_callback countdown 1 small_reactor"
  by (rule quit_before_loop_lost [where el = small_loop])
    (simp_all add: small_reactor_def small_loop_def)

section \<open>Watching through the loop\<close>

lemma watch_shape:
  assumes K: "ctl_documented K" and "poller_inv p m" and "usable p c m" and "chan_at m c = Some ch"
  shows "\<exists>po po' opn ev r i. watch K p e c m
      = Inr (log_sys (SysEpollCtl (po_epfd po) opn (ch_fd ch) ev) r
          (put_chan c (ch\<lparr>ch_events := e, ch_index := i\<rparr>) (put_poller p po' m)))
    \<and> poller_at m p = Some po \<and> po_epfd po' = po_epfd po \<and> po_owner po' = po_owner po
    \<and> po_events po' = po_events po"
  using assms(2,3)
proof (rule usable_obtain)
  fix po ch0
  assume a: "p \<noteq> 0" "c \<noteq> 0" "poller_at m p = Some po" "chan_at m c = Some ch0"
    "ch_loop ch0 = po_owner po" "registry_ok po (chan_at m) (trace m)"
    and free: "free_for po (ch_fd ch0) c"
  from a(4) assms(4) have "ch0 = ch" by simp
  then show ?thesis using watch_step [OF K a(1,3,6,4,5) free, of e] a(3)
    by (intro exI [of _ po] exI [of _ "po\<lparr>po_channels := (po_channels po)(ch_fd ch0 \<mapsto> c)\<rparr>"]) auto
qed

lemma remove_shape:
  assumes K: "ctl_documented K" and "poller_inv p m" and "usable p c m" and "chan_at m c = Some ch"
  shows "\<exists>m' po po' call r x. removeChannel K p c m = Inr m'
    \<and> m' = (if ch_index ch = kAdd then log_sys call r x else x)
    \<and> x = put_chan c (ch\<lparr>ch_index := kNew\<rparr>) (put_poller p po' m)
    \<and> poller_at m p = Some po \<and> po_epfd po' = po_epfd po \<and> po_owner po' = po_owner po
    \<and> interest (po_epfd po) (trace m') (ch_fd ch) = None \<and> history_conforms (trace m')"
  using assms(2,3)
proof (rule usable_obtain)
  fix po ch0
  assume a: "p \<noteq> 0" "c \<noteq> 0" "poller_at m p = Some po" "chan_at m c = Some ch0"
    "ch_loop ch0 = po_owner po" "registry_ok po (chan_at m) (trace m)"
    and free: "free_for po (ch_fd ch0) c"
  from a(4) assms(4) have ch0: "ch0 = ch" by simp
  let ?po = "po\<lparr>po_channels := (po_channels po)(ch_fd ch := None)\<rparr>"
  let ?call = "SysEpollCtl (po_epfd po) EPOLL_CTL_DEL (ch_fd ch) \<lparr>ev_events = ch_events ch, ev_ptr = c\<rparr>"
  let ?x = "put_chan c (ch\<lparr>ch_index := kNew\<rparr>) (put_poller p ?po m)"
  let ?m = "if ch_index ch = kAdd then log_sys ?call (K (trace m) ?call) ?x else ?x"
  note step = remove_step [OF K a(1,3,6,4,5) free, unfolded ch0]
  have "registry_ok ?po ((chan_at m)(c \<mapsto> ch\<lparr>ch_index := kNew\<rparr>)) (trace ?m)"
    using step(2) by (simp split: if_splits)
  then have "interest (po_epfd po) (trace ?m) (ch_fd ch) = None" "history_conforms (trace ?m)"
    by (simp_all add: registry_ok_def expected_def)
  with step(1) a(3) show ?thesis
    by (intro exI [of _ ?m] exI [of _ po] exI [of _ ?po] exI [of _ ?call] exI [of _ "K (trace m) ?call"]
        exI [of _ ?x]) (simp del: machine_order)
qed

lemma change_events_watch:
  assumes "c \<noteq> 0" and "chan_at m c = Some ch" and "ch_loop ch \<noteq> 0"
    and "loop_at m (ch_loop ch) = Some el" and "el_poller el = p"
  shows "change_events f K c m = watch K p (f (ch_events ch)) c m"
  using assms by (simp add: change_events_def channel_update_def loop_updateChannel_def watch_def)

section \<open>Construction and destruction, verified\<close>

lemma machine_keeps_threads [simp]:
  "chan_at (m\<lparr>t_loopInThisThread := x\<rparr>) = chan_at m" "poller_at (m\<lparr>t_loopInThisThread := x\<rparr>) = poller_at m"
  "trace (m\<lparr>t_loopInThisThread := x\<rparr>) = trace m"
  by simp_all

text \<open>The constructor up to \<open>enableReading()\<close>.\<close>

definition fresh_poller :: "ptr \<Rightarrow> int \<Rightarrow> poller" where
  "fresh_poller l ep = \<lparr>po_owner = l, po_channels = Map.empty,
     po_events = replicate kInitEventsListSize null_event, po_epfd = ep\<rparr>"

lemma fresh_poller_ok:
  assumes "\<And>c ch. h c = Some ch \<Longrightarrow> ch_loop ch = l \<Longrightarrow> c = w" and "w \<noteq> 0"
    and "interest ep tr = Map.empty" and "history_conforms tr"
  shows "registry_ok (fresh_poller l ep) (h(w \<mapsto> (Channel l fd)\<lparr>readCallBack := cb\<rparr>)) tr"
  using assms
  by (auto simp: registry_ok_def channels_ok_def fresh_poller_def Channel_def kNew_def kAdd_def
      kDelete_def expected_def fun_eq_iff)

definition new_loop :: "int \<Rightarrow> ptr \<Rightarrow> ptr \<Rightarrow> int \<Rightarrow> 'cb eventloop" where
  "new_loop t p w fd = \<lparr>looping = False, el_quit = False, threadId = t, pollReturnTime = 0,
     el_poller = p, weakupFd = fd, weakupChannel = w, activateChannels = [],
     callingPendingFunctors = False, pendingFunctors = []\<rparr>"

lemma EventLoop_enables:
  fixes m :: "('a, 'b) reactor_scheme"
  assumes nz: "l \<noteq> 0" "p \<noteq> 0" "w \<noteq> 0"
    and rc: "rc = K (trace m) SysEpollCreate" "0 \<le> sr_rv rc"
    and rw: "rw = K (trace m @ [(SysEpollCreate, rc)]) SysEventfd" "0 \<le> sr_rv rw"
    and thread: "t_loopInThisThread m (cur_tid m) = 0"
  shows "\<exists>m3. EventLoop False K hr l p w m = enableReading K w m3
    \<and> chan_at m3 = (chan_at m)(w \<mapsto> (Channel l (sr_rv rw))\<lparr>readCallBack := Some hr\<rparr>)
    \<and> poller_at m3 = (poller_at m)(p \<mapsto> fresh_poller l (sr_rv rc))
    \<and> loop_at m3 = (loop_at m)(l \<mapsto> new_loop (cur_tid m) p w (sr_rv rw))
    \<and> cur_tid m3 = cur_tid m \<and> t_loopInThisThread m3 = (t_loopInThisThread m)(cur_tid m := l)
    \<and> trace m3 = trace m @ [(SysEpollCreate, rc), (SysEventfd, rw)]"
proof -
  define po where "po = fresh_poller l (sr_rv rc)"
  define ch where "ch = (Channel l (sr_rv rw))\<lparr>readCallBack := Some hr\<rparr>"
  define el :: "'a eventloop" where "el = new_loop (cur_tid m) p w (sr_rv rw)"
  define m1 where "m1 = log_sys SysEventfd rw (log_sys SysEpollCreate rc m)"
  define m2 where "m2 = (put_loop l el (put_poller p po m1))\<lparr>t_loopInThisThread :=
    (t_loopInThisThread m)(cur_tid m := l)\<rparr>"
  define m3 where "m3 = put_chan w ch m2"
  have "EventLoop False K hr l p w m = enableReading K w m3"
    using rc rw nz thread
    by (simp add: EventLoop_def newDefaultPoller_def EpollPoller_def createEventFd_def do_sys_log
        Let_def setReadCallBack_def m3_def m2_def m1_def el_def po_def ch_def fresh_poller_def
        new_loop_def put_chan_def put_loop_def put_poller_def log_sys_def)
  moreover have "chan_at m3 = (chan_at m)(w \<mapsto> ch)" "poller_at m3 = (poller_at m)(p \<mapsto> po)"
    "loop_at m3 = (loop_at m)(l \<mapsto> el)"
    "cur_tid m3 = cur_tid m" "t_loopInThisThread m3 = (t_loopInThisThread m)(cur_tid m := l)"
    "trace m3 = trace m @ [(SysEpollCreate, rc), (SysEventfd, rw)]"
    by (simp_all add: m3_def m2_def m1_def log_sys_def)
  ultimately show ?thesis by (auto simp: po_def ch_def el_def)
qed

text \<open>C30: The constructor, in a thread without a loop and with an epoll instance that is new to
  the history: nothing stops it, the poller's invariant holds, the wake-up channel is registered
  and watched for \<open>kReadEvent\<close>, and the loop belongs to the thread that ran the constructor.\<close>

theorem EventLoop_sets_up:
  fixes m :: "('a, 'b) reactor_scheme"
  assumes K: "ctl_documented K" and nz: "l \<noteq> 0" "p \<noteq> 0" "w \<noteq> 0"
    and rc: "rc = K (trace m) SysEpollCreate" "0 \<le> sr_rv rc"
    and rw: "rw = K (trace m @ [(SysEpollCreate, rc)]) SysEventfd" "0 \<le> sr_rv rw"
    and new: "interest (sr_rv rc) (trace m) = Map.empty" "history_conforms (trace m)"
      "\<And>c ch. chan_at m c = Some ch \<Longrightarrow> ch_loop ch \<noteq> l"
    and thread: "t_loopInThisThread m (cur_tid m) = 0"
  shows "\<exists>m' el. EventLoop False K hr l p w m = Inr m' \<and> poller_inv p m'
    \<and> registered p m' w \<and> watched p m' w = Some kReadEvent
    \<and> loop_at m' l = Some el \<and> el_poller el = p \<and> weakupChannel el = w \<and> weakupFd el = sr_rv rw
    \<and> threadId el = cur_tid m' \<and> t_loopInThisThread m' (cur_tid m') = l"
proof -
  let ?ch = "(Channel l (sr_rv rw))\<lparr>readCallBack := Some hr\<rparr>"
  let ?el = "new_loop (cur_tid m) p w (sr_rv rw) :: 'a eventloop"
  from EventLoop_enables [OF nz rc rw thread, of hr] obtain m3 where
    enables: "EventLoop False K hr l p w m = enableReading K w m3"
    and m3: "chan_at m3 = (chan_at m)(w \<mapsto> ?ch)" "poller_at m3 p = Some (fresh_poller l (sr_rv rc))"
      "loop_at m3 l = Some ?el" "cur_tid m3 = cur_tid m"
      "t_loopInThisThread m3 = (t_loopInThisThread m)(cur_tid m := l)"
      "trace m3 = trace m @ [(SysEpollCreate, rc), (SysEventfd, rw)]" by auto
  have int: "interest (sr_rv rc) (trace m3) = Map.empty" "history_conforms (trace m3)"
    using new(1,2) by (simp_all add: m3(6))
  have "registry_ok (fresh_poller l (sr_rv rc)) (chan_at m3) (trace m3)"
    unfolding m3(1) by (rule fresh_poller_ok) (use new(3) nz int in auto)
  then have inv: "poller_inv p m3" using nz m3(2) by (simp add: poller_inv_def)
  have use: "usable p w m3"
    by (simp add: usable_def m3(1,2) fresh_poller_def Channel_def free_for_def)
  have "enableReading K w m3 = watch K p (enableReading_ev 0) w m3"
    using nz m3(3) unfolding enableReading_def
    by (subst change_events_watch [where ch = ?ch and el = ?el and p = p])
      (simp_all add: m3(1) Channel_def new_loop_def)
  with enables have eq: "EventLoop False K hr l p w m = watch K p kReadEvent w m3"
    by (simp add: enableReading_ev_def)
  have chan: "chan_at m3 w = Some ?ch" by (simp add: m3(1))
  from watch_shape [OF K inv use chan, of kReadEvent] obtain m' where
    m': "watch K p kReadEvent w m3 = Inr m'" "loop_at m' = loop_at m3" "cur_tid m' = cur_tid m3"
      "t_loopInThisThread m' = t_loopInThisThread m3"
    by (auto simp del: machine_order)
  have "registered p m3 w = False" "watched p m3 w = None"
    using int by (simp_all add: registered_def watched_def m3(1,2) fresh_poller_def)
  then have "poller_inv p m' \<and> registered p m' w \<and> watched p m' w = Some kReadEvent"
    using watch_move [OF K inv use, of kReadEvent] m'(1) by auto
  then show ?thesis
    using eq m' m3(3-5) by (intro exI [of _ m'] exI [of _ ?el]) (simp add: new_loop_def)
qed

definition blank_reactor :: "int reactor" where
  "blank_reactor = \<lparr>trace = [], chan_at = Map.empty, poller_at = Map.empty, loop_at = Map.empty,
     cur_tid = 100, t_loopInThisThread = (\<lambda>_. 0)\<rparr>"

theorem EventLoop_sets_up_witness:
  "\<exists>m' el. EventLoop False quiet_kernel 5 1 2 7 blank_reactor = Inr m' \<and> poller_inv 2 m'
    \<and> watched 2 m' 7 = Some kReadEvent \<and> loop_at m' 1 = Some el \<and> threadId el = cur_tid m'"
proof -
  have "\<exists>m' el. EventLoop False quiet_kernel 5 1 2 7 blank_reactor = Inr m' \<and> poller_inv 2 m'
    \<and> registered 2 m' 7 \<and> watched 2 m' 7 = Some kReadEvent
    \<and> loop_at m' 1 = Some el \<and> el_poller el = 2 \<and> weakupChannel el = 7 \<and> weakupFd el = sr_rv zero_ret
    \<and> threadId el = cur_tid m' \<and> t_loopInThisThread m' (cur_tid m') = 1"
    by (rule EventLoop_sets_up [where rc = zero_ret, OF quiet_kernel_documented(3)])
      (simp_all add: quiet_kernel_def blank_reactor_def zero_ret_def)
  then show ?thesis by blast
qed

text \<open>The constructor's refusals: a second loop in the same thread ends the process, and with
  \<open>MUDUO_USE_POLL\<close> set there is no poller and enabling the wake-up channel goes through a null
  pointer.\<close>

theorem EventLoop_refused:
  assumes "l \<noteq> 0" and "w \<noteq> 0"
    and "\<And>tr. 0 \<le> sr_rv (K tr SysEpollCreate)" and "\<And>tr. 0 \<le> sr_rv (K tr SysEventfd)"
  shows "EventLoop True K hr l p w m
      = Inl (if t_loopInThisThread m (cur_tid m) = 0 then NullPointer else ExitProcess)
    \<and> (t_loopInThisThread m (cur_tid m) \<noteq> 0 \<longrightarrow> EventLoop False K hr l p w m = Inl ExitProcess)"
  using assms
  by (simp_all add: EventLoop_def newDefaultPoller_def EpollPoller_def createEventFd_def do_sys_log
      Let_def setReadCallBack_def enableReading_def change_events_def channel_update_def Channel_def
      loop_updateChannel_def updateChannel_def kNew_def linorder_not_less [symmetric])

theorem EventLoop_refused_witness:
  "EventLoop True quiet_kernel 5 1 2 7 blank_reactor = Inl NullPointer
    \<and> EventLoop False quiet_kernel 5 1 2 7 small_reactor = Inl ExitProcess"
  using EventLoop_refused [of 1 7 quiet_kernel 5 2 blank_reactor]
    EventLoop_refused [of 1 7 quiet_kernel 5 2 small_reactor]
  by (simp add: quiet_kernel_def zero_ret_def blank_reactor_def small_reactor_def)

text \<open>The destructor takes the wake-up channel out of the poller before it closes the
  descriptors: every \<open>epoll_ctl\<close> call is legal, the kernel no longer watches the wake-up
  descriptor, the three objects are gone and the thread may have a loop again.\<close>

theorem destroy_EventLoop_clean:
  assumes K: "ctl_documented K" and inv: "poller_inv p m" and use: "usable p w m"
    and l: "l \<noteq> 0" "loop_at m l = Some el" "el_poller el = p" "weakupChannel el = w"
    and w: "chan_at m w = Some ch" "ch_loop ch = l" and po: "poller_at m p = Some po"
  shows "\<exists>m'. destroy_EventLoop K l m = Inr m' \<and> history_conforms (trace m')
    \<and> interest (po_epfd po) (trace m') (ch_fd ch) = None
    \<and> loop_at m' l = None \<and> chan_at m' w = None \<and> poller_at m' p = None
    \<and> t_loopInThisThread m' (cur_tid m') = 0"
proof -
  have nz: "p \<noteq> 0" "w \<noteq> 0" using inv use by (auto elim: usable_obtain)
  have "disableAll K w m = watch K p kNoneEvent w m"
    unfolding disableAll_def using l w nz
    by (simp add: change_events_watch [where ch = ch and el = el and p = p] disableAll_ev_def)
  moreover obtain m1 po1 ev i where
    m1: "watch K p kNoneEvent w m = Inr m1" "loop_at m1 = loop_at m" "cur_tid m1 = cur_tid m"
      "chan_at m1 w = Some (ch\<lparr>ch_events := kNoneEvent, ch_index := i\<rparr>)"
      "poller_at m1 p = Some po1" "po_epfd po1 = po_epfd po"
    using watch_shape [OF K inv use w(1), of kNoneEvent] po by (auto simp del: machine_order)
  ultimately have dis: "disableAll K w m = Inr m1" by simp
  have inv1: "poller_inv p m1" "usable p w m1" using watch_move [OF K inv use, of kNoneEvent] m1(1) by auto
  have ch1: "chan_at m1 w = Some (ch\<lparr>ch_events := kNoneEvent, ch_index := i\<rparr>)" by (rule m1(4))
  from remove_shape [OF K inv1 ch1] obtain m2 po2 where
    m2: "removeChannel K p w m1 = Inr m2" "loop_at m2 = loop_at m1"
      "poller_at m2 p = Some po2" "po_epfd po2 = po_epfd po"
      "interest (po_epfd po) (trace m2) (ch_fd ch) = None" "history_conforms (trace m2)"
    using m1(5,6) by (auto simp del: machine_order split: if_splits)
  have rem: "channel_remove K w m1 = Inr m2"
    using m1(2) ch1 l w nz m2(1) by (simp add: channel_remove_def loop_removeChannel_def)
  show ?thesis
    using dis rem l m2 nz
    by (simp add: destroy_EventLoop_def do_sys_log Let_def log_sys_def)
qed

lemma small_reactor_ok: "poller_inv 2 small_reactor" "usable 2 7 small_reactor"
proof -
  have "channels_ok small_poller (chan_at small_reactor)"
    by (simp add: channels_ok_def small_reactor_def small_poller_def Channel_def kNew_def kAdd_def
        kDelete_def)
  then show "poller_inv 2 small_reactor"
    by (simp add: poller_inv_def registry_ok_def small_reactor_def small_poller_def expected_def
        fun_eq_iff)
  show "usable 2 7 small_reactor"
    by (simp add: usable_def small_reactor_def small_poller_def Channel_def free_for_def)
qed

theorem destroy_EventLoop_clean_witness:
  "\<exists>m'. destroy_EventLoop quiet_kernel 1 small_reactor = Inr m' \<and> history_conforms (trace m')
    \<and> interest 3 (trace m') 4 = None \<and> loop_at m' 1 = None \<and> chan_at m' 7 = None"
  using destroy_EventLoop_clean [OF quiet_kernel_documented(3) small_reactor_ok, of 1 small_loop
      "Channel 1 4" small_poller]
  by (auto simp: small_reactor_def small_loop_def small_poller_def Channel_def)

end
