(* ===== verification/Muduo_Acceptor.thy ===== *)
theory Muduo_Acceptor
  imports Muduo_Socket Muduo_EventLoop
begin

text \<open>
  \<open>muduo/Acceptor.h\<close> and \<open>muduo/Acceptor.cpp\<close>: the listening socket and what is done with a
  new connection. The acceptor is a record; its channel, a member of the object, is the channel
  at \<open>ac_channel\<close>. The new-connection callback is a function on states or unset.
\<close>

section \<open>Operations\<close>

record acceptor =
  ac_loop :: ptr
  ac_fd :: int
  ac_channel :: ptr
  ac_listening :: bool

definition createNonblocking :: "kernel \<Rightarrow> 'z os_scheme \<Rightarrow> (int \<times> 'z os_scheme) result" where
  "createNonblocking K m = (let (r, m1) = do_sys K SysSocket m
     in if sr_rv r < 0 then Inl ExitProcess else Inr (sr_rv r, m1))"

text \<open>The constructor; \<open>w\<close> is the address of the channel, \<open>hr\<close> the closure of \<open>handleRead\<close>.\<close>

definition Acceptor :: "kernel \<Rightarrow> 'cb \<Rightarrow> ptr \<Rightarrow> sockaddr_in \<Rightarrow> bool \<Rightarrow> ptr \<Rightarrow> ('cb, 'z) reactor_scheme
    \<Rightarrow> (acceptor \<times> ('cb, 'z) reactor_scheme) result" where
  "Acceptor K hr l addr reusePort w m = bindE (createNonblocking K m) (\<lambda>(fd, m1).
     let m2 = put_chan w (Channel l fd) m1;
         m3 = setReusePort K fd reusePort m2;
         m4 = setReuseAddr K fd True m3
     in bindE (bindAddress K fd addr m4) (\<lambda>m5. bindE (setReadCallBack hr w m5) (\<lambda>m6.
        Inr (\<lparr>ac_loop = l, ac_fd = fd, ac_channel = w, ac_listening = False\<rparr>, m6))))"

text \<open>The destructor, with those of the members \<open>acceptChannel_\<close> and \<open>acceptSocket_\<close>.\<close>

definition destroy_Acceptor :: "kernel \<Rightarrow> acceptor \<Rightarrow> ('cb, 'z) reactor_scheme
    \<Rightarrow> ('cb, 'z) reactor_scheme result" where
  "destroy_Acceptor K ac m = bindE (disableAll K (ac_channel ac) m) (\<lambda>m1.
     bindE (channel_remove K (ac_channel ac) m1) (\<lambda>m2.
     Inr (close_socket K (ac_fd ac) (m2\<lparr>chan_at := (chan_at m2)(ac_channel ac := None)\<rparr>))))"

definition acceptor_listen :: "kernel \<Rightarrow> acceptor \<Rightarrow> ('cb, 'z) reactor_scheme
    \<Rightarrow> (acceptor \<times> ('cb, 'z) reactor_scheme) result" where
  "acceptor_listen K ac m = bindE (socket_listen K (ac_fd ac) m) (\<lambda>m1.
     bindE (enableReading K (ac_channel ac) m1) (\<lambda>m2. Inr (ac\<lparr>ac_listening := True\<rparr>, m2)))"

text \<open>
  \<open>len\<close> is the uninitialised length \<open>accept\<close> passes to the kernel, \<open>peer0\<close> the default address
  \<open>InetAddress()\<close>.
\<close>

definition acceptor_handleRead :: "kernel \<Rightarrow> u32 \<Rightarrow> sockaddr_in
    \<Rightarrow> (int \<Rightarrow> sockaddr_in \<Rightarrow> ('cb, 'z) reactor_scheme \<Rightarrow> ('cb, 'z) reactor_scheme result) option
    \<Rightarrow> acceptor \<Rightarrow> ('cb, 'z) reactor_scheme \<Rightarrow> ('cb, 'z) reactor_scheme result" where
  "acceptor_handleRead K len peer0 N ac m =
     (let ((connfd, peerAddr), m1) = socket_accept K len (ac_fd ac) peer0 m
      in if connfd > 0
         then (case N of Some f \<Rightarrow> f connfd peerAddr m1 | None \<Rightarrow> Inr (close_socket K connfd m1))
         else Inr m1)"

section \<open>Properties\<close>

lemma poller_inv_socket_calls [simp]:
  "poller_inv p (log_sys SysSocket r m) = poller_inv p m"
  "poller_inv p (log_sys (SysSetsockopt fd opt v) r m) = poller_inv p m"
  "poller_inv p (log_sys (SysBind fd a) r m) = poller_inv p m"
  "poller_inv p (log_sys (SysListen fd n) r m) = poller_inv p m"
  by (simp_all add: poller_inv_def registry_ok_def)

lemma usable_log [simp]: "usable p w (log_sys call r m) = usable p w m"
  by (simp add: usable_def)

lemma socket_calls_log:
  "setsockopt opt K fd on m
    = (let c = SysSetsockopt fd opt (if on then 1 else 0) in log_sys c (K (trace m) c) m)"
  "close_socket K fd m = log_sys (SysClose fd) (K (trace m) (SysClose fd)) m"
  by (simp_all add: setsockopt_def close_socket_def do_sys_log Let_def)

text \<open>A new channel in a poller that does not know its descriptor.\<close>

lemma poller_inv_new_chan:
  assumes inv: "poller_inv p m" and po: "poller_at m p = Some po" and w: "w \<noteq> 0" "chan_at m w = None"
    and ch: "ch_index ch = kNew" and free: "po_channels po (ch_fd ch) = None" "ch_loop ch = po_owner po"
  shows "poller_inv p (put_chan w ch m)" and "usable p w (put_chan w ch m)"
proof -
  from inv po have ok: "registry_ok po (chan_at m) (trace m)" "p \<noteq> 0" by (auto simp: poller_inv_def)
  then have chans: "channels_ok po (chan_at m)" by (simp add: registry_ok_def)
  have notw: "po_channels po fd \<noteq> Some w" for fd
    using w(2) by (metis channels_ok_entry [OF chans] option.distinct(1))
  have "channels_ok po ((chan_at m)(w \<mapsto> ch))"
    unfolding channels_ok_def
  proof (intro conjI allI impI)
    fix c ch'
    assume c: "((chan_at m)(w \<mapsto> ch)) c = Some ch'" "ch_loop ch' = po_owner po"
    have "c \<noteq> 0 \<and> ch_index ch' \<in> {kNew, kAdd, kDelete}
        \<and> (ch_index ch' \<noteq> kNew \<longleftrightarrow> po_channels po (ch_fd ch') = Some c)"
    proof (cases "c = w")
      case True
      with c w ch free show ?thesis by simp
    next
      case False
      with c have h: "chan_at m c = Some ch'" by simp
      show ?thesis using channels_okD [OF chans h c(2)] by blast
    qed
    then show "c \<noteq> 0" "ch_index ch' \<in> {kNew, kAdd, kDelete}"
      "ch_index ch' \<noteq> kNew \<longleftrightarrow> po_channels po (ch_fd ch') = Some c" by blast+
  next
    fix fd c
    assume c: "po_channels po fd = Some c"
    with notw have "c \<noteq> w" by auto
    with channels_ok_entry [OF chans c]
    show "\<exists>ch'. ((chan_at m)(w \<mapsto> ch)) c = Some ch' \<and> ch_fd ch' = fd \<and> ch_loop ch' = po_owner po"
      by (metis fun_upd_apply)
  qed
  moreover have "expected po ((chan_at m)(w \<mapsto> ch)) = expected po (chan_at m)"
    using notw by (auto simp: expected_def fun_eq_iff split: option.split)
  ultimately show "poller_inv p (put_chan w ch m)"
    using ok po by (auto simp: poller_inv_def registry_ok_def)
  show "usable p w (put_chan w ch m)"
    using po free by (simp add: usable_def free_for_def)
qed

text \<open>C31: Construction and \<open>listen()\<close> of an acceptor in a loop that is in order, when the kernel
  refuses nothing: the calls made are socket, the two options, bind, listen and one
  \<open>epoll_ctl\<close>, in this order, so that the descriptor is watched only when the socket listens;
  the poller stays in order and the channel is watched for reading.\<close>

theorem acceptor_listens:
  fixes m :: "('cb, 'z) reactor_scheme"
  assumes K: "ctl_documented K" "\<And>tr. sr_rv (K tr SysSocket) = fd" "0 \<le> fd"
      "\<And>tr. sr_rv (K tr (SysBind fd addr)) = 0" "\<And>tr. sr_rv (K tr (SysListen fd 1024)) = 0"
    and l: "l \<noteq> 0" "loop_at m l = Some el" "el_poller el = p" and inv: "poller_inv p m"
    and po: "poller_at m p = Some po" "po_owner po = l" "po_channels po fd = None"
    and w: "w \<noteq> 0" "chan_at m w = None" "watched p m w = None"
  shows "\<exists>ac m1 m2 ev. Acceptor K hr l addr reuse w m = Inr (ac, m1)
    \<and> acceptor_listen K ac m1 = Inr (ac\<lparr>ac_listening := True\<rparr>, m2)
    \<and> ac = \<lparr>ac_loop = l, ac_fd = fd, ac_channel = w, ac_listening = False\<rparr>
    \<and> poller_inv p m2 \<and> watched p m2 w = Some kReadEvent
    \<and> map fst (trace m2) = map fst (trace m) @ [SysSocket, SysSetsockopt fd SO_REUSEPORT (if reuse then 1 else 0),
        SysSetsockopt fd SO_REUSEADDR 1, SysBind fd addr, SysListen fd 1024,
        SysEpollCtl (po_epfd po) EPOLL_CTL_ADD fd ev]"
proof -
  let ?ch0 = "Channel l fd :: 'cb channel"
  let ?ch = "?ch0\<lparr>readCallBack := Some hr\<rparr>"
  let ?ac = "\<lparr>ac_loop = l, ac_fd = fd, ac_channel = w, ac_listening = False\<rparr>"
  have "\<exists>r1 r2 r3 r4. Acceptor K hr l addr reuse w m = Inr (?ac, put_chan w ?ch
      (log_sys (SysBind fd addr) r4 (log_sys (SysSetsockopt fd SO_REUSEADDR 1) r3
        (log_sys (SysSetsockopt fd SO_REUSEPORT (if reuse then 1 else 0)) r2 (log_sys SysSocket r1 m)))))"
    using K(2-4) w(1)
    by (simp add: Acceptor_def createNonblocking_def do_sys_log Let_def setReusePort_def setReuseAddr_def
        socket_calls_log bindAddress_def setReadCallBack_def not_less [symmetric])
      (simp add: log_sys_def put_chan_def, blast)
  then obtain r1 r2 r3 r4 m0 where
    m0: "m0 = log_sys (SysBind fd addr) r4 (log_sys (SysSetsockopt fd SO_REUSEADDR 1) r3
        (log_sys (SysSetsockopt fd SO_REUSEPORT (if reuse then 1 else 0)) r2 (log_sys SysSocket r1 m)))"
      "Acceptor K hr l addr reuse w m = Inr (?ac, put_chan w ?ch m0)"
    by blast
  define r5 where "r5 = K (trace m0) (SysListen fd 1024)"
  define m1 where "m1 = put_chan w ?ch (log_sys (SysListen fd 1024) r5 m0)"
  have m0_inv: "poller_inv p (log_sys (SysListen fd 1024) r5 m0)"
    using inv by (simp add: m0(1))
  have fields: "poller_at (log_sys (SysListen fd 1024) r5 m0) p = Some po"
      "chan_at (log_sys (SysListen fd 1024) r5 m0) w = None"
    using po w by (simp_all add: m0(1))
  have new: "ch_index ?ch = kNew" "po_channels po (ch_fd ?ch) = None" "ch_loop ?ch = po_owner po"
    using po by (simp_all add: Channel_def kNew_def)
  have inv1: "poller_inv p m1" "usable p w m1"
    unfolding m1_def by (rule poller_inv_new_chan [OF m0_inv fields(1) w(1) fields(2) new])+
  have "sr_rv r5 = 0" using K(5) by (simp add: r5_def)
  then have listen: "socket_listen K fd (put_chan w ?ch m0) = Inr m1"
    by (simp add: socket_listen_def do_sys_log Let_def m1_def r5_def [symmetric])
  have ch1: "chan_at m1 w = Some ?ch" "loop_at m1 l = Some el" "poller_at m1 p = Some po"
    using l po by (simp_all add: m1_def m0(1))
  have nz: "p \<noteq> 0" using inv by (simp add: poller_inv_def)
  have en: "enableReading K w m1 = watch K p kReadEvent w m1"
    unfolding enableReading_def using l ch1 w(1)
    by (subst change_events_watch [where ch = ?ch and el = el and p = p])
      (simp_all add: Channel_def enableReading_ev_def)
  obtain m2 where m2: "watch K p kReadEvent w m1 = Inr m2" "poller_inv p m2"
      "watched p m2 w = (if watched p m1 w \<noteq> None \<and> kReadEvent = 0 then None else Some kReadEvent)"
    using watch_move [OF K(1) inv1, of kReadEvent] by auto
  have "kReadEvent \<noteq> 0" by (simp add: kReadEvent_def event_masks)
  with m2(3) have watched: "watched p m2 w = Some kReadEvent" by simp
  have reg: "registry_ok po (chan_at m1) (trace m1)" using inv1(1) ch1(3) by (simp add: poller_inv_def)
  have "\<exists>ev. map fst (trace m2) = map fst (trace m1) @ [SysEpollCtl (po_epfd po) EPOLL_CTL_ADD fd ev]"
    using watch_step [OF K(1) nz ch1(3) reg ch1(1), of kReadEvent] po m2(1)
    by (auto simp: Channel_def free_for_def next_ctl_def kAdd_def)
  moreover have "map fst (trace m1) = map fst (trace m) @ [SysSocket,
      SysSetsockopt fd SO_REUSEPORT (if reuse then 1 else 0), SysSetsockopt fd SO_REUSEADDR 1,
      SysBind fd addr, SysListen fd 1024]"
    by (simp add: m1_def m0(1))
  moreover have "acceptor_listen K ?ac (put_chan w ?ch m0) = Inr (?ac\<lparr>ac_listening := True\<rparr>, m2)"
    using listen en m2(1) by (simp add: acceptor_listen_def)
  ultimately show ?thesis using m0(2) m2(2) watched by auto
qed

theorem acceptor_listens_witness:
  "\<exists>ac m1 m2. Acceptor quiet_kernel 6 1 (sr_addr zero_ret) True 30 small_reactor = Inr (ac, m1)
    \<and> acceptor_listen quiet_kernel ac m1 = Inr (ac\<lparr>ac_listening := True\<rparr>, m2)
    \<and> watched 2 m2 30 = Some kReadEvent"
proof -
  have "\<exists>ac m1 m2 ev. Acceptor quiet_kernel 6 1 (sr_addr zero_ret) True 30 small_reactor = Inr (ac, m1)
    \<and> acceptor_listen quiet_kernel ac m1 = Inr (ac\<lparr>ac_listening := True\<rparr>, m2)
    \<and> ac = \<lparr>ac_loop = 1, ac_fd = 0, ac_channel = 30, ac_listening = False\<rparr>
    \<and> poller_inv 2 m2 \<and> watched 2 m2 30 = Some kReadEvent
    \<and> map fst (trace m2) = map fst (trace small_reactor) @ [SysSocket,
        SysSetsockopt 0 SO_REUSEPORT (if True then 1 else 0), SysSetsockopt 0 SO_REUSEADDR 1,
        SysBind 0 (sr_addr zero_ret), SysListen 0 1024,
        SysEpollCtl (po_epfd small_poller) EPOLL_CTL_ADD 0 ev]"
    by (rule acceptor_listens [where el = small_loop and po = small_poller,
          OF quiet_kernel_documented(3) _ _ _ _ _ _ _ small_reactor_ok(1)])
      (simp_all add: quiet_kernel_def zero_ret_def small_reactor_def small_loop_def small_poller_def watched_def)
  then show ?thesis by blast
qed

text \<open>What becomes of an accepted descriptor: a positive one is handed to the callback with
  the peer's address, or closed when no callback is set; a negative result changes nothing else;
  but descriptor 0 is treated as an error and is neither handed over nor closed.\<close>

theorem accepted_descriptor_fate:
  assumes "r = K (trace m) (SysAccept (ac_fd ac) len)" and "m1 = log_sys (SysAccept (ac_fd ac) len) r m"
  shows "acceptor_handleRead K len peer0 (Some f) ac m
      = (if sr_rv r > 0 then f (sr_rv r) (sr_addr r) m1 else Inr m1)
    \<and> (\<exists>m'. acceptor_handleRead K len peer0 None ac m = Inr m'
        \<and> map fst (trace m') = map fst (trace m) @ [SysAccept (ac_fd ac) len]
            @ (if sr_rv r > 0 then [SysClose (sr_rv r)] else []))"
  using assms
  by (simp add: acceptor_handleRead_def socket_accept_def do_sys_log Let_def setSockAddr_def socket_calls_log)

theorem accepted_descriptor_fate_witness:
  "\<exists>m'. acceptor_handleRead quiet_kernel 0 (sr_addr zero_ret) None
      \<lparr>ac_loop = 1, ac_fd = 9, ac_channel = 30, ac_listening = True\<rparr> small_reactor = Inr m'
    \<and> map fst (trace m') = [SysAccept 9 0]"
  using accepted_descriptor_fate [of zero_ret quiet_kernel small_reactor
      "\<lparr>ac_loop = 1, ac_fd = 9, ac_channel = 30, ac_listening = True\<rparr>" 0]
  by (auto simp: quiet_kernel_def zero_ret_def small_reactor_def)

end
