(* ===== verification/Muduo_ThreadPool.thy ===== *)
theory Muduo_ThreadPool
  imports Muduo_EventLoop
begin

text \<open>
  \<open>muduo/Thread.h\<close>, \<open>muduo/Thread.cpp\<close>, \<open>muduo/EventLoopThread.cpp\<close> and
  \<open>muduo/EventLoopThreadPool.cpp\<close>: names of threads, the start of a loop in a thread of its own,
  and the pool that hands out its loops in turn. \<open>startLoop\<close> waits for the new thread to
  publish its loop; the model runs the new thread up to that point and comes back. What the
  thread does afterwards is \<open>loop\<close> of \<open>Muduo_EventLoop\<close>.
\<close>

section \<open>Thread\<close>

record thread =
  th_started :: bool
  th_joined :: bool
  th_tid :: int
  th_name :: string

text \<open>\<open>numCreated\<close> is the static counter; the result includes its new value.\<close>

definition setDefaultName :: "int \<Rightarrow> string \<Rightarrow> string \<times> int" where
  "setDefaultName numCreated name = (let number = numCreated + 1 in
     (if name = [] then snprintf 32 (''Thread'' @ dec_int number) else name, number))"

definition Thread :: "int \<Rightarrow> string \<Rightarrow> thread \<times> int" where
  "Thread numCreated name = (let (n, number) = setDefaultName numCreated name in
     (\<lparr>th_started = False, th_joined = False, th_tid = 0, th_name = n\<rparr>, number))"

text \<open>\<open>start\<close> returns only after the new thread has stored its id.\<close>

definition thread_start :: "int \<Rightarrow> thread \<Rightarrow> thread" where
  "thread_start new_tid t = t\<lparr>th_started := True, th_tid := new_tid\<rparr>"

definition thread_join :: "thread \<Rightarrow> thread result" where
  "thread_join t = (if th_started t then Inr (t\<lparr>th_joined := True\<rparr>) else Inl NullPointer)"

text \<open>The destructor: whether the thread is detached.\<close>

definition thread_detaches :: "thread \<Rightarrow> bool" where
  "thread_detaches t \<longleftrightarrow> th_started t \<and> \<not> th_joined t"

section \<open>EventLoopThread\<close>

text \<open>
  What one call of \<open>startLoop\<close> needs from outside: the addresses of the loop, its poller and its
  wake-up channel, and the id of the new thread. \<open>hr\<close> is the closure of the wake-up channel, \<open>I\<close>
  runs the thread's init callback on the new loop.
\<close>

record place =
  sl_loop :: ptr
  sl_poller :: ptr
  sl_channel :: ptr
  sl_tid :: int

definition startLoop :: "kernel \<Rightarrow> (ptr \<Rightarrow> 'cb)
    \<Rightarrow> (ptr \<Rightarrow> ('cb, 'z) reactor_scheme \<Rightarrow> ('cb, 'z) reactor_scheme result) option
    \<Rightarrow> place \<Rightarrow> ('cb, 'z) reactor_scheme \<Rightarrow> (ptr \<times> ('cb, 'z) reactor_scheme) result" where
  "startLoop K hr I sl m =
     bindE (EventLoop False K (hr (sl_loop sl)) (sl_loop sl) (sl_poller sl) (sl_channel sl)
              (m\<lparr>cur_tid := sl_tid sl\<rparr>)) (\<lambda>m1.
     bindE (case I of None \<Rightarrow> Inr m1 | Some f \<Rightarrow> f (sl_loop sl) m1) (\<lambda>m2.
     Inr (sl_loop sl, m2\<lparr>cur_tid := cur_tid m\<rparr>)))"

section \<open>EventLoopThreadPool\<close>

record pool =
  tp_baseLoop :: ptr
  tp_name :: string
  tp_started :: bool
  tp_numThreads :: int
  tp_threads :: "string list"
  tp_loops :: "ptr list"
  tp_next :: nat

definition EventLoopThreadPool :: "ptr \<Rightarrow> string \<Rightarrow> pool" where
  "EventLoopThreadPool base name = \<lparr>tp_baseLoop = base, tp_name = name, tp_started = False,
     tp_numThreads = 0, tp_threads = [], tp_loops = [], tp_next = 0\<rparr>"

definition setThreadNum :: "int \<Rightarrow> pool \<Rightarrow> pool" where
  "setThreadNum n tp = tp\<lparr>tp_numThreads := n\<rparr>"

text \<open>One pass of the loop in \<open>start\<close>; the thread \<open>i\<close> uses the place \<open>places i\<close>.\<close>

definition start_one :: "kernel \<Rightarrow> (ptr \<Rightarrow> 'cb)
    \<Rightarrow> (ptr \<Rightarrow> ('cb, 'z) reactor_scheme \<Rightarrow> ('cb, 'z) reactor_scheme result) option
    \<Rightarrow> (nat \<Rightarrow> place) \<Rightarrow> nat \<Rightarrow> pool \<times> ('cb, 'z) reactor_scheme \<Rightarrow> (pool \<times> ('cb, 'z) reactor_scheme) result"
  where
  "start_one K hr I places i = (\<lambda>(tp, m).
     let buf = snprintf (length (tp_name tp) + 32) (tp_name tp @ dec_int (int i)) in
     bindE (startLoop K hr I (places i) m) (\<lambda>(l, m1).
     Inr (tp\<lparr>tp_threads := tp_threads tp @ [buf], tp_loops := tp_loops tp @ [l]\<rparr>, m1)))"

definition pool_start :: "kernel \<Rightarrow> (ptr \<Rightarrow> 'cb)
    \<Rightarrow> (ptr \<Rightarrow> ('cb, 'z) reactor_scheme \<Rightarrow> ('cb, 'z) reactor_scheme result) option
    \<Rightarrow> (nat \<Rightarrow> place) \<Rightarrow> pool \<times> ('cb, 'z) reactor_scheme \<Rightarrow> (pool \<times> ('cb, 'z) reactor_scheme) result"
  where
  "pool_start K hr I places = (\<lambda>(tp, m).
     bindE (foldE (start_one K hr I places) [0..<nat (tp_numThreads tp)] (tp\<lparr>tp_started := True\<rparr>, m))
       (\<lambda>(tp1, m1). case I of
          Some f \<Rightarrow> if tp_numThreads tp1 = 0
            then bindE (f (tp_baseLoop tp1) m1) (\<lambda>m2. Inr (tp1, m2)) else Inr (tp1, m1)
        | None \<Rightarrow> Inr (tp1, m1)))"

definition getNextLoop :: "pool \<Rightarrow> ptr \<times> pool" where
  "getNextLoop tp = (if tp_loops tp \<noteq> []
     then (tp_loops tp ! tp_next tp, tp\<lparr>tp_next := (tp_next tp + 1) mod length (tp_loops tp)\<rparr>)
     else (tp_baseLoop tp, tp))"

definition getAllLoops :: "pool \<Rightarrow> ptr list" where
  "getAllLoops tp = (if tp_loops tp = [] then [tp_baseLoop tp] else tp_loops tp)"

section \<open>Handing out loops in turn\<close>

fun take_turns :: "('s \<Rightarrow> 'a \<times> 's) \<Rightarrow> nat \<Rightarrow> 's \<Rightarrow> 'a list \<times> 's" where
  "take_turns nxt 0 s = ([], s)"
| "take_turns nxt (Suc k) s = (let (x, s1) = nxt s; (xs, s2) = take_turns nxt k s1 in (x # xs, s2))"

text \<open>The contract: there are choices, the next one is at the position, which moves on by one.\<close>

locale round_robin =
  fixes nxt :: "'s \<Rightarrow> 'a \<times> 's"
    and inv :: "'s \<Rightarrow> bool"
    and choices :: "'s \<Rightarrow> 'a list"
    and pos :: "'s \<Rightarrow> nat"
  assumes pos_law: "inv s \<Longrightarrow> pos s < length (choices s)"
    and next_law: "inv s \<Longrightarrow> \<exists>s'. nxt s = (choices s ! pos s, s') \<and> inv s' \<and> choices s' = choices s
        \<and> pos s' = (pos s + 1) mod length (choices s)"
begin

lemma turns_of:
  "inv s \<Longrightarrow> \<exists>s'. take_turns nxt k s
      = (map (\<lambda>i. choices s ! ((pos s + i) mod length (choices s))) [0..<k], s')
    \<and> inv s' \<and> choices s' = choices s \<and> pos s' = (pos s + k) mod length (choices s)"
proof (induction k arbitrary: s)
  case 0
  then show ?case using pos_law [of s] by simp
next
  case (Suc k)
  let ?n = "length (choices s)"
  from next_law [OF Suc.prems] obtain s1 where
    s1: "nxt s = (choices s ! pos s, s1)" "inv s1" "choices s1 = choices s" "pos s1 = (pos s + 1) mod ?n"
    by blast
  from Suc.IH [OF s1(2)] obtain s2 where
    s2: "take_turns nxt k s1 = (map (\<lambda>i. choices s ! ((pos s1 + i) mod ?n)) [0..<k], s2)" "inv s2"
      "choices s2 = choices s" "pos s2 = (pos s1 + k) mod ?n"
    using s1(3) by auto
  have step: "(pos s1 + i) mod ?n = (pos s + Suc i) mod ?n" for i
    using s1(4) by (simp add: mod_simps)
  have "map (\<lambda>i. choices s ! ((pos s + i) mod ?n)) [0..<Suc k]
      = choices s ! pos s # map (\<lambda>i. choices s ! ((pos s + Suc i) mod ?n)) [0..<k]"
    using pos_law [OF Suc.prems] by (simp add: upt_conv_Cons map_Suc_upt [symmetric] del: upt_Suc)
  with s1 s2 step show ?case by simp
qed

lemma full_cycle:
  assumes "inv s"
  shows "\<exists>s'. take_turns nxt (length (choices s)) s = (rotate (pos s) (choices s), s') \<and> inv s'
    \<and> choices s' = choices s \<and> pos s' = pos s"
proof -
  let ?n = "length (choices s)"
  have "map (\<lambda>i. choices s ! ((pos s + i) mod ?n)) [0..<?n] = rotate (pos s) (choices s)"
    by (rule nth_equalityI) (simp_all add: nth_rotate)
  moreover have "(pos s + ?n) mod ?n = pos s" using pos_law [OF assms] by simp
  ultimately show ?thesis using turns_of [OF assms, of ?n] by auto
qed

end

definition pool_ok :: "pool \<Rightarrow> bool" where
  "pool_ok tp \<longleftrightarrow> tp_next tp < length (tp_loops tp)"

interpretation poolrr: round_robin getNextLoop pool_ok tp_loops tp_next
  by unfold_locales (auto simp: pool_ok_def getNextLoop_def intro!: mod_less_divisor)

lemma mset_rotate: "mset (rotate n xs) = mset xs"
  by (metis append_take_drop_id mset_append rotate_drop_take union_commute)

section \<open>Properties\<close>

text \<open>C27: The loops of a started pool are handed out in turn: the \<open>k\<close>-th call after the position
  \<open>p\<close> returns loop \<open>(p + k) mod n\<close>, whatever the number of calls; the access is always inside
  the vector and the position stays valid.\<close>

theorem getNextLoop_round_robin:
  assumes "pool_ok tp"
  shows "\<exists>tp'. take_turns getNextLoop k tp
      = (map (\<lambda>i. tp_loops tp ! ((tp_next tp + i) mod length (tp_loops tp))) [0..<k], tp')
    \<and> pool_ok tp' \<and> tp_loops tp' = tp_loops tp"
  using poolrr.turns_of [OF assms, of k] by blast

theorem getNextLoop_round_robin_witness:
  "\<exists>tp'. take_turns getNextLoop 4 ((EventLoopThreadPool 1 ''p'')\<lparr>tp_loops := [11, 12, 13]\<rparr>)
    = ([11, 12, 13, 11], tp')"
  using getNextLoop_round_robin [of "(EventLoopThreadPool 1 ''p'')\<lparr>tp_loops := [11, 12, 13]\<rparr>" 4]
  by (auto simp: pool_ok_def EventLoopThreadPool_def upt_rec)

text \<open>Fairness: between any two returns of the position to its place, that is in any \<open>n\<close>
  consecutive calls, every one of the \<open>n\<close> loops is handed out exactly once.\<close>

theorem getNextLoop_fair:
  assumes "pool_ok tp"
  shows "\<exists>ls tp'. take_turns getNextLoop (length (tp_loops tp)) tp = (ls, tp')
    \<and> mset ls = mset (tp_loops tp) \<and> tp_next tp' = tp_next tp"
  using poolrr.full_cycle [OF assms] by (auto simp: mset_rotate)

theorem getNextLoop_fair_witness:
  "\<exists>ls tp'. take_turns getNextLoop 2 ((EventLoopThreadPool 1 ''p'')\<lparr>tp_loops := [11, 12], tp_next := 1\<rparr>)
    = (ls, tp') \<and> mset ls = {#11, 12#} \<and> tp_next tp' = 1"
  using getNextLoop_fair [of "(EventLoopThreadPool 1 ''p'')\<lparr>tp_loops := [11, 12], tp_next := 1\<rparr>"]
  by (auto simp: pool_ok_def EventLoopThreadPool_def numeral_2_eq_2)

section \<open>Starting the pool\<close>

text \<open>A kernel that has descriptors and memory to give.\<close>

definition kernel_healthy :: "kernel \<Rightarrow> bool" where
  "kernel_healthy K \<longleftrightarrow> (\<forall>tr. 0 \<le> sr_rv (K tr SysEpollCreate) \<and> 0 \<le> sr_rv (K tr SysEventfd))
     \<and> (\<forall>tr ep opn fd ev. 0 \<le> sr_rv (K tr (SysEpollCtl ep opn fd ev)))"

lemma EventLoop_builds:
  fixes m :: "('cb, 'z) reactor_scheme"
  assumes K: "kernel_healthy K" and nz: "l \<noteq> 0" "p \<noteq> 0" "w \<noteq> 0"
    and free: "t_loopInThisThread m (cur_tid m) = 0"
  shows "\<exists>m' el. EventLoop False K hr l p w m = Inr m' \<and> loop_at m' = (loop_at m)(l \<mapsto> el)
    \<and> threadId el = cur_tid m \<and> t_loopInThisThread m' = (t_loopInThisThread m)(cur_tid m := l)"
proof -
  define rc where "rc = K (trace m) SysEpollCreate"
  define rw where "rw = K (trace m @ [(SysEpollCreate, rc)]) SysEventfd"
  let ?ch = "(Channel l (sr_rv rw))\<lparr>readCallBack := Some hr\<rparr>"
  let ?el = "new_loop (cur_tid m) p w (sr_rv rw) :: 'cb eventloop"
  have rv: "0 \<le> sr_rv rc" "0 \<le> sr_rv rw"
    using K by (simp_all add: kernel_healthy_def rc_def rw_def)
  from EventLoop_enables [OF nz rc_def rv(1) rw_def rv(2) free, of hr] obtain m3 where
    m3: "EventLoop False K hr l p w m = enableReading K w m3" "chan_at m3 w = Some ?ch"
      "poller_at m3 p = Some (fresh_poller l (sr_rv rc))" "loop_at m3 = (loop_at m)(l \<mapsto> ?el)"
      "t_loopInThisThread m3 = (t_loopInThisThread m)(cur_tid m := l)" by auto
  have ctl: "\<not> sr_rv (K tr (SysEpollCtl ep opn fd ev)) < 0" for tr ep opn fd ev
    using K by (simp add: kernel_healthy_def not_less)
  have "enableReading K w m3 = watch K p (enableReading_ev 0) w m3"
    using nz m3(2,4) unfolding enableReading_def
    by (subst change_events_watch [where ch = ?ch and el = ?el and p = p])
      (simp_all add: Channel_def new_loop_def)
  then obtain po' call r ch' where
    "EventLoop False K hr l p w m = Inr (log_sys call r (put_chan w ch' (put_poller p po' m3)))"
    using nz m3(1-3) ctl
    by (simp add: watch_def updateChannel_def set_index_def Channel_def kNew_def Let_def update_def
        do_sys_log)
  then show ?thesis
    using m3(4,5) by (intro exI [of _ "log_sys call r (put_chan w ch' (put_poller p po' m3))"] exI [of _ ?el])
      (simp add: new_loop_def del: machine_order)
qed

text \<open>An init callback that returns and leaves the loops alone.\<close>

definition init_returns :: "(ptr \<Rightarrow> ('cb, 'z) reactor_scheme \<Rightarrow> ('cb, 'z) reactor_scheme result) option \<Rightarrow> bool"
  where
  "init_returns I \<longleftrightarrow> (\<forall>f l m. I = Some f \<longrightarrow> (\<exists>m'. f l m = Inr m' \<and> loop_at m' = loop_at m
     \<and> t_loopInThisThread m' = t_loopInThisThread m))"

lemma startLoop_builds:
  fixes m :: "('cb, 'z) reactor_scheme"
  assumes "kernel_healthy K" and "init_returns I"
    and "sl_loop sl \<noteq> 0" "sl_poller sl \<noteq> 0" "sl_channel sl \<noteq> 0"
    and "t_loopInThisThread m (sl_tid sl) = 0"
  shows "\<exists>m' el. startLoop K hr I sl m = Inr (sl_loop sl, m') \<and> loop_at m' = (loop_at m)(sl_loop sl \<mapsto> el)
    \<and> threadId el = sl_tid sl \<and> t_loopInThisThread m' = (t_loopInThisThread m)(sl_tid sl := sl_loop sl)
    \<and> cur_tid m' = cur_tid m"
proof -
  let ?m = "m\<lparr>cur_tid := sl_tid sl\<rparr>"
  from EventLoop_builds [OF assms(1,3-5), of ?m "hr (sl_loop sl)"] assms(6) obtain m1 and el :: "'cb eventloop" where
    m1: "EventLoop False K (hr (sl_loop sl)) (sl_loop sl) (sl_poller sl) (sl_channel sl) ?m = Inr m1"
      "loop_at m1 = (loop_at m)(sl_loop sl \<mapsto> el)" "threadId el = sl_tid sl"
      "t_loopInThisThread m1 = (t_loopInThisThread m)(sl_tid sl := sl_loop sl)" by auto
  obtain m2 where m2: "(case I of None \<Rightarrow> Inr m1 | Some f \<Rightarrow> f (sl_loop sl) m1) = Inr m2"
    "loop_at m2 = loop_at m1" "t_loopInThisThread m2 = t_loopInThisThread m1"
  proof (cases I)
    case None
    with that show thesis by simp
  next
    case (Some f)
    with assms(2) that show thesis by (auto simp: init_returns_def)
  qed
  have "startLoop K hr I sl m = Inr (sl_loop sl, m2\<lparr>cur_tid := cur_tid m\<rparr>)"
    using m1(1) m2(1) by (simp add: startLoop_def)
  with m1 m2 show ?thesis
    by (intro exI [of _ "m2\<lparr>cur_tid := cur_tid m\<rparr>"] exI [of _ el]) simp
qed

definition places_ok :: "(nat \<Rightarrow> place) \<Rightarrow> nat \<Rightarrow> ('cb, 'z) reactor_scheme \<Rightarrow> bool" where
  "places_ok places n m \<longleftrightarrow> inj_on (sl_loop \<circ> places) {..<n} \<and> inj_on (sl_tid \<circ> places) {..<n}
     \<and> (\<forall>i < n. sl_loop (places i) \<noteq> 0 \<and> sl_poller (places i) \<noteq> 0 \<and> sl_channel (places i) \<noteq> 0
          \<and> t_loopInThisThread m (sl_tid (places i)) = 0)"

lemma start_some:
  fixes m :: "('cb, 'z) reactor_scheme"
  assumes "kernel_healthy K" and "init_returns I" and ok: "places_ok places n m" and "n < 2 ^ 31"
  shows "k \<le> n \<Longrightarrow> \<exists>m'. foldE (start_one K hr I places) [0..<k] (tp, m)
      = Inr (tp\<lparr>tp_threads := tp_threads tp @ map (\<lambda>i. tp_name tp @ dec_int (int i)) [0..<k],
               tp_loops := tp_loops tp @ map (sl_loop \<circ> places) [0..<k]\<rparr>, m')
    \<and> (\<forall>i < k. \<exists>el. loop_at m' (sl_loop (places i)) = Some el \<and> threadId el = sl_tid (places i))
    \<and> (\<forall>i. k \<le> i \<longrightarrow> i < n \<longrightarrow> t_loopInThisThread m' (sl_tid (places i)) = 0)
    \<and> cur_tid m' = cur_tid m"
proof (induction k)
  case 0
  then show ?case using ok by (simp add: places_ok_def)
next
  case (Suc k)
  let ?tp = "tp\<lparr>tp_threads := tp_threads tp @ map (\<lambda>i. tp_name tp @ dec_int (int i)) [0..<k],
    tp_loops := tp_loops tp @ map (sl_loop \<circ> places) [0..<k]\<rparr>"
  from Suc obtain m1 where m1: "foldE (start_one K hr I places) [0..<k] (tp, m) = Inr (?tp, m1)"
    "\<forall>i < k. \<exists>el. loop_at m1 (sl_loop (places i)) = Some el \<and> threadId el = sl_tid (places i)"
    "\<forall>i. k \<le> i \<longrightarrow> i < n \<longrightarrow> t_loopInThisThread m1 (sl_tid (places i)) = 0" "cur_tid m1 = cur_tid m"
    by auto
  have k: "k < n" using Suc.prems by simp
  with ok m1(3) have nz: "sl_loop (places k) \<noteq> 0" "sl_poller (places k) \<noteq> 0" "sl_channel (places k) \<noteq> 0"
    "t_loopInThisThread m1 (sl_tid (places k)) = 0" by (simp_all add: places_ok_def)
  from startLoop_builds [OF assms(1,2) nz, of hr] obtain m2 and el :: "'cb eventloop" where
    m2: "startLoop K hr I (places k) m1 = Inr (sl_loop (places k), m2)"
      "loop_at m2 = (loop_at m1)(sl_loop (places k) \<mapsto> el)" "threadId el = sl_tid (places k)"
      "t_loopInThisThread m2 = (t_loopInThisThread m1)(sl_tid (places k) := sl_loop (places k))"
      "cur_tid m2 = cur_tid m1" by blast
  have "k < 10 ^ Suc 9" using k assms(4) by simp
  then have "length (dec_int (int k)) \<le> Suc 9"
    using length_dec_nat [of k 9] by (simp add: dec_int_def)
  then have name: "snprintf (length (tp_name tp) + 32) (tp_name tp @ dec_int (int k)) = tp_name tp @ dec_int (int k)"
    by simp
  have other: "sl_loop (places i) \<noteq> sl_loop (places k)" "sl_tid (places i) \<noteq> sl_tid (places k)"
    if "i < n" "i \<noteq> k" for i
    using ok k that by (auto simp: places_ok_def inj_on_def)
  have "foldE (start_one K hr I places) [0..<Suc k] (tp, m)
      = Inr (tp\<lparr>tp_threads := tp_threads tp @ map (\<lambda>i. tp_name tp @ dec_int (int i)) [0..<Suc k],
               tp_loops := tp_loops tp @ map (sl_loop \<circ> places) [0..<Suc k]\<rparr>, m2)"
    using m1(1) m2(1) name by (simp add: start_one_def)
  moreover have "\<exists>el. loop_at m2 (sl_loop (places i)) = Some el \<and> threadId el = sl_tid (places i)"
    if "i < Suc k" for i
    using that m1(2) m2(2,3) other [of i] k by (cases "i = k") auto
  moreover have "t_loopInThisThread m2 (sl_tid (places i)) = 0" if "Suc k \<le> i" "i < n" for i
    using that m1(3) m2(4) other [of i] by simp
  ultimately show ?case using m1(4) m2(5) by auto
qed


definition example_place :: "nat \<Rightarrow> place" where
  "example_place i = \<lparr>sl_loop = 100 + i, sl_poller = 200 + i, sl_channel = 300 + i, sl_tid = 500 + int i\<rparr>"


end
