(* ===== verification/Muduo_TcpConnection.thy ===== *)
theory Muduo_TcpConnection
  imports Muduo_Buffer Muduo_Socket Muduo_EventLoop "HOL-Library.Sublist"
begin

text \<open>
  \<open>muduo/TcpConnection.h\<close>, \<open>muduo/TcpConnection.cpp\<close> and \<open>muduo/Callbacks.h\<close>: the state of a
  connection, the four handlers its channel calls, sending, shutting down, and the two calls of
  the server. Connections are shared objects and live in the store \<open>conn_at\<close>; the bytes a
  \<open>std::string\<close> owns live in \<open>bytes_at\<close>, since \<open>send\<close> passes a pointer to them to another
  thread. The closures of the library are the datatype \<open>closure\<close>; what a user callback does is
  the parameter \<open>U\<close>.
\<close>

section \<open>State\<close>

datatype StateE = kDisconnected | kConnecting | kConnected | kDisconnecting

text \<open>The closures made with \<open>std::bind\<close>; \<open>'u\<close> is the type of user callbacks.\<close>

datatype 'u closure =
    LoopHandleRead ptr
  | ConnHandleRead ptr
  | ConnHandleWrite ptr
  | ConnHandleClose ptr
  | ConnHandleError ptr
  | SendInLoop ptr ptr int
  | ShutdownInLoop ptr
  | ConnEstablished ptr
  | ConnDestroyed ptr
  | WriteComplete 'u ptr
  | HighWater 'u ptr size_t
  | OtherClosure 'u

text \<open>A call of a user callback with its arguments.\<close>

datatype 'u user_call =
    OnConnection 'u ptr
  | OnMessage 'u ptr int
  | OnClose 'u ptr
  | OnWriteComplete 'u ptr
  | OnHighWater 'u ptr size_t
  | OnOther 'u

record 'u tcpconn =
  cn_loop :: ptr
  cn_name :: string
  cn_state :: StateE
  sock_fd :: int
  cn_channel :: ptr
  localAddr :: sockaddr_in
  peerAddr :: sockaddr_in
  connectionCallback :: "'u option"
  messageCallback :: "'u option"
  writeCompleteCallback :: "'u option"
  closeCallback :: "'u option"
  highWaterMarkCallback :: "'u option"
  highWaterMark :: size_t
  inputBuffer :: buffer
  outputBuffer :: buffer

record 'u net = "'u closure reactor" +
  conn_at :: "ptr \<Rightarrow> 'u tcpconn option"
  bytes_at :: "ptr \<Rightarrow> byte list option"

definition put_conn :: "ptr \<Rightarrow> 'u tcpconn \<Rightarrow> ('u, 'z) net_scheme \<Rightarrow> ('u, 'z) net_scheme" where
  "put_conn c cn m = m\<lparr>conn_at := (conn_at m)(c \<mapsto> cn)\<rparr>"

definition setState :: "StateE \<Rightarrow> ptr \<Rightarrow> ('u, 'z) net_scheme \<Rightarrow> ('u, 'z) net_scheme result" where
  "setState s c m = bindE (load c (conn_at m)) (\<lambda>cn. Inr (put_conn c (cn\<lparr>cn_state := s\<rparr>) m))"

text \<open>The constructor; \<open>c\<close> and \<open>w\<close> are the addresses of the connection and of its channel.\<close>

definition TcpConnection :: "kernel \<Rightarrow> ptr \<Rightarrow> string \<Rightarrow> int \<Rightarrow> sockaddr_in \<Rightarrow> sockaddr_in
    \<Rightarrow> ptr \<Rightarrow> ptr \<Rightarrow> ('u, 'z) net_scheme \<Rightarrow> ('u, 'z) net_scheme result" where
  "TcpConnection K l name sockfd la pa c w m =
     (if l = 0 then Inl ExitProcess
      else let ch = (Channel l sockfd)\<lparr>readCallBack := Some (ConnHandleRead c),
                  writeCallBack := Some (ConnHandleWrite c), closeCallBack := Some (ConnHandleClose c),
                  errorCallBack := Some (ConnHandleError c)\<rparr>;
               cn = \<lparr>cn_loop = l, cn_name = name, cn_state = kConnecting, sock_fd = sockfd,
                  cn_channel = w, localAddr = la, peerAddr = pa, connectionCallback = None,
                  messageCallback = None, writeCompleteCallback = None, closeCallback = None,
                  highWaterMarkCallback = None, highWaterMark = 64 * 1024 * 1024,
                  inputBuffer = Buffer kInitialSize, outputBuffer = Buffer kInitialSize\<rparr>
      in Inr (setKeepAlive K sockfd True (put_conn c cn (put_chan w ch m))))"

text \<open>
  The destructor, reached when the last \<open>shared_ptr\<close> goes: the assertion, then the members
  \<open>channel_\<close> and \<open>socket_\<close>.
\<close>

definition destroy_TcpConnection :: "kernel \<Rightarrow> ptr \<Rightarrow> ('u, 'z) net_scheme
    \<Rightarrow> ('u, 'z) net_scheme result" where
  "destroy_TcpConnection K c m = bindE (load c (conn_at m)) (\<lambda>cn.
     bindE (load (cn_channel cn) (chan_at m)) (\<lambda>ch.
     bindE (assertE (cn_state cn = kDisconnected) AssertFailed) (\<lambda>_.
     Inr (close_socket K (sock_fd cn) (m\<lparr>chan_at := (chan_at m)(cn_channel cn := None),
            conn_at := (conn_at m)(c := None)\<rparr>)))))"

section \<open>Operations\<close>

text \<open>A call through a \<open>std::function\<close> that the code does not test first.\<close>

definition invoke :: "('u user_call \<Rightarrow> 'm \<Rightarrow> 'm result) \<Rightarrow> ('u \<Rightarrow> 'u user_call) \<Rightarrow> 'u option \<Rightarrow> 'm \<Rightarrow> 'm result"
  where "invoke U f cb m = (case cb of None \<Rightarrow> Inl BadFunctionCall | Some u \<Rightarrow> U (f u) m)"

definition EWOULDBLOCK :: int where "EWOULDBLOCK = 11"
definition EPIPE :: int where "EPIPE = 32"
definition ECONNRESET :: int where "ECONNRESET = 104"

definition shutdownInLoop :: "kernel \<Rightarrow> ptr \<Rightarrow> ('u, 'z) net_scheme \<Rightarrow> ('u, 'z) net_scheme result" where
  "shutdownInLoop K c m = bindE (load c (conn_at m)) (\<lambda>cn.
     bindE (load (cn_channel cn) (chan_at m)) (\<lambda>ch.
     if \<not> isWriting ch then Inr (shutdownWrite K (sock_fd cn) m) else Inr m))"

text \<open>
  \<open>sendInLoop\<close>, in the two halves of the code. \<open>data\<close> are the bytes behind the pointer, \<open>len\<close>
  is an \<open>int\<close>. The first half returns \<open>nwrote\<close>, \<open>remaining\<close> and \<open>faultError\<close>.
\<close>

definition send_direct :: "kernel \<Rightarrow> ptr \<Rightarrow> byte list \<Rightarrow> int \<Rightarrow> ('u, 'z) net_scheme
    \<Rightarrow> ((int \<times> size_t \<times> bool) \<times> ('u, 'z) net_scheme) result" where
  "send_direct K c data len m = bindE (load c (conn_at m)) (\<lambda>cn.
     bindE (load (cn_channel cn) (chan_at m)) (\<lambda>ch.
     if \<not> isWriting ch \<and> readableBytes (outputBuffer cn) = 0
     then let (r, m1) = do_sys K (SysWrite (ch_fd ch) data (unat (word_of_int len :: size_t))) m;
              nwrote = sr_rv r
       in if nwrote \<ge> 0
          then let remaining = word_of_int (len - nwrote)
            in bindE (case writeCompleteCallback cn of
                 Some cb \<Rightarrow> if remaining = 0 then queueInLoop K (cn_loop cn) (WriteComplete cb c) m1 else Inr m1
               | None \<Rightarrow> Inr m1) (\<lambda>m2. Inr ((nwrote, remaining, False), m2))
          else Inr ((0, word_of_int len,
                 sr_errno r \<noteq> EWOULDBLOCK \<and> (sr_errno r = EPIPE \<or> sr_errno r = ECONNRESET)), m1)
     else Inr ((0, word_of_int len, False), m)))"

definition send_buffered :: "kernel \<Rightarrow> ptr \<Rightarrow> byte list \<Rightarrow> int \<Rightarrow> size_t \<Rightarrow> ('u, 'z) net_scheme
    \<Rightarrow> ('u, 'z) net_scheme result" where
  "send_buffered K c data nwrote remaining m = bindE (load c (conn_at m)) (\<lambda>cn.
     let oldLen = readableBytes (outputBuffer cn) in
     bindE (case highWaterMarkCallback cn of
         Some cb \<Rightarrow> if oldLen + remaining \<ge> highWaterMark cn \<and> oldLen < highWaterMark cn
           then queueInLoop K (cn_loop cn) (HighWater cb c (oldLen + remaining)) m else Inr m
       | None \<Rightarrow> Inr m) (\<lambda>m1.
     bindE (append_bytes (drop (nat nwrote) data) remaining (outputBuffer cn)) (\<lambda>b.
     let m2 = put_conn c (cn\<lparr>outputBuffer := b\<rparr>) m1 in
     bindE (load (cn_channel cn) (chan_at m2)) (\<lambda>ch.
     if \<not> isWriting ch then enableWriting K (cn_channel cn) m2 else Inr m2))))"

definition sendInLoop :: "kernel \<Rightarrow> ptr \<Rightarrow> ptr \<Rightarrow> int \<Rightarrow> ('u, 'z) net_scheme
    \<Rightarrow> ('u, 'z) net_scheme result" where
  "sendInLoop K c sp len m = bindE (load c (conn_at m)) (\<lambda>cn.
     if cn_state cn = kDisconnected then Inr m
     else bindE (load sp (bytes_at m)) (\<lambda>data.
       bindE (send_direct K c data len m) (\<lambda>((nwrote, remaining, faultError), m1).
       if \<not> faultError \<and> remaining > 0 then send_buffered K c data nwrote remaining m1 else Inr m1)))"

text \<open>\<open>send\<close>: the size is cut to an \<open>int\<close>, and another thread gets the pointer only.\<close>

definition int_of_size :: "nat \<Rightarrow> int" where
  "int_of_size n = sint (word_of_nat n :: 32 word)"

definition send :: "kernel \<Rightarrow> ptr \<Rightarrow> ptr \<Rightarrow> ('u, 'z) net_scheme \<Rightarrow> ('u, 'z) net_scheme result" where
  "send K c sp m = bindE (load c (conn_at m)) (\<lambda>cn.
     bindE (assertE (cn_state cn = kConnected) AssertFailed) (\<lambda>_.
     bindE (load sp (bytes_at m)) (\<lambda>buf. bindE (load (cn_loop cn) (loop_at m)) (\<lambda>el.
     let len = int_of_size (length buf) in
     if isInLoopthread el m then sendInLoop K c sp len m
     else runInLoop K (\<lambda>_. sendInLoop K c sp len) (cn_loop cn) (SendInLoop c sp len) m))))"

definition shutdown :: "kernel \<Rightarrow> ptr \<Rightarrow> ('u, 'z) net_scheme \<Rightarrow> ('u, 'z) net_scheme result" where
  "shutdown K c m = bindE (load c (conn_at m)) (\<lambda>cn.
     if cn_state cn = kConnected
     then bindE (setState kDisconnecting c m)
            (runInLoop K (\<lambda>_. shutdownInLoop K c) (cn_loop cn) (ShutdownInLoop c))
     else Inr m)"

definition conneectEstableished :: "kernel \<Rightarrow> ('u user_call \<Rightarrow> ('u, 'z) net_scheme \<Rightarrow> ('u, 'z) net_scheme result)
    \<Rightarrow> ptr \<Rightarrow> ('u, 'z) net_scheme \<Rightarrow> ('u, 'z) net_scheme result" where
  "conneectEstableished K U c m = bindE (setState kConnected c m) (\<lambda>m1.
     bindE (load c (conn_at m1)) (\<lambda>cn. bindE (tie c (cn_channel cn) m1) (\<lambda>m2.
     bindE (enableReading K (cn_channel cn) m2) (\<lambda>m3. bindE (load c (conn_at m3)) (\<lambda>cn3.
     invoke U (\<lambda>u. OnConnection u c) (connectionCallback cn3) m3)))))"

definition conneectDestroyed :: "kernel \<Rightarrow> ('u user_call \<Rightarrow> ('u, 'z) net_scheme \<Rightarrow> ('u, 'z) net_scheme result)
    \<Rightarrow> ptr \<Rightarrow> ('u, 'z) net_scheme \<Rightarrow> ('u, 'z) net_scheme result" where
  "conneectDestroyed K U c m = bindE (load c (conn_at m)) (\<lambda>cn.
     bindE (if cn_state cn = kConnected
            then bindE (setState kDisconnected c m) (\<lambda>m1.
              bindE (disableAll K (cn_channel cn) m1) (\<lambda>m2. bindE (load c (conn_at m2)) (\<lambda>cn2.
              invoke U (\<lambda>u. OnConnection u c) (connectionCallback cn2) m2)))
            else Inr m)
     (\<lambda>m3. bindE (load c (conn_at m3)) (\<lambda>cn3. channel_remove K (cn_channel cn3) m3)))"

definition handleClose :: "kernel \<Rightarrow> ('u user_call \<Rightarrow> ('u, 'z) net_scheme \<Rightarrow> ('u, 'z) net_scheme result)
    \<Rightarrow> ptr \<Rightarrow> ('u, 'z) net_scheme \<Rightarrow> ('u, 'z) net_scheme result" where
  "handleClose K U c m = bindE (load c (conn_at m)) (\<lambda>cn.
     bindE (assertE (cn_state cn = kConnected \<or> cn_state cn = kDisconnecting) AssertFailed) (\<lambda>_.
     bindE (setState kDisconnected c m) (\<lambda>m1. bindE (disableAll K (cn_channel cn) m1) (\<lambda>m2.
     bindE (load c (conn_at m2)) (\<lambda>cn2.
     bindE (invoke U (\<lambda>u. OnConnection u c) (connectionCallback cn2) m2) (\<lambda>m3.
     bindE (load c (conn_at m3)) (\<lambda>cn3. invoke U (\<lambda>u. OnClose u c) (closeCallback cn3) m3)))))))"

text \<open>The handler of errors only asks for the error and logs it.\<close>

definition handleError :: "kernel \<Rightarrow> ptr \<Rightarrow> ('u, 'z) net_scheme \<Rightarrow> (int \<times> ('u, 'z) net_scheme) result" where
  "handleError K c m = bindE (load c (conn_at m)) (\<lambda>cn. bindE (load (cn_channel cn) (chan_at m)) (\<lambda>ch.
     let (r, m1) = do_sys K (SysGetsockoptError (ch_fd ch)) m
     in Inr (if sr_rv r < 0 then sr_errno r else sr_value r, m1)))"

text \<open>\<open>extra\<close> is the uninitialised array that \<open>readFd\<close> has on its stack.\<close>

definition conn_handleRead :: "kernel \<Rightarrow> byte list
    \<Rightarrow> ('u user_call \<Rightarrow> ('u, 'z) net_scheme \<Rightarrow> ('u, 'z) net_scheme result)
    \<Rightarrow> ptr \<Rightarrow> int \<Rightarrow> ('u, 'z) net_scheme \<Rightarrow> ('u, 'z) net_scheme result" where
  "conn_handleRead K extra U c receiveTime m = bindE (load c (conn_at m)) (\<lambda>cn.
     bindE (load (cn_channel cn) (chan_at m)) (\<lambda>ch.
     bindE (readFd K extra (ch_fd ch) (inputBuffer cn) 0 m) (\<lambda>(((n, saveErrno), b), m1).
     let m2 = put_conn c (cn\<lparr>inputBuffer := b\<rparr>) m1 in
     if n > 0 then invoke U (\<lambda>u. OnMessage u c receiveTime) (messageCallback cn) m2
     else if n = 0 then handleClose K U c m2
     else bindE (handleError K c m2) (\<lambda>(err, m3). Inr m3))))"

definition handleWrite :: "kernel \<Rightarrow> ptr \<Rightarrow> ('u, 'z) net_scheme \<Rightarrow> ('u, 'z) net_scheme result" where
  "handleWrite K c m = bindE (load c (conn_at m)) (\<lambda>cn.
     bindE (load (cn_channel cn) (chan_at m)) (\<lambda>ch.
     if isWriting ch
     then let ((n, saveErrno), m1) = writeFd K (ch_fd ch) (outputBuffer cn) 0 m
       in if n > 0
          then let b = retrieve (word_of_int n) (outputBuffer cn);
                   m2 = put_conn c (cn\<lparr>outputBuffer := b\<rparr>) m1
            in if readableBytes b = 0
               then bindE (disableWriting K (cn_channel cn) m2) (\<lambda>m3.
                 bindE (case writeCompleteCallback cn of
                     Some cb \<Rightarrow> queueInLoop K (cn_loop cn) (WriteComplete cb c) m3
                   | None \<Rightarrow> Inr m3) (\<lambda>m4.
                 if cn_state cn = kDisconnecting then shutdownInLoop K c m4 else Inr m4))
               else Inr m2
          else Inr m1
     else Inr m))"

text \<open>Setters.\<close>

definition with_conn :: "('u tcpconn \<Rightarrow> 'u tcpconn) \<Rightarrow> ptr \<Rightarrow> ('u, 'z) net_scheme
    \<Rightarrow> ('u, 'z) net_scheme result" where
  "with_conn f c m = bindE (load c (conn_at m)) (\<lambda>cn. Inr (put_conn c (f cn) m))"

definition setConnectionCallback :: "'u option \<Rightarrow> ptr \<Rightarrow> ('u, 'z) net_scheme \<Rightarrow> ('u, 'z) net_scheme result"
  where "setConnectionCallback cb = with_conn (connectionCallback_update (\<lambda>_. cb))"
definition setMessageCallback :: "'u option \<Rightarrow> ptr \<Rightarrow> ('u, 'z) net_scheme \<Rightarrow> ('u, 'z) net_scheme result"
  where "setMessageCallback cb = with_conn (messageCallback_update (\<lambda>_. cb))"
definition setWriteCompleteCallback :: "'u option \<Rightarrow> ptr \<Rightarrow> ('u, 'z) net_scheme \<Rightarrow> ('u, 'z) net_scheme result"
  where "setWriteCompleteCallback cb = with_conn (writeCompleteCallback_update (\<lambda>_. cb))"
definition setCloseCallback :: "'u option \<Rightarrow> ptr \<Rightarrow> ('u, 'z) net_scheme \<Rightarrow> ('u, 'z) net_scheme result"
  where "setCloseCallback cb = with_conn (closeCallback_update (\<lambda>_. cb))"
definition setHighWaterMarkCallback :: "'u option \<Rightarrow> size_t \<Rightarrow> ptr \<Rightarrow> ('u, 'z) net_scheme
    \<Rightarrow> ('u, 'z) net_scheme result" where
  "setHighWaterMarkCallback cb mark =
     with_conn (\<lambda>cn. cn\<lparr>highWaterMarkCallback := cb, highWaterMark := mark\<rparr>)"

section \<open>Running the closures of the library\<close>

text \<open>What a channel calls (\<open>run\<close>) and what the loop's queue calls (\<open>call\<close>).\<close>

definition alive :: "ptr \<Rightarrow> ('u, 'z) net_scheme \<Rightarrow> bool" where
  "alive c m \<longleftrightarrow> conn_at m c \<noteq> None"

fun run_closure :: "kernel \<Rightarrow> byte list \<Rightarrow> ('u user_call \<Rightarrow> ('u, 'z) net_scheme \<Rightarrow> ('u, 'z) net_scheme result)
    \<Rightarrow> 'u closure \<Rightarrow> int \<Rightarrow> ('u, 'z) net_scheme \<Rightarrow> ('u, 'z) net_scheme result" where
  "run_closure K extra U (LoopHandleRead l) t m = handleRead K l m"
| "run_closure K extra U (ConnHandleRead c) t m = conn_handleRead K extra U c t m"
| "run_closure K extra U (ConnHandleWrite c) t m = handleWrite K c m"
| "run_closure K extra U (ConnHandleClose c) t m = handleClose K U c m"
| "run_closure K extra U (ConnHandleError c) t m = bindE (handleError K c m) (\<lambda>(e, m1). Inr m1)"
| "run_closure K extra U (SendInLoop c sp len) t m = sendInLoop K c sp len m"
| "run_closure K extra U (ShutdownInLoop c) t m = shutdownInLoop K c m"
| "run_closure K extra U (ConnEstablished c) t m = conneectEstableished K U c m"
| "run_closure K extra U (ConnDestroyed c) t m = conneectDestroyed K U c m"
| "run_closure K extra U (WriteComplete u c) t m = U (OnWriteComplete u c) m"
| "run_closure K extra U (HighWater u c n) t m = U (OnHighWater u c n) m"
| "run_closure K extra U (OtherClosure u) t m = U (OnOther u) m"

section \<open>A connection in its loop\<close>

lemma net_keeps [simp]:
  "conn_at (put_chan a ch m) = conn_at m" "conn_at (put_poller p po m) = conn_at m"
  "conn_at (put_loop l el m) = conn_at m" "conn_at (log_sys call r m) = conn_at m"
  "bytes_at (put_chan a ch m) = bytes_at m" "bytes_at (put_poller p po m) = bytes_at m"
  "bytes_at (put_loop l el m) = bytes_at m" "bytes_at (log_sys call r m) = bytes_at m"
  by (simp_all add: put_chan_def put_poller_def put_loop_def log_sys_def)

lemma put_conn_simps [simp]:
  "conn_at (put_conn c cn m) = (conn_at m)(c \<mapsto> cn)" "bytes_at (put_conn c cn m) = bytes_at m"
  "chan_at (put_conn c cn m) = chan_at m" "poller_at (put_conn c cn m) = poller_at m"
  "trace (put_conn c cn m) = trace m" "loop_at (put_conn c cn m) = loop_at m"
  "cur_tid (put_conn c cn m) = cur_tid m"
  by (simp_all add: put_conn_def)

lemma net_more_keeps [simp]:
  "net.more (put_chan a ch m) = net.more m" "net.more (put_poller p po m) = net.more m"
  "net.more (put_loop l el m) = net.more m" "net.more (log_sys call r m) = net.more m"
  "net.more (put_conn c cn m) = net.more m"
  by (simp_all add: put_chan_def put_poller_def put_loop_def log_sys_def put_conn_def)

lemma poller_inv_cong:
  "chan_at m' = chan_at m \<Longrightarrow> poller_at m' = poller_at m \<Longrightarrow> trace m' = trace m
    \<Longrightarrow> poller_inv p m' = poller_inv p m"
  by (simp add: poller_inv_def)

lemma usable_cong:
  "chan_at m' = chan_at m \<Longrightarrow> poller_at m' = poller_at m \<Longrightarrow> usable p c m' = usable p c m"
  by (simp add: usable_def)

lemma poller_inv_keeps [simp]:
  "poller_inv p (put_loop l el m) = poller_inv p m" "poller_inv p (put_conn c cn m) = poller_inv p m"
  "poller_inv p (m\<lparr>bytes_at := b\<rparr>) = poller_inv p m"
  by (simp_all add: poller_inv_def)

lemma usable_keeps [simp]:
  "usable p w (put_loop l el m) = usable p w m" "usable p w (put_conn c cn m) = usable p w m"
  "usable p w (m\<lparr>bytes_at := b\<rparr>) = usable p w m" "usable p w (log_sys call r m) = usable p w m"
  by (simp_all add: usable_def)

text \<open>Calls that are not \<open>epoll_ctl\<close> do not concern the poller.\<close>

lemma poller_inv_other_calls [simp]:
  "poller_inv p (log_sys (SysWrite fd d n) r m) = poller_inv p m"
  "poller_inv p (log_sys (SysRecv fd n) r m) = poller_inv p m"
  "poller_inv p (log_sys (SysShutdownWrite fd) r m) = poller_inv p m"
  "poller_inv p (log_sys (SysSetsockopt fd opt v) r m) = poller_inv p m"
  "poller_inv p (log_sys (SysGetsockname fd) r m) = poller_inv p m"
  "poller_inv p (log_sys (SysAccept fd len) r m) = poller_inv p m"
  by (simp_all add: poller_inv_def registry_ok_def)

text \<open>
  The connection \<open>c\<close> is \<open>cn\<close>, its channel is \<open>ch\<close>, both belong to a loop whose poller is in
  order, the socket is not the loop's wake-up descriptor, and the loop's thread is running.
\<close>

definition conn_ok :: "ptr \<Rightarrow> 'u tcpconn \<Rightarrow> 'u closure channel \<Rightarrow> ('u, 'z) net_scheme \<Rightarrow> bool" where
  "conn_ok c cn ch m \<longleftrightarrow> c \<noteq> 0 \<and> conn_at m c = Some cn \<and> chan_at m (cn_channel cn) = Some ch
     \<and> cn_channel cn \<noteq> 0 \<and> ch_loop ch = cn_loop cn \<and> ch_fd ch = sock_fd cn \<and> cn_loop cn \<noteq> 0
     \<and> buffer_inv (outputBuffer cn)
     \<and> (\<exists>el. loop_at m (cn_loop cn) = Some el \<and> weakupFd el \<noteq> sock_fd cn
          \<and> threadId el = cur_tid m
          \<and> poller_inv (el_poller el) m \<and> usable (el_poller el) (cn_channel cn) m)"

lemma conn_okD:
  assumes "conn_ok c cn ch m"
  shows "c \<noteq> 0" "conn_at m c = Some cn" "chan_at m (cn_channel cn) = Some ch" "cn_channel cn \<noteq> 0"
    "ch_loop ch = cn_loop cn" "ch_fd ch = sock_fd cn" "cn_loop cn \<noteq> 0" "buffer_inv (outputBuffer cn)"
  using assms by (auto simp: conn_ok_def)

lemma conn_ok_loop:
  assumes "conn_ok c cn ch m"
  obtains el where "loop_at m (cn_loop cn) = Some el" "weakupFd el \<noteq> sock_fd cn"
    "poller_inv (el_poller el) m" "usable (el_poller el) (cn_channel cn) m"
    "threadId el = cur_tid m"
  using assms by (auto simp: conn_ok_def)

lemma conn_loads [simp]:
  assumes "conn_ok c cn ch m"
  shows "load c (conn_at m) = Inr cn" "load (cn_channel cn) (chan_at m) = Inr ch"
  using conn_okD [OF assms] by simp_all

lemma conn_ok_write [simp]:
  "conn_ok c cn ch (log_sys (SysWrite fd d n) r m) = conn_ok c cn ch m"
  "conn_ok c cn ch (log_sys (SysShutdownWrite fd) r m) = conn_ok c cn ch m"
  "conn_ok c cn ch (m\<lparr>bytes_at := b\<rparr>) = conn_ok c cn ch m"
  by (simp_all add: conn_ok_def)

lemma conn_ok_put:
  assumes "conn_ok c cn ch m" and "buffer_inv (outputBuffer cn')" and "cn_channel cn' = cn_channel cn"
    and "cn_loop cn' = cn_loop cn" and "sock_fd cn' = sock_fd cn"
  shows "conn_ok c cn' ch (put_conn c cn' m)"
  using assms by (auto simp: conn_ok_def)

lemma watched_keeps [simp]:
  "watched p (put_loop l el m) w = watched p m w" "watched p (put_conn c cn m) w = watched p m w"
  "watched p (log_sys (SysWrite fd d n) r m) w = watched p m w"
  "watched p (log_sys (SysShutdownWrite fd) r m) w = watched p m w"
  by (simp_all add: watched_def split: option.split)

lemma pending_keeps [simp]:
  "pending_of l (put_conn c cn m) = pending_of l m" "pending_of l (log_sys call r m) = pending_of l m"
  "pending_of l (put_chan a ch m) = pending_of l m" "pending_of l (m\<lparr>bytes_at := b\<rparr>) = pending_of l m"
  by (simp_all add: pending_of_def)

text \<open>The strings whose \<open>write\<close> on a descriptor failed because the peer is gone; the code drops them.\<close>

fun refused_by :: "int \<Rightarrow> syscall \<times> sysret \<Rightarrow> byte list list" where
  "refused_by fd (SysWrite fd' d n, r)
    = (if fd' = fd \<and> sr_rv r < 0 \<and> (sr_errno r = EPIPE \<or> sr_errno r = ECONNRESET) then [d] else [])"
| "refused_by fd (_, r) = []"

definition refused :: "int \<Rightarrow> history \<Rightarrow> byte list list" where
  "refused fd tr = concat (map (refused_by fd) tr)"

lemma refused_simps [simp]:
  "refused fd [] = []" "refused fd (tr @ tr') = refused fd tr @ refused fd tr'" "refused fd [x] = refused_by fd x"
  by (simp_all add: refused_def)

lemma queueInLoop_conn:
  assumes "conn_ok c cn ch m"
  shows "\<exists>m'. queueInLoop K (cn_loop cn) f m = Inr m' \<and> conn_ok c cn ch m'
    \<and> conn_at m' = conn_at m \<and> bytes_at m' = bytes_at m \<and> chan_at m' = chan_at m
    \<and> wire (sock_fd cn) (trace m') = wire (sock_fd cn) (trace m)
    \<and> pending_of (cn_loop cn) m' = pending_of (cn_loop cn) m @ [f]
    \<and> (\<forall>p w. watched p m' w = watched p m w)
    \<and> refused (sock_fd cn) (trace m') = refused (sock_fd cn) (trace m)"
proof -
  note d = conn_okD [OF assms]
  from conn_ok_loop [OF assms] obtain el where el: "loop_at m (cn_loop cn) = Some el"
    "weakupFd el \<noteq> sock_fd cn" "poller_inv (el_poller el) m" "usable (el_poller el) (cn_channel cn) m"
    "threadId el = cur_tid m" .
  show ?thesis
    unfolding queueInLoop_eq [OF d(7) el(1)]
    using d el by (simp add: Let_def conn_ok_def pending_of_def)
qed

lemma change_events_conn:
  assumes "conn_ok c cn ch m" and K: "ctl_documented K"
  shows "\<exists>m' i. change_events f K (cn_channel cn) m = Inr m'
    \<and> conn_ok c cn (ch\<lparr>ch_events := f (ch_events ch), ch_index := i\<rparr>) m'
    \<and> conn_at m' = conn_at m \<and> bytes_at m' = bytes_at m \<and> loop_at m' = loop_at m \<and> cur_tid m' = cur_tid m
    \<and> net.more m' = net.more m
    \<and> wire (sock_fd cn) (trace m') = wire (sock_fd cn) (trace m)
    \<and> pending_of (cn_loop cn) m' = pending_of (cn_loop cn) m
    \<and> (\<forall>el. loop_at m (cn_loop cn) = Some el \<longrightarrow>
        (registered (el_poller el) m' (cn_channel cn), watched (el_poller el) m' (cn_channel cn))
        = demux_spec (Watch (f (ch_events ch)))
            (registered (el_poller el) m (cn_channel cn), watched (el_poller el) m (cn_channel cn)))
    \<and> refused (sock_fd cn) (trace m') = refused (sock_fd cn) (trace m)"
proof -
  note d = conn_okD [OF assms(1)]
  from conn_ok_loop [OF assms(1)] obtain el where el: "loop_at m (cn_loop cn) = Some el"
    "weakupFd el \<noteq> sock_fd cn" "poller_inv (el_poller el) m" "usable (el_poller el) (cn_channel cn) m"
    "threadId el = cur_tid m" .
  have eq: "change_events f K (cn_channel cn) m
      = watch K (el_poller el) (f (ch_events ch)) (cn_channel cn) m"
    using d el by (intro change_events_watch) simp_all
  from watch_shape [OF K el(3,4) d(3), of "f (ch_events ch)"] obtain po po' :: poller and opn ev r i where
    "watch K (el_poller el) (f (ch_events ch)) (cn_channel cn) m
      = Inr (log_sys (SysEpollCtl (po_epfd po) opn (ch_fd ch) ev) r
          (put_chan (cn_channel cn) (ch\<lparr>ch_events := f (ch_events ch), ch_index := i\<rparr>)
            (put_poller (el_poller el) po' m)))"
    by blast
  then obtain m' where m': "watch K (el_poller el) (f (ch_events ch)) (cn_channel cn) m = Inr m'"
    "chan_at m' = (chan_at m)(cn_channel cn \<mapsto> ch\<lparr>ch_events := f (ch_events ch), ch_index := i\<rparr>)"
    "conn_at m' = conn_at m" "bytes_at m' = bytes_at m" "loop_at m' = loop_at m" "cur_tid m' = cur_tid m"
    "net.more m' = net.more m"
    "trace m' = trace m @ [(SysEpollCtl (po_epfd po) opn (ch_fd ch) ev, r)]"
    by (simp del: machine_order)
  from watch_move [OF K el(3,4), of "f (ch_events ch)"] m'(1) have mv:
    "poller_inv (el_poller el) m'" "usable (el_poller el) (cn_channel cn) m'"
    "(registered (el_poller el) m' (cn_channel cn), watched (el_poller el) m' (cn_channel cn))
      = demux_spec (Watch (f (ch_events ch)))
          (registered (el_poller el) m (cn_channel cn), watched (el_poller el) m (cn_channel cn))"
    by auto
  have "conn_ok c cn (ch\<lparr>ch_events := f (ch_events ch), ch_index := i\<rparr>) m'"
    using d el m' mv by (simp add: conn_ok_def)
  then show ?thesis
    unfolding eq using m' mv el(1) by (intro exI [of _ m'] exI [of _ i]) (simp add: pending_of_def)
qed

section \<open>Sending\<close>

lemma unat_zero_contents:
  "buffer_inv b \<Longrightarrow> readableBytes b = 0 \<longleftrightarrow> contents b = []"
  using length_contents [of b] by (metis length_0_conv unat_eq_zero)

lemma send_direct_conn:
  assumes ok: "conn_ok c cn ch m" and K: "write_documented K" and len: "length data < 2 ^ 31"
  shows "\<exists>nw rem flt m'. send_direct K c data (int (length data)) m = Inr ((int nw, rem, flt), m')
    \<and> nw \<le> length data \<and> unat rem = length data - nw \<and> conn_ok c cn ch m'
    \<and> conn_at m' = conn_at m \<and> bytes_at m' = bytes_at m
    \<and> wire (sock_fd cn) (trace m') = wire (sock_fd cn) (trace m) @ take nw data
    \<and> (contents (outputBuffer cn) = [] \<or> nw = 0)
    \<and> (isWriting ch \<longrightarrow> nw = 0 \<and> m' = m \<and> \<not> flt) \<and> (flt \<longrightarrow> nw = 0 \<and> contents (outputBuffer cn) = [])
    \<and> refused (sock_fd cn) (trace m') = refused (sock_fd cn) (trace m) @ (if flt then [data] else [])"
proof (cases "\<not> isWriting ch \<and> readableBytes (outputBuffer cn) = 0")
  case False
  have "unat (word_of_int (int (length data)) :: size_t) = length data"
    using len by (simp add: unat_of_nat_size)
  moreover have "send_direct K c data (int (length data)) m
      = Inr ((int 0, word_of_int (int (length data)), False), m)"
    using False ok by (auto simp: send_direct_def)
  ultimately show ?thesis
    using ok by (intro exI [of _ 0] exI [of _ "word_of_int (int (length data))"] exI [of _ False] exI [of _ m]) simp
next
  case True
  have empty: "contents (outputBuffer cn) = []"
    using True conn_okD(8) [OF ok] unat_zero_contents by blast
  have n: "unat (word_of_int (int (length data)) :: size_t) = length data"
    using len by (simp add: unat_of_nat_size)
  let ?call = "SysWrite (sock_fd cn) data (length data)"
  define r where "r = K (trace m) ?call"
  define m1 where "m1 = log_sys ?call r m"
  have ok1: "conn_ok c cn ch m1" "conn_at m1 = conn_at m" "bytes_at m1 = bytes_at m"
    "wire (sock_fd cn) (trace m1) = wire (sock_fd cn) (trace m) @ take (nat (sr_rv r)) data"
    "refused (sock_fd cn) (trace m1) = refused (sock_fd cn) (trace m)
      @ (if sr_rv r < 0 \<and> (sr_errno r = EPIPE \<or> sr_errno r = ECONNRESET) then [data] else [])"
    using ok by (simp_all add: m1_def)
  have bound: "sr_rv r \<le> int (length data)"
    unfolding r_def by (rule write_documentedD [OF K])
  show ?thesis
  proof (cases "sr_rv r < 0")
    case neg: True
    have err: "(sr_errno r \<noteq> EWOULDBLOCK \<and> (sr_errno r = EPIPE \<or> sr_errno r = ECONNRESET))
        = (sr_errno r = EPIPE \<or> sr_errno r = ECONNRESET)"
      by (auto simp: EWOULDBLOCK_def EPIPE_def ECONNRESET_def)
    from neg True ok ok1 n empty show ?thesis
      by (intro exI [of _ 0] exI [of _ "word_of_int (int (length data))"]
          exI [of _ "sr_errno r = EPIPE \<or> sr_errno r = ECONNRESET"] exI [of _ m1])
        (simp add: send_direct_def do_sys_log Let_def conn_okD(6) [OF ok] r_def [symmetric] m1_def [symmetric] err)
  next
    case False
    define rem :: size_t where "rem = word_of_int (int (length data) - sr_rv r)"
    have rem: "unat rem = length data - nat (sr_rv r)"
      using False bound len by (simp add: rem_def unat_of_int_size nat_diff_distrib del: of_int_diff)
    obtain m2 where m2: "(case writeCompleteCallback cn of
          Some cb \<Rightarrow> if rem = 0 then queueInLoop K (cn_loop cn) (WriteComplete cb c) m1 else Inr m1
        | None \<Rightarrow> Inr m1) = Inr m2" "conn_ok c cn ch m2" "conn_at m2 = conn_at m1"
      "bytes_at m2 = bytes_at m1" "wire (sock_fd cn) (trace m2) = wire (sock_fd cn) (trace m1)"
      "refused (sock_fd cn) (trace m2) = refused (sock_fd cn) (trace m1)"
    proof (cases "writeCompleteCallback cn \<noteq> None \<and> rem = 0")
      case True
      then obtain cb where "writeCompleteCallback cn = Some cb" "rem = 0" by auto
      with that queueInLoop_conn [OF ok1(1), of K "WriteComplete cb c"] show thesis by auto
    next
      case False
      then have "(case writeCompleteCallback cn of
          Some cb \<Rightarrow> if rem = 0 then queueInLoop K (cn_loop cn) (WriteComplete cb c) m1 else Inr m1
        | None \<Rightarrow> Inr m1) = Inr m1" by (auto split: option.splits)
      with that ok1(1) show thesis by simp
    qed
    have "send_direct K c data (int (length data)) m = Inr ((sr_rv r, rem, False), m2)"
      using False True ok n m2(1)
      by (simp add: send_direct_def do_sys_log Let_def conn_okD(6) [OF ok] r_def [symmetric]
          m1_def [symmetric] rem_def [symmetric] del: of_int_diff)
    then show ?thesis
      using False bound rem m2 ok1 empty True
      by (intro exI [of _ "nat (sr_rv r)"] exI [of _ rem] exI [of _ False] exI [of _ m2]) simp
  qed
qed

lemma send_buffered_conn:
  assumes ok: "conn_ok c cn ch m" and K: "ctl_documented K"
    and nw: "nw \<le> length data" "unat rem = length data - nw"
    and room: "buf_used (outputBuffer cn) + unat rem \<le> vec_max_size"
  shows "\<exists>m' b ch'. send_buffered K c data (int nw) rem m = Inr m'
    \<and> conn_ok c (cn\<lparr>outputBuffer := b\<rparr>) ch' m'
    \<and> contents b = contents (outputBuffer cn) @ drop nw data
    \<and> buf_used b \<le> buf_used (outputBuffer cn) + unat rem
    \<and> wire (sock_fd cn) (trace m') = wire (sock_fd cn) (trace m)
    \<and> (isWriting ch \<longrightarrow> ch' = ch \<and> (\<forall>p. watched p m' (cn_channel cn) = watched p m (cn_channel cn))
        \<and> pending_of (cn_loop cn) m' = pending_of (cn_loop cn) m
            @ (case highWaterMarkCallback cn of None \<Rightarrow> []
               | Some cb \<Rightarrow> if readableBytes (outputBuffer cn) < highWaterMark cn
                     \<and> highWaterMark cn \<le> readableBytes (outputBuffer cn) + rem
                   then [HighWater cb c (readableBytes (outputBuffer cn) + rem)] else []))
    \<and> refused (sock_fd cn) (trace m') = refused (sock_fd cn) (trace m)"
proof -
  note d = conn_okD [OF ok]
  let ?old = "readableBytes (outputBuffer cn)"
  let ?hw = "case highWaterMarkCallback cn of
      Some cb \<Rightarrow> if ?old + rem \<ge> highWaterMark cn \<and> ?old < highWaterMark cn
        then queueInLoop K (cn_loop cn) (HighWater cb c (?old + rem)) m else Inr m
    | None \<Rightarrow> Inr m"
  let ?queued = "case highWaterMarkCallback cn of None \<Rightarrow> []
      | Some cb \<Rightarrow> if ?old < highWaterMark cn \<and> highWaterMark cn \<le> ?old + rem
          then [HighWater cb c (?old + rem)] else []"
  obtain m1 where m1: "?hw = Inr m1" "conn_ok c cn ch m1"
    "wire (sock_fd cn) (trace m1) = wire (sock_fd cn) (trace m)"
    "pending_of (cn_loop cn) m1 = pending_of (cn_loop cn) m @ ?queued"
    "\<forall>p w. watched p m1 w = watched p m w" "refused (sock_fd cn) (trace m1) = refused (sock_fd cn) (trace m)"
  proof (cases "\<exists>cb. highWaterMarkCallback cn = Some cb \<and> ?old < highWaterMark cn
      \<and> highWaterMark cn \<le> ?old + rem")
    case True
    then obtain cb where "highWaterMarkCallback cn = Some cb" "?old < highWaterMark cn"
      "highWaterMark cn \<le> ?old + rem" by blast
    with that queueInLoop_conn [OF ok, of K "HighWater cb c (?old + rem)"] show thesis by auto
  next
    case False
    then have "?hw = Inr m" "?queued = []" by (auto split: option.splits)
    with that ok show thesis by simp
  qed
  have "unat rem \<le> length (drop (nat (int nw)) data)" using nw by simp
  with append_bytes_props [of "outputBuffer cn" rem "drop (nat (int nw)) data"] d(8) room nw
  obtain b where b: "append_bytes (drop nw data) rem (outputBuffer cn) = Inr b" "buffer_inv b"
    "contents b = contents (outputBuffer cn) @ drop nw data"
    "buf_used b \<le> buf_used (outputBuffer cn) + unat rem"
    by (auto simp: buf_used_def)
  let ?cn = "cn\<lparr>outputBuffer := b\<rparr>"
  let ?m2 = "put_conn c ?cn m1"
  have ok2: "conn_ok c ?cn ch ?m2" using m1(2) b(2) by (intro conn_ok_put) simp_all
  note ch2 = conn_loads(2) [OF ok2, simplified]
  show ?thesis
  proof (cases "isWriting ch")
    case True
    have "send_buffered K c data (int nw) rem m = Inr ?m2"
      using ok m1(1) b(1) ch2 True by (simp add: send_buffered_def Let_def)
    with ok2 b m1 True show ?thesis by (intro exI [of _ ?m2] exI [of _ b] exI [of _ ch]) simp
  next
    case False
    from change_events_conn [OF ok2 K, of enableWriting_ev] obtain m3 i where
      m3: "enableWriting K (cn_channel cn) ?m2 = Inr m3"
        "conn_ok c ?cn (ch\<lparr>ch_events := enableWriting_ev (ch_events ch), ch_index := i\<rparr>) m3"
        "wire (sock_fd cn) (trace m3) = wire (sock_fd cn) (trace m1)"
        "refused (sock_fd cn) (trace m3) = refused (sock_fd cn) (trace m1)"
      unfolding enableWriting_def by auto
    have "send_buffered K c data (int nw) rem m = Inr m3"
      using ok m1(1) b(1) ch2 False m3(1) by (simp add: send_buffered_def Let_def)
    with m3 b m1(3,6) False show ?thesis
      by (intro exI [of _ m3] exI [of _ b]
          exI [of _ "ch\<lparr>ch_events := enableWriting_ev (ch_events ch), ch_index := i\<rparr>"]) simp
  qed
qed

lemma sendInLoop_conn:
  assumes ok: "conn_ok c cn ch m" and K: "ctl_documented K" "write_documented K"
    and st: "cn_state cn \<noteq> kDisconnected" and sp: "sp \<noteq> 0" "bytes_at m sp = Some data"
    and len: "length data < 2 ^ 31"
    and room: "buf_used (outputBuffer cn) + length data \<le> vec_max_size"
  shows "\<exists>m' b ch' flt. sendInLoop K c sp (int (length data)) m = Inr m'
    \<and> conn_ok c (cn\<lparr>outputBuffer := b\<rparr>) ch' m'
    \<and> wire (sock_fd cn) (trace m') @ contents b
      = (wire (sock_fd cn) (trace m) @ contents (outputBuffer cn)) @ (if flt then [] else data)
    \<and> buf_used b \<le> buf_used (outputBuffer cn) + length data
    \<and> (isWriting ch \<longrightarrow> ch' = ch \<and> wire (sock_fd cn) (trace m') = wire (sock_fd cn) (trace m)
        \<and> (\<forall>p. watched p m' (cn_channel cn) = watched p m (cn_channel cn)) \<and> \<not> flt)
    \<and> refused (sock_fd cn) (trace m') = refused (sock_fd cn) (trace m) @ (if flt then [data] else [])"
proof -
  from send_direct_conn [OF ok K(2) len] obtain nw rem flt m1 where
    m1: "send_direct K c data (int (length data)) m = Inr ((int nw, rem, flt), m1)"
      "nw \<le> length data" "unat rem = length data - nw" "conn_ok c cn ch m1"
      "wire (sock_fd cn) (trace m1) = wire (sock_fd cn) (trace m) @ take nw data"
      "contents (outputBuffer cn) = [] \<or> nw = 0" "isWriting ch \<longrightarrow> nw = 0 \<and> m1 = m \<and> \<not> flt"
      "flt \<longrightarrow> nw = 0 \<and> contents (outputBuffer cn) = []"
      "refused (sock_fd cn) (trace m1) = refused (sock_fd cn) (trace m) @ (if flt then [data] else [])" by blast
  have eq: "sendInLoop K c sp (int (length data)) m
      = (if \<not> flt \<and> rem > 0 then send_buffered K c data (int nw) rem m1 else Inr m1)"
    using ok st sp m1(1) by (simp add: sendInLoop_def)
  show ?thesis
  proof (cases "\<not> flt \<and> rem > 0")
    case True
    have "buf_used (outputBuffer cn) + unat rem \<le> vec_max_size" using room m1(3) by simp
    from send_buffered_conn [OF m1(4) K(1) m1(2,3) this] obtain m' b ch' where
      m': "send_buffered K c data (int nw) rem m1 = Inr m'" "conn_ok c (cn\<lparr>outputBuffer := b\<rparr>) ch' m'"
        "contents b = contents (outputBuffer cn) @ drop nw data"
        "buf_used b \<le> buf_used (outputBuffer cn) + unat rem"
        "wire (sock_fd cn) (trace m') = wire (sock_fd cn) (trace m1)"
        "isWriting ch \<longrightarrow> ch' = ch \<and> (\<forall>p. watched p m' (cn_channel cn) = watched p m1 (cn_channel cn))"
        "refused (sock_fd cn) (trace m') = refused (sock_fd cn) (trace m1)"
      by blast
    have "take nw data @ contents b = contents (outputBuffer cn) @ data"
      using m'(3) m1(6) by auto
    with eq True m' m1(3,5,7,9) show ?thesis
      by (intro exI [of _ m'] exI [of _ b] exI [of _ ch'] exI [of _ False]) auto
  next
    case False
    then have "\<not> flt \<longrightarrow> nw = length data" using m1(2,3) by (auto simp: word_gt_0)
    with eq False m1 show ?thesis
      by (intro exI [of _ m1] exI [of _ "outputBuffer cn"] exI [of _ ch] exI [of _ flt]) auto
  qed
qed

lemma shutdownInLoop_conn:
  assumes "conn_ok c cn ch m"
  shows "shutdownInLoop K c m = Inr (if isWriting ch then m
    else log_sys (SysShutdownWrite (sock_fd cn)) (K (trace m) (SysShutdownWrite (sock_fd cn))) m)"
  using assms by (simp add: shutdownInLoop_def shutdownWrite_def do_sys_log)

lemma handleWrite_conn:
  assumes ok: "conn_ok c cn ch m" and K: "ctl_documented K" "write_documented K"
  shows "\<exists>m' b ch'. handleWrite K c m = Inr m' \<and> conn_ok c (cn\<lparr>outputBuffer := b\<rparr>) ch' m'
    \<and> wire (sock_fd cn) (trace m') @ contents b
      = wire (sock_fd cn) (trace m) @ contents (outputBuffer cn)
    \<and> buf_used b \<le> buf_used (outputBuffer cn)
    \<and> (isWriting ch \<and> contents (outputBuffer cn) \<noteq> [] \<and> contents b = [] \<longrightarrow>
        \<not> isWriting ch'
        \<and> pending_of (cn_loop cn) m' = pending_of (cn_loop cn) m
            @ (case writeCompleteCallback cn of None \<Rightarrow> [] | Some u \<Rightarrow> [WriteComplete u c])
        \<and> (cn_state cn = kDisconnecting \<longrightarrow> fst (last (trace m')) = SysShutdownWrite (sock_fd cn)))
    \<and> (\<exists>fs. refused (sock_fd cn) (trace m') = refused (sock_fd cn) (trace m) @ fs)"
proof (cases "isWriting ch")
  case False
  with ok show ?thesis
    by (intro exI [of _ m] exI [of _ "outputBuffer cn"] exI [of _ ch]) (simp add: handleWrite_def)
next
  case writing: True
  note d = conn_okD [OF ok]
  obtain n e m1 where w: "writeFd K (sock_fd cn) (outputBuffer cn) 0 m = ((n, e), m1)"
    by (metis prod.collapse)
  note stream = writeFd_stream [OF d(8) w]
  have m1: "m1 = log_sys (SysWrite (sock_fd cn) (contents (outputBuffer cn))
        (length (contents (outputBuffer cn)))) (K (trace m) (SysWrite (sock_fd cn)
        (contents (outputBuffer cn)) (length (contents (outputBuffer cn))))) m"
    using w by (simp add: writeFd_def do_sys_log Let_def readable_slice_contents [OF d(8)]
        length_contents [OF d(8), symmetric])
  then have ok1: "conn_ok c cn ch m1" using ok by simp
  have ref: "\<exists>fs. refused (sock_fd cn) (trace m1) = refused (sock_fd cn) (trace m) @ fs"
    by (simp add: m1)
  show ?thesis
  proof (cases "n > 0")
    case False
    with w ok writing d(6) have "handleWrite K c m = Inr m1" by (simp add: handleWrite_def)
    with ok1 stream(1) False ref show ?thesis
      by (intro exI [of _ m1] exI [of _ "outputBuffer cn"] exI [of _ ch]) simp
  next
    case pos: True
    define b where "b = retrieve (word_of_int n) (outputBuffer cn)"
    define m2 where "m2 = put_conn c (cn\<lparr>outputBuffer := b\<rparr>) m1"
    have b: "buffer_inv b" "buf_used b \<le> buf_used (outputBuffer cn)"
      using retrieve_inv [OF d(8)] retrieve_used [OF d(8)] by (simp_all add: b_def)
    have ok2: "conn_ok c (cn\<lparr>outputBuffer := b\<rparr>) ch m2"
      unfolding m2_def using ok1 b(1) by (intro conn_ok_put) simp_all
    have st: "wire (sock_fd cn) (trace m2) @ contents b
        = wire (sock_fd cn) (trace m) @ contents (outputBuffer cn)"
      using drain_step(1) [OF d(8) K(2) w pos] by (simp add: m2_def b_def)
    show ?thesis
    proof (cases "readableBytes b = 0")
      case False
      with w ok writing d(6) pos have "handleWrite K c m = Inr m2"
        by (simp add: handleWrite_def Let_def b_def m2_def)
      moreover have "contents b \<noteq> []" using False unat_zero_contents [OF b(1)] by simp
      ultimately show ?thesis
        using ok2 st b(2) ref by (intro exI [of _ m2] exI [of _ b] exI [of _ ch]) (simp add: m2_def)
    next
      case True
      from change_events_conn [OF ok2 K(1), of disableWriting_ev] obtain m3 i where
        m3: "disableWriting K (cn_channel cn) m2 = Inr m3"
          "conn_ok c (cn\<lparr>outputBuffer := b\<rparr>)
             (ch\<lparr>ch_events := disableWriting_ev (ch_events ch), ch_index := i\<rparr>) m3"
          "wire (sock_fd cn) (trace m3) = wire (sock_fd cn) (trace m2)"
          "pending_of (cn_loop cn) m3 = pending_of (cn_loop cn) m2"
          "refused (sock_fd cn) (trace m3) = refused (sock_fd cn) (trace m2)"
        unfolding disableWriting_def by auto
      let ?ch = "ch\<lparr>ch_events := disableWriting_ev (ch_events ch), ch_index := i\<rparr>"
      obtain m4 where m4: "(case writeCompleteCallback cn of
            Some cb \<Rightarrow> queueInLoop K (cn_loop cn) (WriteComplete cb c) m3 | None \<Rightarrow> Inr m3) = Inr m4"
          "conn_ok c (cn\<lparr>outputBuffer := b\<rparr>) ?ch m4"
          "wire (sock_fd cn) (trace m4) = wire (sock_fd cn) (trace m3)"
          "pending_of (cn_loop cn) m4 = pending_of (cn_loop cn) m3
            @ (case writeCompleteCallback cn of None \<Rightarrow> [] | Some u \<Rightarrow> [WriteComplete u c])"
          "refused (sock_fd cn) (trace m4) = refused (sock_fd cn) (trace m3)"
      proof (cases "writeCompleteCallback cn")
        case None
        with that m3(2) show thesis by simp
      next
        case (Some cb)
        with that queueInLoop_conn [OF m3(2), of K "WriteComplete cb c"] show thesis by auto
      qed
      define m5 where "m5 = (if cn_state cn = kDisconnecting \<and> \<not> isWriting ?ch
        then log_sys (SysShutdownWrite (sock_fd cn)) (K (trace m4) (SysShutdownWrite (sock_fd cn))) m4
        else m4)"
      have "handleWrite K c m = Inr m5"
        using w ok writing d(6) pos True m3(1) m4(1) shutdownInLoop_conn [OF m4(2), of K]
        by (simp add: handleWrite_def Let_def b_def [symmetric] m2_def [symmetric] m5_def)
      moreover have "conn_ok c (cn\<lparr>outputBuffer := b\<rparr>) ?ch m5"
        "wire (sock_fd cn) (trace m5) = wire (sock_fd cn) (trace m4)"
        using m4(2) by (simp_all add: m5_def)
      moreover have "\<not> isWriting ?ch" by (simp add: interest_test)
      then have "cn_state cn = kDisconnecting \<longrightarrow> fst (last (trace m5)) = SysShutdownWrite (sock_fd cn)"
        by (simp add: m5_def)
      moreover have "pending_of (cn_loop cn) m5 = pending_of (cn_loop cn) m
          @ (case writeCompleteCallback cn of None \<Rightarrow> [] | Some u \<Rightarrow> [WriteComplete u c])"
        using m3(4) m4(4) by (simp add: m5_def m2_def m1)
      moreover have "refused (sock_fd cn) (trace m5) = refused (sock_fd cn) (trace m1)"
        using m3(5) m4(5) by (simp add: m5_def m2_def)
      ultimately show ?thesis using st b(2) m3(3) m4(3) \<open>\<not> isWriting ?ch\<close> ref
        by (intro exI [of _ m5] exI [of _ b] exI [of _ ?ch]) simp
    qed
  qed
qed

section \<open>The byte stream a connection promises\<close>

text \<open>
  The contract of a sender: what has been handed over so far, on the wire or still held back, is
  extended by exactly the bytes sent, or a string is refused as a whole, and a flush changes nothing.
\<close>

datatype stream_op = Send "byte list" | Flush

fun sent_strings :: "stream_op list \<Rightarrow> byte list list" where
  "sent_strings [] = []"
| "sent_strings (Send d # xs) = d # sent_strings xs"
| "sent_strings (Flush # xs) = sent_strings xs"

fun stream_impl :: "(byte list \<Rightarrow> 'm \<Rightarrow> 'm result) \<Rightarrow> ('m \<Rightarrow> 'm result) \<Rightarrow> stream_op \<Rightarrow> 'm \<Rightarrow> 'm result" where
  "stream_impl snd_fun flush (Send d) m = snd_fun d m"
| "stream_impl snd_fun flush Flush m = flush m"

locale stream_sender =
  fixes inv :: "'m \<Rightarrow> bool"
    and stream :: "'m \<Rightarrow> byte list"
    and refusals :: "'m \<Rightarrow> byte list list"
    and room :: "'m \<Rightarrow> nat"
    and sendable :: "byte list \<Rightarrow> bool"
    and send_op :: "byte list \<Rightarrow> 'm \<Rightarrow> 'm result"
    and flush :: "'m \<Rightarrow> 'm result"
  assumes send_law: "inv m \<Longrightarrow> sendable d \<Longrightarrow> length d \<le> room m \<Longrightarrow>
      \<exists>m'. send_op d m = Inr m' \<and> inv m' \<and> room m \<le> room m' + length d
        \<and> (stream m' = stream m @ d \<and> refusals m' = refusals m
           \<or> stream m' = stream m \<and> refusals m' = refusals m @ [d])"
    and flush_law: "inv m \<Longrightarrow>
      \<exists>m'. flush m = Inr m' \<and> inv m' \<and> stream m' = stream m \<and> room m \<le> room m'
        \<and> (\<exists>fs. refusals m' = refusals m @ fs)"
begin

lemma run_stream:
  "inv m \<Longrightarrow> \<forall>d. Send d \<in> set xs \<longrightarrow> sendable d \<Longrightarrow> length (concat (sent_strings xs)) \<le> room m \<Longrightarrow>
    \<exists>m' kept lost fs. foldE (stream_impl send_op flush) xs m = Inr m' \<and> inv m'
      \<and> sent_strings xs \<in> shuffles kept lost \<and> stream m' = stream m @ concat kept
      \<and> refusals m' = refusals m @ fs \<and> subseq lost fs"
proof (induction xs arbitrary: m)
  case Nil
  then show ?case by (auto intro: exI [of _ "[]"])
next
  case (Cons x xs)
  show ?case
  proof (cases x)
    case (Send d)
    with Cons.prems send_law [of m d] obtain m1 where
      m1: "send_op d m = Inr m1" "inv m1" "room m \<le> room m1 + length d"
      "stream m1 = stream m @ d \<and> refusals m1 = refusals m \<or> stream m1 = stream m \<and> refusals m1 = refusals m @ [d]"
      by auto
    with Send Cons.prems Cons.IH [OF m1(2)] obtain m' kept lost fs where
      IH: "foldE (stream_impl send_op flush) xs m1 = Inr m'" "inv m'" "sent_strings xs \<in> shuffles kept lost"
      "stream m' = stream m1 @ concat kept" "refusals m' = refusals m1 @ fs" "subseq lost fs" by auto
    have run: "foldE (stream_impl send_op flush) (x # xs) m = Inr m'" using Send m1(1) IH(1) by simp
    from m1(4) show ?thesis
    proof
      assume "stream m1 = stream m @ d \<and> refusals m1 = refusals m"
      with run IH Send show ?thesis
        by (intro exI [of _ m'] exI [of _ "d # kept"] exI [of _ lost] exI [of _ fs]) (simp add: Cons_in_shuffles_iff)
    next
      assume "stream m1 = stream m \<and> refusals m1 = refusals m @ [d]"
      with run IH Send show ?thesis
        by (intro exI [of _ m'] exI [of _ kept] exI [of _ "d # lost"] exI [of _ "d # fs"]) (simp add: Cons_in_shuffles_iff)
    qed
  next
    case Flush
    with Cons.prems flush_law [of m] obtain m1 gs where
      m1: "flush m = Inr m1" "inv m1" "stream m1 = stream m" "room m \<le> room m1" "refusals m1 = refusals m @ gs" by auto
    with Flush Cons.prems Cons.IH [OF m1(2)] obtain m' kept lost fs where
      IH: "foldE (stream_impl send_op flush) xs m1 = Inr m'" "inv m'" "sent_strings xs \<in> shuffles kept lost"
      "stream m' = stream m1 @ concat kept" "refusals m' = refusals m1 @ fs" "subseq lost fs" by auto
    have "foldE (stream_impl send_op flush) (x # xs) m = Inr m'" "sent_strings (x # xs) \<in> shuffles kept lost"
      "stream m' = stream m @ concat kept" "refusals m' = refusals m @ (gs @ fs)" "subseq lost (gs @ fs)"
      using IH m1 Flush by (simp_all add: subseq_order.trans [OF _ list_emb_append2])
    with IH(2) show ?thesis by blast
  qed
qed

end

text \<open>A connection as that interface: a string with the bytes at \<open>sp\<close>, then \<open>send\<close>.\<close>

definition send_string :: "kernel \<Rightarrow> ptr \<Rightarrow> ptr \<Rightarrow> byte list \<Rightarrow> ('u, 'z) net_scheme
    \<Rightarrow> ('u, 'z) net_scheme result" where
  "send_string K c sp d m = send K c sp (m\<lparr>bytes_at := (bytes_at m)(sp \<mapsto> d)\<rparr>)"

definition conn_stream :: "ptr \<Rightarrow> ('u, 'z) net_scheme \<Rightarrow> byte list" where
  "conn_stream c m = (case conn_at m c of None \<Rightarrow> []
     | Some cn \<Rightarrow> wire (sock_fd cn) (trace m) @ contents (outputBuffer cn))"

definition conn_room :: "ptr \<Rightarrow> ('u, 'z) net_scheme \<Rightarrow> nat" where
  "conn_room c m = (case conn_at m c of None \<Rightarrow> 0
     | Some cn \<Rightarrow> vec_max_size - buf_used (outputBuffer cn))"

definition conn_refused :: "ptr \<Rightarrow> ('u, 'z) net_scheme \<Rightarrow> byte list list" where
  "conn_refused c m = (case conn_at m c of None \<Rightarrow> [] | Some cn \<Rightarrow> refused (sock_fd cn) (trace m))"

definition network_documented :: "kernel \<Rightarrow> bool" where
  "network_documented K \<longleftrightarrow> ctl_documented K \<and> write_documented K"

definition connected_ok :: "ptr \<Rightarrow> ('u, 'z) net_scheme \<Rightarrow> bool" where
  "connected_ok c m \<longleftrightarrow> (\<exists>cn ch. conn_ok c cn ch m \<and> cn_state cn = kConnected)"

lemma int_of_size_small: "n < 2 ^ 31 \<Longrightarrow> int_of_size n = int n"
  by (simp add: int_of_size_def signed_of_nat signed_take_bit_int_eq_self)

lemma send_string_eq:
  assumes ok: "conn_ok c cn ch m" and st: "cn_state cn = kConnected" and sp: "sp \<noteq> 0"
    and d: "length d < 2 ^ 31"
  shows "send_string K c sp d m
    = sendInLoop K c sp (int (length d)) (m\<lparr>bytes_at := (bytes_at m)(sp \<mapsto> d)\<rparr>)"
proof -
  from conn_ok_loop [OF ok] obtain el where el: "loop_at m (cn_loop cn) = Some el"
    "threadId el = cur_tid m" .
  with conn_okD [OF ok] st sp show ?thesis
    by (simp add: send_string_def send_def isInLoopthread_def int_of_size_small [OF d])
qed

lemma send_string_conn:
  assumes "conn_ok c cn ch m" and "network_documented K" and "cn_state cn = kConnected" and "sp \<noteq> 0"
    and "length d < 2 ^ 31" and "buf_used (outputBuffer cn) + length d \<le> vec_max_size"
  shows "\<exists>m' b ch' flt. send_string K c sp d m = Inr m'
    \<and> conn_ok c (cn\<lparr>outputBuffer := b\<rparr>) ch' m'
    \<and> wire (sock_fd cn) (trace m') @ contents b
      = (wire (sock_fd cn) (trace m) @ contents (outputBuffer cn)) @ (if flt then [] else d)
    \<and> buf_used b \<le> buf_used (outputBuffer cn) + length d
    \<and> (isWriting ch \<longrightarrow> ch' = ch \<and> wire (sock_fd cn) (trace m') = wire (sock_fd cn) (trace m)
        \<and> (\<forall>p. watched p m' (cn_channel cn) = watched p m (cn_channel cn)) \<and> \<not> flt)
    \<and> refused (sock_fd cn) (trace m') = refused (sock_fd cn) (trace m) @ (if flt then [d] else [])"
proof -
  let ?m = "m\<lparr>bytes_at := (bytes_at m)(sp \<mapsto> d)\<rparr>"
  have "conn_ok c cn ch ?m" "bytes_at ?m sp = Some d" "\<And>p w. watched p ?m w = watched p m w"
    using assms(1) by (simp_all add: watched_def split: option.split)
  from sendInLoop_conn [OF this(1) _ _ _ assms(4) this(2) assms(5,6), of K] this(3) assms(2,3)
  show ?thesis
    unfolding send_string_eq [OF assms(1,3,4,5)] network_documented_def by simp
qed

interpretation tcp: stream_sender "\<lambda>m. network_documented K \<and> sp \<noteq> 0 \<and> connected_ok c m"
  "conn_stream c" "conn_refused c" "conn_room c" "\<lambda>d. length d < 2 ^ 31" "send_string K c sp" "handleWrite K c"
  for K sp c
proof unfold_locales
  fix m :: "('a, 'b) net_scheme" and d :: "byte list"
  assume inv: "network_documented K \<and> sp \<noteq> 0 \<and> connected_ok c m"
  then obtain cn ch where ok: "conn_ok c cn ch m" "cn_state cn = kConnected"
    by (auto simp: connected_ok_def)
  note c = conn_okD(2) [OF ok(1)]
  have put: "connected_ok c m' \<and> conn_stream c m' = wire (sock_fd cn) (trace m') @ contents b
      \<and> conn_room c m' = vec_max_size - buf_used b \<and> conn_refused c m' = refused (sock_fd cn) (trace m')"
    if "conn_ok c (cn\<lparr>outputBuffer := b\<rparr>) ch' m'" for b ch' and m' :: "('a, 'b) net_scheme"
    using that ok(2) conn_okD(2) [OF that]
    by (auto simp: connected_ok_def conn_stream_def conn_room_def conn_refused_def intro!: exI)
  show "\<exists>m'. handleWrite K c m = Inr m' \<and> (network_documented K \<and> sp \<noteq> 0 \<and> connected_ok c m')
      \<and> conn_stream c m' = conn_stream c m \<and> conn_room c m \<le> conn_room c m' \<and> (\<exists>fs. conn_refused c m' = conn_refused c m @ fs)"
  proof -
    from handleWrite_conn [OF ok(1), of K] inv obtain m' b ch' fs where
      m': "handleWrite K c m = Inr m'" "conn_ok c (cn\<lparr>outputBuffer := b\<rparr>) ch' m'"
        "wire (sock_fd cn) (trace m') @ contents b = wire (sock_fd cn) (trace m) @ contents (outputBuffer cn)"
        "buf_used b \<le> buf_used (outputBuffer cn)" "refused (sock_fd cn) (trace m') = refused (sock_fd cn) (trace m) @ fs"
      by (auto simp: network_documented_def)
    with put [OF m'(2)] inv c show ?thesis by (simp add: conn_stream_def conn_room_def conn_refused_def diff_le_mono2)
  qed
  assume d: "length d < 2 ^ 31" and "length d \<le> conn_room c m"
  then have "length d \<le> vec_max_size - buf_used (outputBuffer cn)"
    using c by (simp add: conn_room_def)
  moreover have "buf_used (outputBuffer cn) \<le> vec_max_size"
    using buffer_invD [OF conn_okD(8) [OF ok(1)]] by (simp add: buf_used_def vec_max_size_def)
  ultimately have room: "buf_used (outputBuffer cn) + length d \<le> vec_max_size" by linarith
  from send_string_conn [OF ok(1) _ ok(2) _ d room, of K sp] inv obtain m' b ch' flt where
    m': "send_string K c sp d m = Inr m'" "conn_ok c (cn\<lparr>outputBuffer := b\<rparr>) ch' m'"
      "wire (sock_fd cn) (trace m') @ contents b
        = (wire (sock_fd cn) (trace m) @ contents (outputBuffer cn)) @ (if flt then [] else d)"
      "buf_used b \<le> buf_used (outputBuffer cn) + length d"
      "refused (sock_fd cn) (trace m') = refused (sock_fd cn) (trace m) @ (if flt then [d] else [])" by blast
  have "vec_max_size - buf_used (outputBuffer cn) \<le> vec_max_size - buf_used b + length d" using m'(4) by linarith
  with m' put [OF m'(2)] inv c
  show "\<exists>m'. send_string K c sp d m = Inr m' \<and> (network_documented K \<and> sp \<noteq> 0 \<and> connected_ok c m')
      \<and> conn_room c m \<le> conn_room c m' + length d
      \<and> (conn_stream c m' = conn_stream c m @ d \<and> conn_refused c m' = conn_refused c m
         \<or> conn_stream c m' = conn_stream c m \<and> conn_refused c m' = conn_refused c m @ [d])"
    by (intro exI [of _ m']) (simp add: conn_stream_def conn_room_def conn_refused_def)
qed

section \<open>Changing fields the poller does not look at\<close>

definition poller_view :: "'cb channel \<Rightarrow> ptr \<times> int \<times> u32 \<times> int" where
  "poller_view ch = (ch_loop ch, ch_fd ch, ch_events ch, ch_index ch)"

lemma channels_ok_view:
  assumes ok: "channels_ok po h" and same: "\<And>c. map_option poller_view (h' c) = map_option poller_view (h c)"
  shows "channels_ok po h'"
  unfolding channels_ok_def
proof (intro conjI allI impI)
  have to_old: "\<exists>ch. h c = Some ch \<and> poller_view ch = poller_view ch'" if "h' c = Some ch'" for c ch'
    using same [of c] that by (cases "h c") auto
  have to_new: "\<exists>ch'. h' c = Some ch' \<and> poller_view ch = poller_view ch'" if "h c = Some ch" for c ch
    using same [of c] that by (cases "h' c") auto
  fix c ch'
  assume c: "h' c = Some ch'" "ch_loop ch' = po_owner po"
  obtain ch where ch: "h c = Some ch" "poller_view ch = poller_view ch'" using to_old [OF c(1)] by blast
  then have "ch_loop ch = po_owner po" using c(2) by (simp add: poller_view_def)
  from channels_okD [OF ok ch(1) this] ch(2)
  show "c \<noteq> 0" "ch_index ch' \<in> {kNew, kAdd, kDelete}"
    "ch_index ch' \<noteq> kNew \<longleftrightarrow> po_channels po (ch_fd ch') = Some c"
    by (simp_all add: poller_view_def)
next
  have to_new: "\<exists>ch'. h' c = Some ch' \<and> poller_view ch = poller_view ch'" if "h c = Some ch" for c ch
    using same [of c] that by (cases "h' c") auto
  fix fd c
  assume "po_channels po fd = Some c"
  then obtain ch where ch: "h c = Some ch" "ch_fd ch = fd" "ch_loop ch = po_owner po"
    by (rule channels_ok_entry [OF ok])
  then show "\<exists>ch'. h' c = Some ch' \<and> ch_fd ch' = fd \<and> ch_loop ch' = po_owner po"
    using to_new [OF ch(1)] by (auto simp: poller_view_def)
qed

lemma poller_inv_put_chan:
  assumes "chan_at m w = Some ch" and "ch_loop ch' = ch_loop ch" "ch_fd ch' = ch_fd ch"
    "ch_events ch' = ch_events ch" "ch_index ch' = ch_index ch"
  shows "poller_inv p (put_chan w ch' m) = poller_inv p m"
    and "usable p v (put_chan w ch' m) = usable p v m"
    and "watched p (put_chan w ch' m) v = watched p m v"
proof -
  have same: "map_option poller_view (((chan_at m)(w \<mapsto> ch')) c) = map_option poller_view (chan_at m c)" for c
    using assms by (simp add: poller_view_def)
  then have "channels_ok po ((chan_at m)(w \<mapsto> ch')) = channels_ok po (chan_at m)" for po
    by (metis channels_ok_view)
  moreover have "expected po ((chan_at m)(w \<mapsto> ch')) = expected po (chan_at m)" for po
    using assms by (auto simp: expected_def watched_by_def fun_eq_iff split: option.splits)
  ultimately have "registry_ok po ((chan_at m)(w \<mapsto> ch')) tr = registry_ok po (chan_at m) tr" for po tr
    by (simp add: registry_ok_def)
  then show "poller_inv p (put_chan w ch' m) = poller_inv p m" by (simp add: poller_inv_def)
  show "usable p v (put_chan w ch' m) = usable p v m"
    using assms by (auto simp: usable_def)
  show "watched p (put_chan w ch' m) v = watched p m v"
    using assms by (auto simp: watched_def split: option.split)
qed

lemma conn_ok_put_chan:
  assumes "conn_ok c cn ch m" and "ch_loop ch' = ch_loop ch" "ch_fd ch' = ch_fd ch"
    "ch_events ch' = ch_events ch" "ch_index ch' = ch_index ch"
  shows "conn_ok c cn ch' (put_chan (cn_channel cn) ch' m)"
  using assms poller_inv_put_chan [OF conn_okD(3) [OF assms(1)] assms(2-5)]
  by (auto simp: conn_ok_def)

lemma setState_conn:
  assumes "conn_ok c cn ch m"
  shows "setState s c m = Inr (put_conn c (cn\<lparr>cn_state := s\<rparr>) m)"
    and "conn_ok c (cn\<lparr>cn_state := s\<rparr>) ch (put_conn c (cn\<lparr>cn_state := s\<rparr>) m)"
  using assms conn_okD(8) [OF assms] by (simp_all add: setState_def conn_ok_put)

lemma reading_isWriting: "ch_events ch = kReadEvent \<Longrightarrow> isWriting ch"
  by (simp add: interest_test kReadEvent_def bit_or_iff)

lemma runInLoop_conn:
  assumes "conn_ok c cn ch m"
  shows "runInLoop K call (cn_loop cn) f m = call f m"
proof -
  from conn_ok_loop [OF assms] obtain el where "loop_at m (cn_loop cn) = Some el"
    "threadId el = cur_tid m" .
  with conn_okD(7) [OF assms] show ?thesis by (simp add: runInLoop_def isInLoopthread_def)
qed

section \<open>Properties\<close>


text \<open>An example: connection 8 on descriptor 9 of the loop and poller of \<open>small_reactor\<close>.\<close>

definition net_loop :: "nat closure eventloop" where
  "net_loop = \<lparr>looping = False, el_quit = False, threadId = 100, pollReturnTime = 0, el_poller = 2,
     weakupFd = 4, weakupChannel = 7, activateChannels = [], callingPendingFunctors = False,
     pendingFunctors = []\<rparr>"

definition net_conn :: "nat tcpconn" where
  "net_conn = \<lparr>cn_loop = 1, cn_name = ''c'', cn_state = kConnected, sock_fd = 9, cn_channel = 10,
     localAddr = sr_addr zero_ret, peerAddr = sr_addr zero_ret, connectionCallback = Some 1,
     messageCallback = Some 2, writeCompleteCallback = Some 3, closeCallback = Some 4,
     highWaterMarkCallback = Some 5, highWaterMark = 4, inputBuffer = Buffer 0, outputBuffer = Buffer 0\<rparr>"

definition net_machine :: "nat net" where
  "net_machine = \<lparr>trace = [], chan_at = [10 \<mapsto> Channel 1 9], poller_at = [2 \<mapsto> small_poller],
     loop_at = [1 \<mapsto> net_loop], cur_tid = 100, t_loopInThisThread = (\<lambda>_. 0)(100 := 1),
     conn_at = [8 \<mapsto> net_conn], bytes_at = Map.empty\<rparr>"

lemma net_machine_ok: "conn_ok 8 net_conn (Channel 1 9) net_machine"
proof -
  have "channels_ok small_poller (chan_at net_machine)"
    by (simp add: channels_ok_def net_machine_def small_poller_def Channel_def kNew_def kAdd_def
        kDelete_def)
  then have "poller_inv 2 net_machine"
    by (simp add: poller_inv_def registry_ok_def net_machine_def small_poller_def expected_def
        fun_eq_iff)
  moreover have "usable 2 10 net_machine"
    by (simp add: usable_def net_machine_def small_poller_def Channel_def free_for_def)
  ultimately show ?thesis
    by (simp add: conn_ok_def net_machine_def net_conn_def net_loop_def Channel_def Buffer_inv)
qed

lemma net_machine_connected: "connected_ok 8 net_machine"
  using net_machine_ok by (auto simp: connected_ok_def net_conn_def)

lemma quota_network: "network_documented (quota_kernel q)"
  by (simp add: network_documented_def quota_kernel_documented)


text \<open>C37: A connection that is only watched for reading never sends. As \<open>EPOLLPRI\<close> makes it count
  as writing, every \<open>send\<close> goes to the output buffer only: no byte is written to the socket and
  \<open>EPOLLOUT\<close> is not added to what is watched, so \<open>handleWrite\<close> is not called for it either.\<close>

theorem reading_connection_never_sends:
  assumes "network_documented K" and "sp \<noteq> 0" and "conn_ok c cn ch m" and "cn_state cn = kConnected"
    and "ch_events ch = kReadEvent"
    and "\<forall>d \<in> set ds. length d < 2 ^ 31"
    and "buf_used (outputBuffer cn) + length (concat ds) \<le> vec_max_size"
  shows "\<exists>m' b. foldE (send_string K c sp) ds m = Inr m'
    \<and> conn_ok c (cn\<lparr>outputBuffer := b\<rparr>) ch m'
    \<and> wire (sock_fd cn) (trace m') = wire (sock_fd cn) (trace m)
    \<and> contents b = contents (outputBuffer cn) @ concat ds
    \<and> (\<forall>p. watched p m' (cn_channel cn) = watched p m (cn_channel cn))"
  using assms(3,4,6,7)
proof (induction ds arbitrary: m cn)
  case Nil
  then show ?case by (intro exI [of _ m] exI [of _ "outputBuffer cn"]) simp
next
  case (Cons d ds)
  have w: "isWriting ch" using assms(5) by (rule reading_isWriting)
  from send_string_conn [OF Cons.prems(1) assms(1) Cons.prems(2) assms(2), of d] Cons.prems(3,4) w
  obtain m1 b where m1: "send_string K c sp d m = Inr m1" "conn_ok c (cn\<lparr>outputBuffer := b\<rparr>) ch m1"
    "wire (sock_fd cn) (trace m1) = wire (sock_fd cn) (trace m)"
    "contents b = contents (outputBuffer cn) @ d"
    "buf_used b \<le> buf_used (outputBuffer cn) + length d"
    "\<forall>p. watched p m1 (cn_channel cn) = watched p m (cn_channel cn)"
    by auto
  from Cons.IH [OF m1(2)] Cons.prems(2-4) m1(5) obtain m2 b2 where
    "foldE (send_string K c sp) ds m1 = Inr m2" "conn_ok c (cn\<lparr>outputBuffer := b2\<rparr>) ch m2"
    "wire (sock_fd cn) (trace m2) = wire (sock_fd cn) (trace m1)" "contents b2 = contents b @ concat ds"
    "\<forall>p. watched p m2 (cn_channel cn) = watched p m1 (cn_channel cn)"
    by auto
  with m1 show ?case by (intro exI [of _ m2] exI [of _ b2]) simp
qed

text \<open>The example with the channel's events set to \<open>e\<close> and the connection replaced.\<close>

definition net_with :: "u32 \<Rightarrow> nat tcpconn \<Rightarrow> nat net" where
  "net_with e cn = net_machine\<lparr>chan_at := [10 \<mapsto> (Channel 1 9)\<lparr>ch_events := e\<rparr>],
     conn_at := [8 \<mapsto> cn]\<rparr>"

lemma net_with_ok:
  assumes "cn_channel cn = 10" "cn_loop cn = 1" "sock_fd cn = 9" "buffer_inv (outputBuffer cn)"
  shows "conn_ok 8 cn ((Channel 1 9)\<lparr>ch_events := e\<rparr>) (net_with e cn)"
proof -
  have "channels_ok small_poller (chan_at (net_with e cn))"
    by (simp add: channels_ok_def net_with_def small_poller_def Channel_def kNew_def kAdd_def
        kDelete_def)
  then have "poller_inv 2 (net_with e cn)"
    by (simp add: poller_inv_def registry_ok_def net_with_def net_machine_def small_poller_def
        expected_def fun_eq_iff)
  moreover have "usable 2 10 (net_with e cn)"
    by (simp add: usable_def net_with_def net_machine_def small_poller_def Channel_def free_for_def)
  ultimately show ?thesis
    using assms by (simp add: conn_ok_def net_with_def net_machine_def net_loop_def Channel_def)
qed

lemma buf_used_Buffer: "buf_used (Buffer n) = 8"
  by (simp add: buf_used_def Buffer_def)

lemma net_conn_simps [simp]:
  "cn_channel net_conn = 10" "cn_loop net_conn = 1" "sock_fd net_conn = 9" "outputBuffer net_conn = Buffer 0"
  "cn_state net_conn = kConnected" "connectionCallback net_conn = Some 1" "messageCallback net_conn = Some 2"
  "writeCompleteCallback net_conn = Some 3" "closeCallback net_conn = Some 4"
  "highWaterMarkCallback net_conn = Some 5" "highWaterMark net_conn = 4" "inputBuffer net_conn = Buffer 0"
  by (simp_all add: net_conn_def)

theorem reading_connection_never_sends_witness:
  "\<exists>m' b. foldE (send_string (quota_kernel 2) 8 20) [[1, 2], [3]] (net_with kReadEvent net_conn) = Inr m'
    \<and> wire 9 (trace m') = [] \<and> contents b = [1, 2, 3]
    \<and> conn_at m' 8 = Some (net_conn\<lparr>outputBuffer := b\<rparr>)"
proof -
  have ok: "conn_ok 8 net_conn ((Channel 1 9)\<lparr>ch_events := kReadEvent\<rparr>) (net_with kReadEvent net_conn)"
    by (rule net_with_ok) (simp_all add: Buffer_inv)
  have "wire 9 (trace (net_with kReadEvent net_conn)) = []"
    by (simp add: net_with_def net_machine_def)
  with reading_connection_never_sends [OF quota_network _ ok, of 20 "[[1, 2], [3]]" 2] show ?thesis
    by (auto simp: buf_used_Buffer vec_max_size_def contents_Buffer dest: conn_okD(2))
qed

lemma conneectEstableished_conn:
  assumes "ctl_documented K" and "conn_ok c cn ch m" and "loop_at m (cn_loop cn) = Some el"
  shows "\<exists>m1 ch'. conneectEstableished K U c m = invoke U (\<lambda>u. OnConnection u c) (connectionCallback cn) m1
    \<and> conn_ok c (cn\<lparr>cn_state := kConnected\<rparr>) ch' m1
    \<and> ch_tied ch' \<and> ch_tie ch' = c \<and> ch_events ch' = enableReading_ev (ch_events ch)
    \<and> watched (el_poller el) m1 (cn_channel cn) = Some (enableReading_ev (ch_events ch))
    \<and> net.more m1 = net.more m"
proof -
  let ?cn = "cn\<lparr>cn_state := kConnected\<rparr>"
  let ?ch = "ch\<lparr>ch_tie := c, ch_tied := True\<rparr>"
  define m1 where "m1 = put_conn c ?cn m"
  define m2 where "m2 = put_chan (cn_channel cn) ?ch m1"
  have ok1: "conn_ok c ?cn ch m1" unfolding m1_def by (rule setState_conn(2) [OF assms(2)])
  have ok2: "conn_ok c ?cn ?ch m2"
    using conn_ok_put_chan [OF ok1, of ?ch] by (simp add: m2_def)
  have t: "tie c (cn_channel cn) m1 = Inr m2"
    using conn_loads [OF ok1] by (simp add: tie_def m2_def)
  from change_events_conn [OF ok2 assms(1), of enableReading_ev] obtain m3 i where
    m3: "enableReading K (cn_channel cn) m2 = Inr m3"
      "conn_ok c ?cn (?ch\<lparr>ch_events := enableReading_ev (ch_events ch), ch_index := i\<rparr>) m3"
      "watched (el_poller el) m3 (cn_channel cn) = (if watched (el_poller el) m2 (cn_channel cn) \<noteq> None
         \<and> enableReading_ev (ch_events ch) = 0 then None else Some (enableReading_ev (ch_events ch)))"
      "net.more m3 = net.more m2"
    using assms(3) unfolding enableReading_def by (auto simp: m2_def m1_def)
  have "bit (enableReading_ev (ch_events ch)) 0" by simp
  then have "enableReading_ev (ch_events ch) \<noteq> 0" by (metis bit_0_eq bot_apply bot_bool_def)
  moreover have "conneectEstableished K U c m = invoke U (\<lambda>u. OnConnection u c) (connectionCallback cn) m3"
    using setState_conn(1) [OF assms(2), of kConnected] conn_loads [OF ok1] conn_loads [OF m3(2)] t m3(1)
    by (simp add: conneectEstableished_def m1_def [symmetric])
  ultimately show ?thesis using m3(2-4)
    by (intro exI [of _ m3] exI [of _ "?ch\<lparr>ch_events := enableReading_ev (ch_events ch), ch_index := i\<rparr>"])
      (simp add: m2_def m1_def)
qed

text \<open>\<open>conneectEstableished\<close> makes the connection connected, ties its channel to it, has the
  kernel watch it for reading, and only then calls the connection callback, which finds that
  state; without a callback it throws.\<close>

theorem conneectEstableished_watches:
  assumes "ctl_documented K" and "conn_ok c cn ch m" and "loop_at m (cn_loop cn) = Some el"
  shows "\<exists>m1 ch'. conneectEstableished K U c m = invoke U (\<lambda>u. OnConnection u c) (connectionCallback cn) m1
    \<and> conn_ok c (cn\<lparr>cn_state := kConnected\<rparr>) ch' m1
    \<and> ch_tied ch' \<and> ch_tie ch' = c \<and> ch_events ch' = enableReading_ev (ch_events ch)
    \<and> watched (el_poller el) m1 (cn_channel cn) = Some (enableReading_ev (ch_events ch))"
  using conneectEstableished_conn [OF assms, of U] by blast

text \<open>User callbacks that return at once.\<close>

definition no_user :: "nat user_call \<Rightarrow> nat net \<Rightarrow> nat net result" where
  "no_user u m = Inr m"

theorem conneectEstableished_watches_witness:
  "\<exists>m1. conneectEstableished quiet_kernel no_user 8 net_machine = Inr m1
    \<and> watched 2 m1 10 = Some kReadEvent"
  using conneectEstableished_watches [OF quiet_kernel_documented(3) net_machine_ok, of net_loop no_user]
  by (auto simp: net_machine_def net_loop_def invoke_def no_user_def Channel_def enableReading_ev_def)

lemma shutdown_conn:
  assumes "conn_ok c cn ch m"
  shows "shutdown K c m = Inr (if cn_state cn \<noteq> kConnected then m
      else let m1 = put_conn c (cn\<lparr>cn_state := kDisconnecting\<rparr>) m; call = SysShutdownWrite (sock_fd cn)
        in if isWriting ch then m1 else log_sys call (K (trace m) call) m1)"
proof -
  note s = setState_conn [OF assms, of kDisconnecting]
  show ?thesis
    using assms s(1) shutdownInLoop_conn [OF s(2), of K] runInLoop_conn [OF s(2), of K]
    by (simp add: shutdown_def Let_def)
qed

text \<open>\<open>shutdown\<close> in the loop's thread: a connected connection becomes disconnecting and the
  socket is half-closed only if the channel does not count as writing; so a connection that is
  just watched for reading is never half-closed, although it has nothing to send. In any other
  state nothing happens.\<close>

theorem shutdown_branches:
  assumes "conn_ok c cn ch m"
  shows "shutdown K c m = Inr (if cn_state cn \<noteq> kConnected then m
      else let m1 = put_conn c (cn\<lparr>cn_state := kDisconnecting\<rparr>) m; call = SysShutdownWrite (sock_fd cn)
        in if isWriting ch then m1 else log_sys call (K (trace m) call) m1)
    \<and> (ch_events ch = kReadEvent \<and> cn_state cn = kConnected \<longrightarrow>
        shutdown K c m = Inr (put_conn c (cn\<lparr>cn_state := kDisconnecting\<rparr>) m))"
  using shutdown_conn [OF assms, of K] reading_isWriting [of ch] by (simp add: Let_def)

theorem shutdown_branches_witness:
  "shutdown quiet_kernel 8 (net_with kReadEvent net_conn)
    = Inr (put_conn 8 (net_conn\<lparr>cn_state := kDisconnecting\<rparr>) (net_with kReadEvent net_conn))"
proof -
  have "conn_ok 8 net_conn ((Channel 1 9)\<lparr>ch_events := kReadEvent\<rparr>) (net_with kReadEvent net_conn)"
    by (rule net_with_ok) (simp_all add: Buffer_inv)
  from shutdown_branches [OF this, of quiet_kernel, THEN conjunct2] show ?thesis by simp
qed

lemma handleClose_open:
  assumes "ctl_documented K" and "conn_ok c cn ch m" and "loop_at m (cn_loop cn) = Some el"
    and "cn_state cn = kConnected \<or> cn_state cn = kDisconnecting"
  shows "\<exists>m2 ch'. handleClose K U c m
        = bindE (invoke U (\<lambda>u. OnConnection u c) (connectionCallback cn) m2) (\<lambda>m3.
            bindE (load c (conn_at m3)) (\<lambda>cn3. invoke U (\<lambda>u. OnClose u c) (closeCallback cn3) m3))
      \<and> disableAll K (cn_channel cn) (put_conn c (cn\<lparr>cn_state := kDisconnected\<rparr>) m) = Inr m2
      \<and> conn_ok c (cn\<lparr>cn_state := kDisconnected\<rparr>) ch' m2 \<and> isNoneEvent ch'
      \<and> (watched (el_poller el) m (cn_channel cn) \<noteq> None
          \<longrightarrow> watched (el_poller el) m2 (cn_channel cn) = None)
      \<and> loop_at m2 = loop_at m \<and> cur_tid m2 = cur_tid m \<and> net.more m2 = net.more m"
proof -
  let ?cn = "cn\<lparr>cn_state := kDisconnected\<rparr>"
  define m1 where "m1 = put_conn c ?cn m"
  note s = setState_conn [OF assms(2), of kDisconnected, folded m1_def]
  from change_events_conn [OF s(2) assms(1), of disableAll_ev] obtain m2 i where
    m2: "disableAll K (cn_channel cn) m1 = Inr m2"
      "conn_ok c ?cn (ch\<lparr>ch_events := kNoneEvent, ch_index := i\<rparr>) m2"
      "watched (el_poller el) m2 (cn_channel cn) = (if watched (el_poller el) m1 (cn_channel cn) \<noteq> None
         \<and> kNoneEvent = 0 then None else Some kNoneEvent)"
      "loop_at m2 = loop_at m1" "cur_tid m2 = cur_tid m1" "net.more m2 = net.more m1"
    using assms(3) unfolding disableAll_def by (auto simp: m1_def disableAll_ev_def)
  have "handleClose K U c m
      = bindE (invoke U (\<lambda>u. OnConnection u c) (connectionCallback cn) m2) (\<lambda>m3.
          bindE (load c (conn_at m3)) (\<lambda>cn3. invoke U (\<lambda>u. OnClose u c) (closeCallback cn3) m3))"
    using assms(4) conn_loads [OF assms(2)] s(1) m2(1) conn_loads [OF m2(2)]
    by (auto simp: handleClose_def)
  moreover have "watched (el_poller el) m1 (cn_channel cn) \<noteq> None
      \<longrightarrow> watched (el_poller el) m2 (cn_channel cn) = None"
    using m2(3) by (simp add: kNoneEvent_def)
  ultimately show ?thesis
    using m2(1,2,4-6)
    by (intro exI [of _ m2] exI [of _ "ch\<lparr>ch_events := kNoneEvent, ch_index := i\<rparr>"])
      (simp add: isNoneEvent_def m1_def)
qed

text \<open>\<open>handleClose\<close>: a connection that is neither connected nor disconnecting stops the
  program at the assertion. Otherwise it is marked disconnected and its channel disabled and no
  longer watched before the connection callback is called, and the close callback comes last,
  read from the connection as the first callback left it.\<close>

theorem handleClose_order:
  assumes "ctl_documented K" and "conn_ok c cn ch m" and "loop_at m (cn_loop cn) = Some el"
  shows "if cn_state cn = kConnected \<or> cn_state cn = kDisconnecting
    then \<exists>m2 ch'. handleClose K U c m
          = bindE (invoke U (\<lambda>u. OnConnection u c) (connectionCallback cn) m2) (\<lambda>m3.
              bindE (load c (conn_at m3)) (\<lambda>cn3. invoke U (\<lambda>u. OnClose u c) (closeCallback cn3) m3))
        \<and> conn_ok c (cn\<lparr>cn_state := kDisconnected\<rparr>) ch' m2 \<and> isNoneEvent ch'
        \<and> (watched (el_poller el) m (cn_channel cn) \<noteq> None
            \<longrightarrow> watched (el_poller el) m2 (cn_channel cn) = None)
    else handleClose K U c m = Inl AssertFailed"
proof (cases "cn_state cn = kConnected \<or> cn_state cn = kDisconnecting")
  case True
  from handleClose_open [OF assms True, of U] show ?thesis unfolding if_P [OF True] by blast
next
  case False
  with conn_loads [OF assms(2)] show ?thesis by (auto simp: handleClose_def)
qed

theorem handleClose_order_witness:
  "handleClose quiet_kernel no_user 8 (net_with kReadEvent (net_conn\<lparr>cn_state := kConnecting\<rparr>))
    = Inl AssertFailed"
proof -
  have "conn_ok 8 (net_conn\<lparr>cn_state := kConnecting\<rparr>) ((Channel 1 9)\<lparr>ch_events := kReadEvent\<rparr>)
      (net_with kReadEvent (net_conn\<lparr>cn_state := kConnecting\<rparr>))"
    by (rule net_with_ok) (simp_all add: Buffer_inv)
  from handleClose_order [OF quiet_kernel_documented(3) this, of net_loop no_user] show ?thesis
    by (simp add: net_with_def net_machine_def)
qed

lemma channel_remove_conn:
  assumes "conn_ok c cn ch m" and K: "ctl_documented K"
  shows "\<exists>m'. channel_remove K (cn_channel cn) m = Inr m' \<and> conn_at m' = conn_at m
    \<and> chan_at m' (cn_channel cn) = Some (ch\<lparr>ch_index := kNew\<rparr>)
    \<and> loop_at m' = loop_at m \<and> cur_tid m' = cur_tid m \<and> net.more m' = net.more m
    \<and> history_conforms (trace m') \<and> (\<forall>el. loop_at m (cn_loop cn) = Some el \<longrightarrow>
        (\<exists>po. poller_at m (el_poller el) = Some po
          \<and> interest (po_epfd po) (trace m') (sock_fd cn) = None))"
proof -
  note d = conn_okD [OF assms(1)]
  from conn_ok_loop [OF assms(1)] obtain el where el: "loop_at m (cn_loop cn) = Some el"
    "poller_inv (el_poller el) m" "usable (el_poller el) (cn_channel cn) m" .
  from remove_shape [OF K el(2,3) d(3)] obtain m' call r x and po po' :: poller where
    m': "removeChannel K (el_poller el) (cn_channel cn) m = Inr m'"
      "m' = (if ch_index ch = kAdd then log_sys call r x else x)"
      "x = put_chan (cn_channel cn) (ch\<lparr>ch_index := kNew\<rparr>) (put_poller (el_poller el) po' m)"
      "poller_at m (el_poller el) = Some po" "interest (po_epfd po) (trace m') (ch_fd ch) = None"
      "history_conforms (trace m')"
    by blast
  then have "conn_at m' = conn_at m" "chan_at m' (cn_channel cn) = Some (ch\<lparr>ch_index := kNew\<rparr>)"
    "loop_at m' = loop_at m" "cur_tid m' = cur_tid m" "net.more m' = net.more m"
    by (simp_all del: machine_order)
  moreover have "channel_remove K (cn_channel cn) m = Inr m'"
    using d el m'(1) by (simp add: channel_remove_def loop_removeChannel_def)
  ultimately show ?thesis
    using m'(4-6) el(1) d(6) by (intro exI [of _ m']) simp
qed

text \<open>C35: A connection destroyed while disconnecting: \<open>conneectDestroyed\<close> changes the state of a
  connected connection only, so a connection on which \<open>shutdown\<close> was called stays disconnecting
  and its destructor stops the program at its assertion.\<close>

theorem disconnecting_destroyed_asserts:
  assumes "ctl_documented K" and "conn_ok c cn ch m" and "cn_state cn = kDisconnecting"
  shows "\<exists>m'. conneectDestroyed K U c m = Inr m' \<and> conn_at m' c = Some cn
    \<and> destroy_TcpConnection K c m' = Inl AssertFailed"
proof -
  note d = conn_okD [OF assms(2)]
  from channel_remove_conn [OF assms(2,1)] obtain m' where
    m': "channel_remove K (cn_channel cn) m = Inr m'" "conn_at m' = conn_at m"
      "chan_at m' (cn_channel cn) = Some (ch\<lparr>ch_index := kNew\<rparr>)" by blast
  have "conneectDestroyed K U c m = Inr m'"
    using conn_loads [OF assms(2)] m'(1) assms(3) by (simp add: conneectDestroyed_def)
  moreover have "destroy_TcpConnection K c m' = Inl AssertFailed"
    using d m'(2,3) assms(3) by (simp add: destroy_TcpConnection_def)
  ultimately show ?thesis using d m'(2) by simp
qed

theorem disconnecting_destroyed_asserts_witness:
  "\<exists>m'. bindE (shutdown quiet_kernel 8 (net_with kReadEvent net_conn)) (conneectDestroyed quiet_kernel no_user 8)
      = Inr m' \<and> destroy_TcpConnection quiet_kernel 8 m' = Inl AssertFailed"
proof -
  have ok: "conn_ok 8 net_conn ((Channel 1 9)\<lparr>ch_events := kReadEvent\<rparr>) (net_with kReadEvent net_conn)"
    by (rule net_with_ok) (simp_all add: Buffer_inv)
  have sh: "shutdown quiet_kernel 8 (net_with kReadEvent net_conn)
      = Inr (put_conn 8 (net_conn\<lparr>cn_state := kDisconnecting\<rparr>) (net_with kReadEvent net_conn))"
    using shutdown_conn [OF ok, of quiet_kernel]
      reading_isWriting [of "(Channel 1 9)\<lparr>ch_events := kReadEvent\<rparr> :: nat closure channel"]
    by (simp add: Let_def)
  from disconnecting_destroyed_asserts [OF quiet_kernel_documented(3) setState_conn(2) [OF ok], of kDisconnecting no_user]
  show ?thesis by (auto simp: sh)
qed

text \<open>The high-water mark. When data goes to the output buffer, the high-water callback is
  queued, with the new length, exactly when the length crosses the mark from below: not when it
  was already above, not when it stays below, and at most once per \<open>send\<close>.\<close>

theorem highWaterMark_on_crossing:
  assumes "network_documented K" and "conn_ok c cn ch m" and "cn_state cn = kConnected" and "isWriting ch"
    and "sp \<noteq> 0" and "d \<noteq> []" and "length d < 2 ^ 31"
    and "buf_used (outputBuffer cn) + length d \<le> vec_max_size"
    and "highWaterMarkCallback cn = Some u"
  shows "\<exists>m'. send_string K c sp d m = Inr m' \<and> pending_of (cn_loop cn) m' = pending_of (cn_loop cn) m
    @ (if length (contents (outputBuffer cn)) < unat (highWaterMark cn)
          \<and> unat (highWaterMark cn) \<le> length (contents (outputBuffer cn)) + length d
       then [HighWater u c (word_of_nat (length (contents (outputBuffer cn)) + length d))] else [])"
proof -
  let ?m = "m\<lparr>bytes_at := (bytes_at m)(sp \<mapsto> d)\<rparr>"
  have ok: "conn_ok c cn ch ?m" using assms(2) by simp
  note inv = conn_okD(8) [OF ok]
  let ?rem = "word_of_int (int (length d)) :: size_t"
  have rem: "unat ?rem = length d" using assms(7) by (simp add: unat_of_nat_size)
  then have pos: "?rem > 0" using assms(6) by (metis length_greater_0_conv unat_gt_0 word_gt_0)
  have direct: "send_direct K c d (int (length d)) ?m = Inr ((int 0, ?rem, False), ?m)"
    using conn_loads [OF ok] assms(4) by (simp add: send_direct_def)
  have room: "buf_used (outputBuffer cn) + unat ?rem \<le> vec_max_size" using rem assms(8) by simp
  have K: "ctl_documented K" using assms(1) by (simp add: network_documented_def)
  from send_buffered_conn [OF ok K _ _ room, of 0 d] rem assms(4,9) obtain m' where
    m': "send_buffered K c d (int 0) ?rem ?m = Inr m'"
      "pending_of (cn_loop cn) m' = pending_of (cn_loop cn) m
        @ (if readableBytes (outputBuffer cn) < highWaterMark cn
              \<and> highWaterMark cn \<le> readableBytes (outputBuffer cn) + ?rem
           then [HighWater u c (readableBytes (outputBuffer cn) + ?rem)] else [])"
    by auto
  have "sendInLoop K c sp (int (length d)) ?m = Inr m'"
    using conn_loads(1) [OF ok] assms(3,5) direct pos m'(1) by (simp add: sendInLoop_def)
  then have "send_string K c sp d m = Inr m'"
    using send_string_eq [OF assms(2,3,5,7)] by simp
  moreover have r: "unat (readableBytes (outputBuffer cn)) = length (contents (outputBuffer cn))"
    by (simp add: length_contents [OF inv])
  moreover have sum: "unat (readableBytes (outputBuffer cn) + ?rem)
      = length (contents (outputBuffer cn)) + length d"
    using buffer_invD [OF inv] rem assms(7) r unat_readable [OF inv] by (subst unat_add_size) simp_all
  moreover have "readableBytes (outputBuffer cn) + ?rem
      = word_of_nat (length (contents (outputBuffer cn)) + length d)"
    unfolding word_unat_eq_iff sum
    using buffer_invD [OF inv] assms(7) r unat_readable [OF inv]
    by (subst unat_of_nat_size) simp_all
  ultimately show ?thesis
    using m'(2) by (simp add: word_less_nat_alt word_le_nat_alt del: of_nat_add of_int_of_nat_eq)
qed

theorem highWaterMark_on_crossing_witness:
  "\<exists>m'. send_string (quota_kernel 2) 8 20 [1, 2, 3, 4] (net_with kReadEvent net_conn) = Inr m'
    \<and> pending_of 1 m' = [HighWater 5 8 4]"
proof -
  have ok: "conn_ok 8 net_conn ((Channel 1 9)\<lparr>ch_events := kReadEvent\<rparr>) (net_with kReadEvent net_conn)"
    by (rule net_with_ok) (simp_all add: Buffer_inv)
  from highWaterMark_on_crossing [OF quota_network ok, of 20 "[1, 2, 3, 4]" 5 2] show ?thesis
    by (simp add: reading_isWriting buf_used_Buffer vec_max_size_def contents_Buffer pending_of_def
        net_with_def net_machine_def net_loop_def)
qed

text \<open>Sizes that do not fit an \<open>int\<close>: a string whose length is a multiple of \<open>2 ^ 32\<close> is cut
  to length 0 and, when the connection has data pending or counts as writing, is dropped without
  a trace.\<close>

theorem send_multiple_of_4GiB_lost:
  assumes "conn_ok c cn ch m" and "cn_state cn = kConnected" and "isWriting ch"
    and "sp \<noteq> 0" and "bytes_at m sp = Some d" and "length d mod 2 ^ 32 = 0"
  shows "send K c sp m = Inr m"
proof -
  have "unat (word_of_nat (length d) :: 32 word) = 0"
    using assms(6) by (simp add: unat_of_nat)
  then have "(word_of_nat (length d) :: 32 word) = 0" by (simp only: unat_eq_0)
  then have len: "int_of_size (length d) = 0" by (simp add: int_of_size_def)
  from conn_ok_loop [OF assms(1)] obtain el where el: "loop_at m (cn_loop cn) = Some el"
    "threadId el = cur_tid m" .
  have "send K c sp m = sendInLoop K c sp 0 m"
    using conn_okD [OF assms(1)] el assms(2,4,5) len by (simp add: send_def isInLoopthread_def)
  also have "\<dots> = Inr m"
    using conn_loads [OF assms(1)] assms(2-5) by (simp add: sendInLoop_def send_direct_def)
  finally show ?thesis .
qed

definition big_string :: "byte list" where "big_string = replicate (2 ^ 32) 7"

lemma length_big_string: "length big_string = 2 ^ 32"
  by (simp only: big_string_def length_replicate)

theorem send_multiple_of_4GiB_lost_witness:
  "send quiet_kernel 8 20 ((net_with kReadEvent net_conn)\<lparr>bytes_at := [20 \<mapsto> big_string]\<rparr>)
    = Inr ((net_with kReadEvent net_conn)\<lparr>bytes_at := [20 \<mapsto> big_string]\<rparr>)"
proof -
  have "conn_ok 8 net_conn ((Channel 1 9)\<lparr>ch_events := kReadEvent\<rparr>) (net_with kReadEvent net_conn)"
    by (rule net_with_ok) (simp_all add: Buffer_inv)
  then have ok: "conn_ok 8 net_conn ((Channel 1 9)\<lparr>ch_events := kReadEvent\<rparr>)
      ((net_with kReadEvent net_conn)\<lparr>bytes_at := [20 \<mapsto> big_string]\<rparr>)" by simp
  show ?thesis
    by (rule send_multiple_of_4GiB_lost [OF ok, where d = big_string]) (simp_all add: reading_isWriting length_big_string)
qed



text \<open>\<open>handleRead\<close>, by the result of the read: data leads to the message callback, with the
  time of the poll and the enlarged input buffer in place; 0 to \<open>handleClose\<close> in a state that
  differs by the call made; an error to a single \<open>getsockopt\<close> and nothing else, whatever the
  error is, so the connection stays open.\<close>

theorem handleRead_branches:
  assumes "recv_documented K" and "length extra = extraBuffer_size" and "conn_ok c cn ch m"
    and "buffer_inv (inputBuffer cn)"
  shows "conn_handleRead K extra U c t m = Inl LengthError
    \<or> (\<exists>k. let call = SysRecv (sock_fd cn) k;
               r = K (trace m) call;
               m1 = put_conn c cn (log_sys call r m);
               ask = SysGetsockoptError (sock_fd cn)
           in sr_rv r \<le> 0 \<and> conn_handleRead K extra U c t m
               = (if sr_rv r = 0 then handleClose K U c m1 else Inr (log_sys ask (K (trace m1) ask) m1)))
    \<or> (\<exists>m1 b. conn_handleRead K extra U c t m = invoke U (\<lambda>u. OnMessage u c t) (messageCallback cn) m1
        \<and> conn_at m1 c = Some (cn\<lparr>inputBuffer := b\<rparr>) \<and> buffer_inv b
        \<and> length (contents b) > length (contents (inputBuffer cn))
        \<and> take (length (contents (inputBuffer cn))) (contents b) = contents (inputBuffer cn))"
proof -
  define k :: nat where "k = (if writableBytes (inputBuffer cn) < word_of_nat extraBuffer_size then 2 else 1)"
  define call where "call = SysRecv (sock_fd cn) k"
  define r where "r = K (trace m) call"
  define m1 where "m1 = log_sys call r m"
  note loads = conn_loads [OF assms(3)] conn_okD(6) [OF assms(3)]
  have same: "cn\<lparr>inputBuffer := inputBuffer cn\<rparr> = cn" by simp
  have m1_ok: "chan_at m1 = chan_at m" by (simp add: m1_def)
  consider "readFd K extra (sock_fd cn) (inputBuffer cn) 0 m = Inl LengthError"
    | n e b m' where "readFd K extra (sock_fd cn) (inputBuffer cn) 0 m = Inr (((n, e), b), m')"
      "buffer_inv b" "n < 0 \<Longrightarrow> b = inputBuffer cn"
      "0 \<le> n \<Longrightarrow> \<exists>stale. length stale = nat n \<and> contents b = contents (inputBuffer cn) @ stale"
    using readFd_props [OF assms(4,1,2), of "sock_fd cn" 0 m] by (fastforce split: if_splits)
  then show ?thesis
  proof cases
    case 1
    with loads show ?thesis by (simp add: conn_handleRead_def)
  next
    case 2
    have rd: "n = sr_rv r" "m' = m1" "n = 0 \<Longrightarrow> b = inputBuffer cn"
      using 2(1) by (auto simp: readFd_def do_sys_log Let_def k_def call_def r_def m1_def
          word_le_nat_alt halts split: if_splits)
    define m2 where "m2 = put_conn c (cn\<lparr>inputBuffer := b\<rparr>) m1"
    have eq: "conn_handleRead K extra U c t m = (if n > 0 then invoke U (\<lambda>u. OnMessage u c t) (messageCallback cn) m2
        else if n = 0 then handleClose K U c m2
        else bindE (handleError K c m2) (\<lambda>(err, m3). Inr m3))"
      using 2(1) loads rd(2) by (simp add: conn_handleRead_def Let_def m2_def)
    show ?thesis
    proof (cases "n > 0")
      case True
      then obtain stale where "length stale = nat n" "contents b = contents (inputBuffer cn) @ stale"
        using 2(4) by auto
      with True 2(2) eq show ?thesis
        by (intro disjI2 exI [of _ m2] exI [of _ b]) (simp add: m2_def)
    next
      case False
      then have b: "b = inputBuffer cn" using 2(3) rd(3) by (cases "n = 0") auto
      have "bindE (handleError K c m2) (\<lambda>(err, m3). Inr m3)
          = Inr (log_sys (SysGetsockoptError (sock_fd cn)) (K (trace m2) (SysGetsockoptError (sock_fd cn))) m2)"
        using conn_okD [OF assms(3)] by (simp add: handleError_def do_sys_log Let_def m2_def m1_def)
      with False eq rd(1) b show ?thesis
        by (intro disjI2 [OF disjI1] exI [of _ k])
          (simp add: Let_def call_def [symmetric] r_def [symmetric] m1_def [symmetric] m2_def)
    qed
  qed
qed

definition failing_kernel :: kernel where
  "failing_kernel tr call = zero_ret\<lparr>sr_rv := -1\<rparr>"

theorem handleRead_branches_witness:
  "conn_handleRead failing_kernel (replicate extraBuffer_size 0) no_user 8 0 net_machine = Inl LengthError
    \<or> (\<exists>m1. conn_handleRead failing_kernel (replicate extraBuffer_size 0) no_user 8 0 net_machine = Inr m1)"
proof -
  have "recv_documented failing_kernel" by (simp add: recv_documented_def failing_kernel_def)
  from handleRead_branches [OF this _ net_machine_ok, of "replicate extraBuffer_size 0" no_user 0]
  show ?thesis
    by (auto simp: Buffer_inv failing_kernel_def invoke_def no_user_def Let_def)
qed

text \<open>\<open>handleWrite\<close> loses nothing and finishes the work: it never fails, keeps the stream,
  and when it empties the output buffer the channel no longer counts as writing, the
  write-complete callback is queued once if it is set, and a connection that is disconnecting is
  half-closed at that moment, its last system call.\<close>

theorem handleWrite_drains:
  assumes "ctl_documented K" and "write_documented K" and "conn_ok c cn ch m"
  shows "\<exists>m' b ch'. handleWrite K c m = Inr m' \<and> conn_ok c (cn\<lparr>outputBuffer := b\<rparr>) ch' m'
    \<and> wire (sock_fd cn) (trace m') @ contents b
      = wire (sock_fd cn) (trace m) @ contents (outputBuffer cn)
    \<and> (isWriting ch \<and> contents (outputBuffer cn) \<noteq> [] \<and> contents b = [] \<longrightarrow>
        \<not> isWriting ch'
        \<and> pending_of (cn_loop cn) m' = pending_of (cn_loop cn) m
            @ (case writeCompleteCallback cn of None \<Rightarrow> [] | Some u \<Rightarrow> [WriteComplete u c])
        \<and> (cn_state cn = kDisconnecting \<longrightarrow> fst (last (trace m')) = SysShutdownWrite (sock_fd cn)))"
  using handleWrite_conn [OF assms(3,1,2)] by blast

definition full_buffer :: buffer where
  "full_buffer = \<lparr>buf_data = replicate 8 0 @ [1, 2, 3], readerIndex = 8, writerIndex = 11\<rparr>"

theorem handleWrite_drains_witness:
  "\<exists>m' b. handleWrite (quota_kernel 2) 8 (net_with EPOLLOUT (net_conn\<lparr>outputBuffer := full_buffer\<rparr>)) = Inr m'
    \<and> wire 9 (trace m') @ contents b = [1, 2, 3]"
proof -
  let ?cn = "net_conn\<lparr>outputBuffer := full_buffer\<rparr>"
  have b: "buffer_inv full_buffer" "contents full_buffer = [1, 2, 3]"
    by (simp_all add: full_buffer_def buffer_inv_def contents_def vec_max_size_def)
  have ok: "conn_ok 8 ?cn ((Channel 1 9)\<lparr>ch_events := EPOLLOUT\<rparr>) (net_with EPOLLOUT ?cn)"
    by (rule net_with_ok) (simp_all add: b)
  have "wire 9 (trace (net_with EPOLLOUT ?cn)) = []" by (simp add: net_with_def net_machine_def)
  with handleWrite_drains [OF quota_kernel_documented(3,1) ok, of 2] b show ?thesis by auto
qed

end
