(* ===== verification/Muduo_TcpServer.thy ===== *)
theory Muduo_TcpServer
  imports Muduo_Acceptor Muduo_ThreadPool Muduo_TcpConnection
begin

text \<open>
  \<open>muduo/TcpServer.h\<close> and \<open>muduo/TcpServer.cpp\<close>: the table of connections by name, the start of
  the server, what happens to an accepted descriptor and to a closed connection. Servers live in
  the store \<open>server_at\<close>; the closures a server binds are the constructors of \<open>app\<close> beside the
  user's own callbacks.
\<close>

section \<open>State\<close>

datatype 'v app =
    User 'v
  | RemoveConnection ptr
  | RemoveConnectionInLoop ptr ptr
  | AcceptorListen ptr
  | AcceptorHandleRead ptr

record 'v tcpserver =
  sv_loop :: ptr
  sv_ipPort :: string
  sv_name :: string
  sv_acceptor :: acceptor
  sv_threadPool :: pool
  sv_connectionCallback :: "'v app option"
  sv_messageCallback :: "'v app option"
  sv_writeCompleteCallback :: "'v app option"
  sv_threadInitCallback :: "'v option"
  sv_started :: u32
  sv_nextConnId :: int
  sv_connections :: "string \<Rightarrow> ptr option"

record 'v world = "'v app net" +
  server_at :: "ptr \<Rightarrow> 'v tcpserver option"

definition put_server :: "ptr \<Rightarrow> 'v tcpserver \<Rightarrow> ('v, 'z) world_scheme \<Rightarrow> ('v, 'z) world_scheme" where
  "put_server s sv m = m\<lparr>server_at := (server_at m)(s \<mapsto> sv)\<rparr>"

section \<open>Operations\<close>

text \<open>The constructor; \<open>s\<close> is the address of the server, \<open>w\<close> that of the acceptor's channel.\<close>

definition TcpServer :: "kernel \<Rightarrow> ptr \<Rightarrow> sockaddr_in \<Rightarrow> string \<Rightarrow> bool \<Rightarrow> ptr \<Rightarrow> ptr
    \<Rightarrow> ('v, 'z) world_scheme \<Rightarrow> ('v, 'z) world_scheme result" where
  "TcpServer K l listenAddr nameArg reusePort s w m =
     (if l = 0 then Inl ExitProcess
      else bindE (toIpPort listenAddr) (\<lambda>ipPort.
        bindE (Acceptor K (OtherClosure (AcceptorHandleRead s)) l listenAddr reusePort w m) (\<lambda>(ac, m1).
        Inr (put_server s \<lparr>sv_loop = l, sv_ipPort = ipPort, sv_name = nameArg, sv_acceptor = ac,
               sv_threadPool = EventLoopThreadPool l nameArg, sv_connectionCallback = None,
               sv_messageCallback = None, sv_writeCompleteCallback = None,
               sv_threadInitCallback = None, sv_started = 0, sv_nextConnId = 1,
               sv_connections = Map.empty\<rparr> m1))))"

text \<open>The closure \<open>std::bind(&Acceptor::listen, acceptor_.get())\<close>.\<close>

definition run_acceptor_listen :: "kernel \<Rightarrow> ptr \<Rightarrow> ('v, 'z) world_scheme \<Rightarrow> ('v, 'z) world_scheme result" where
  "run_acceptor_listen K s m = bindE (load s (server_at m)) (\<lambda>sv.
     bindE (acceptor_listen K (sv_acceptor sv) m) (\<lambda>(ac, m1). bindE (load s (server_at m1)) (\<lambda>sv1.
     Inr (put_server s (sv1\<lparr>sv_acceptor := ac\<rparr>) m1))))"

text \<open>\<open>I\<close> runs a thread-init callback on a loop, \<open>places\<close> are the resources of the threads.\<close>

definition server_start :: "kernel \<Rightarrow> ('v \<Rightarrow> ptr \<Rightarrow> ('v, 'z) world_scheme \<Rightarrow> ('v, 'z) world_scheme result)
    \<Rightarrow> (nat \<Rightarrow> place) \<Rightarrow> ptr \<Rightarrow> ('v, 'z) world_scheme \<Rightarrow> ('v, 'z) world_scheme result" where
  "server_start K I places s m = bindE (load s (server_at m)) (\<lambda>sv.
     let m1 = put_server s (sv\<lparr>sv_started := sv_started sv + 1\<rparr>) m in
     if sv_started sv = 0
     then bindE (pool_start K LoopHandleRead (map_option I (sv_threadInitCallback sv)) places
                   (sv_threadPool sv, m1)) (\<lambda>(tp, m2).
       bindE (load s (server_at m2)) (\<lambda>sv2.
       runInLoop K (\<lambda>_. run_acceptor_listen K s) (sv_loop sv2) (OtherClosure (AcceptorListen s))
         (put_server s (sv2\<lparr>sv_threadPool := tp\<rparr>) m2)))
     else Inr m1)"

definition conn_suffix :: "string \<Rightarrow> int \<Rightarrow> string" where
  "conn_suffix ipPort n = snprintf 64 (''-'' @ ipPort @ ''#'' @ dec_int n)"

text \<open>\<open>newConnection\<close>; \<open>c\<close> and \<open>w\<close> are the addresses of the new connection and its channel.\<close>

definition newConnection :: "kernel \<Rightarrow> ('v app user_call \<Rightarrow> ('v, 'z) world_scheme \<Rightarrow> ('v, 'z) world_scheme result)
    \<Rightarrow> ptr \<Rightarrow> ptr \<Rightarrow> ptr \<Rightarrow> int \<Rightarrow> sockaddr_in \<Rightarrow> ('v, 'z) world_scheme \<Rightarrow> ('v, 'z) world_scheme result" where
  "newConnection K U c w s sockFd peer m = bindE (load s (server_at m)) (\<lambda>sv.
     let (ioLoop, tp) = getNextLoop (sv_threadPool sv);
         buf = conn_suffix (sv_ipPort sv) (sv_nextConnId sv);
         connName = sv_name sv @ buf;
         (r, m1) = do_sys K (SysGetsockname sockFd) m;
         la = (if sr_rv r < 0 then \<lparr>sin_family = 0, sin_port = 0, s_addr = 0\<rparr> else sr_addr r)
     in bindE (TcpConnection K ioLoop connName sockFd la peer c w m1) (\<lambda>m2.
        let m3 = put_server s (sv\<lparr>sv_threadPool := tp, sv_nextConnId := sv_nextConnId sv + 1,
                   sv_connections := (sv_connections sv)(connName \<mapsto> c)\<rparr>) m2
        in bindE (setConnectionCallback (sv_connectionCallback sv) c m3) (\<lambda>m4.
           bindE (setMessageCallback (sv_messageCallback sv) c m4) (\<lambda>m5.
           bindE (setCloseCallback (Some (RemoveConnection s)) c m5) (\<lambda>m6.
           bindE (setWriteCompleteCallback (sv_writeCompleteCallback sv) c m6) (\<lambda>m7.
           runInLoop K (\<lambda>_. conneectEstableished K U c) ioLoop (ConnEstablished c) m7))))))"

definition removeConnectionInLoop :: "kernel \<Rightarrow> ptr \<Rightarrow> ptr \<Rightarrow> ('v, 'z) world_scheme
    \<Rightarrow> ('v, 'z) world_scheme result" where
  "removeConnectionInLoop K s c m = bindE (load s (server_at m)) (\<lambda>sv.
     bindE (load c (conn_at m)) (\<lambda>cn.
     queueInLoop K (cn_loop cn) (ConnDestroyed c)
       (put_server s (sv\<lparr>sv_connections := (sv_connections sv)(cn_name cn := None)\<rparr>) m)))"

definition removeConnection :: "kernel \<Rightarrow> ptr \<Rightarrow> ptr \<Rightarrow> ('v, 'z) world_scheme
    \<Rightarrow> ('v, 'z) world_scheme result" where
  "removeConnection K s c m = bindE (load s (server_at m)) (\<lambda>sv.
     runInLoop K (\<lambda>_. removeConnectionInLoop K s c) (sv_loop sv)
       (OtherClosure (RemoveConnectionInLoop s c)) m)"

text \<open>
  The callbacks of a connection and the closures of the server's queue; \<open>V\<close> runs the user's own.
\<close>

definition app_call :: "kernel \<Rightarrow> ('v app user_call \<Rightarrow> ('v, 'z) world_scheme \<Rightarrow> ('v, 'z) world_scheme result)
    \<Rightarrow> 'v app user_call \<Rightarrow> ('v, 'z) world_scheme \<Rightarrow> ('v, 'z) world_scheme result" where
  "app_call K V uc m = (case uc of
     OnClose (RemoveConnection s) c \<Rightarrow> removeConnection K s c m
   | OnOther (RemoveConnectionInLoop s c) \<Rightarrow> removeConnectionInLoop K s c m
   | OnOther (AcceptorListen s) \<Rightarrow> run_acceptor_listen K s m
   | _ \<Rightarrow> V uc m)"

text \<open>The acceptor's read callback with \<open>newConnection\<close> behind it.\<close>

definition accept_one :: "kernel \<Rightarrow> ('v app user_call \<Rightarrow> ('v, 'z) world_scheme \<Rightarrow> ('v, 'z) world_scheme result)
    \<Rightarrow> u32 \<Rightarrow> sockaddr_in \<Rightarrow> ptr \<Rightarrow> ptr \<Rightarrow> ptr \<Rightarrow> ('v, 'z) world_scheme \<Rightarrow> ('v, 'z) world_scheme result" where
  "accept_one K V len peer0 c w s m = bindE (load s (server_at m)) (\<lambda>sv.
     acceptor_handleRead K len peer0 (Some (newConnection K (app_call K V) c w s)) (sv_acceptor sv) m)"

text \<open>
  The destructor. \<open>order\<close> is the order in which the unordered map is walked. After the body the
  thread pool goes, which quits its loops, and then the acceptor.
\<close>

definition drop_connection :: "kernel \<Rightarrow> ('v app user_call \<Rightarrow> ('v, 'z) world_scheme \<Rightarrow> ('v, 'z) world_scheme result)
    \<Rightarrow> (string \<Rightarrow> ptr option) \<Rightarrow> string \<Rightarrow> ('v, 'z) world_scheme \<Rightarrow> ('v, 'z) world_scheme result" where
  "drop_connection K U conns name m = (case conns name of None \<Rightarrow> Inr m
     | Some c \<Rightarrow> bindE (load c (conn_at m)) (\<lambda>cn.
         runInLoop K (\<lambda>_. conneectDestroyed K U c) (cn_loop cn) (ConnDestroyed c) m))"

definition destroy_TcpServer :: "kernel \<Rightarrow> ('v app user_call \<Rightarrow> ('v, 'z) world_scheme \<Rightarrow> ('v, 'z) world_scheme result)
    \<Rightarrow> string list \<Rightarrow> ptr \<Rightarrow> ('v, 'z) world_scheme \<Rightarrow> ('v, 'z) world_scheme result" where
  "destroy_TcpServer K U order s m = bindE (load s (server_at m)) (\<lambda>sv.
     bindE (foldE (drop_connection K U (sv_connections sv)) order m) (\<lambda>m1.
     bindE (foldE (quit K) (tp_loops (sv_threadPool sv)) m1) (\<lambda>m2.
     bindE (destroy_Acceptor K (sv_acceptor sv) m2) (\<lambda>m3.
     Inr (m3\<lparr>server_at := (server_at m3)(s := None)\<rparr>)))))"

section \<open>Names of connections\<close>

definition conn_name :: "'v tcpserver \<Rightarrow> int \<Rightarrow> string" where
  "conn_name sv k = sv_name sv @ ''-'' @ sv_ipPort sv @ ''#'' @ dec_int k"

definition table_ok :: "'v tcpserver \<Rightarrow> bool" where
  "table_ok sv \<longleftrightarrow> length (sv_ipPort sv) \<le> 21 \<and> 1 \<le> sv_nextConnId sv
     \<and> (\<forall>n \<in> dom (sv_connections sv). \<exists>k. 1 \<le> k \<and> k < sv_nextConnId sv \<and> n = conn_name sv k)"

lemma conn_name_inject: "conn_name sv j = conn_name sv k \<longleftrightarrow> j = k"
  by (simp add: conn_name_def)

lemma conn_suffix_fits:
  assumes "length ip \<le> 21" and "0 \<le> k" and "k < 2 ^ 31"
  shows "conn_suffix ip k = ''-'' @ ip @ ''#'' @ dec_int k"
proof -
  have "nat k < 10 ^ Suc 9" using assms by simp
  then have "length (dec_nat (nat k)) \<le> Suc 9" by (rule length_dec_nat)
  then have "length (dec_int k) \<le> 10" using assms(2) by (simp add: dec_int_def)
  then show ?thesis using assms(1) by (simp add: conn_suffix_def)
qed

lemma next_name_fresh:
  assumes "table_ok sv"
  shows "conn_name sv (sv_nextConnId sv) \<notin> dom (sv_connections sv)"
proof
  assume "conn_name sv (sv_nextConnId sv) \<in> dom (sv_connections sv)"
  with assms obtain k where "k < sv_nextConnId sv" "conn_name sv (sv_nextConnId sv) = conn_name sv k"
    unfolding table_ok_def by blast
  then show False by (simp only: conn_name_inject)
qed

lemma table_okI:
  assumes "length (sv_ipPort sv) \<le> 21" and "1 \<le> sv_nextConnId sv"
    and "\<And>n. n \<in> dom (sv_connections sv) \<Longrightarrow> \<exists>k. 1 \<le> k \<and> k < sv_nextConnId sv \<and> n = conn_name sv k"
  shows "table_ok sv"
  using assms unfolding table_ok_def by blast

lemma table_okD:
  assumes "table_ok sv"
  shows "length (sv_ipPort sv) \<le> 21" "1 \<le> sv_nextConnId sv"
    "\<And>n. n \<in> dom (sv_connections sv) \<Longrightarrow> \<exists>k. 1 \<le> k \<and> k < sv_nextConnId sv \<and> n = conn_name sv k"
  using assms unfolding table_ok_def by blast+

lemma conn_name_keeps [simp]:
  "conn_name (sv\<lparr>sv_connections := t\<rparr>) = conn_name sv"
  "conn_name (sv\<lparr>sv_nextConnId := n\<rparr>) = conn_name sv"
  "conn_name (sv\<lparr>sv_threadPool := tp\<rparr>) = conn_name sv"
  by (simp_all add: conn_name_def fun_eq_iff)

lemma table_ok_insert:
  assumes "table_ok sv"
  shows "table_ok (sv\<lparr>sv_threadPool := tp, sv_nextConnId := sv_nextConnId sv + 1,
    sv_connections := (sv_connections sv)(conn_name sv (sv_nextConnId sv) \<mapsto> c)\<rparr>)" (is "table_ok ?sv")
proof (rule table_okI)
  fix n assume "n \<in> dom (sv_connections ?sv)"
  then consider "n = conn_name sv (sv_nextConnId sv)" | "n \<in> dom (sv_connections sv)" by auto
  then show "\<exists>k. 1 \<le> k \<and> k < sv_nextConnId ?sv \<and> n = conn_name ?sv k"
  proof cases
    case 1
    then show ?thesis
      using table_okD(2) [OF assms] by (intro exI [of _ "sv_nextConnId sv"]) simp
  next
    case 2
    from table_okD(3) [OF assms 2] obtain k where "1 \<le> k" "k < sv_nextConnId sv" "n = conn_name sv k"
      by blast
    then show ?thesis by (intro exI [of _ k]) simp
  qed
qed (use table_okD(1,2) [OF assms] in simp_all)

lemma table_ok_erase:
  "table_ok sv \<Longrightarrow> table_ok (sv\<lparr>sv_connections := (sv_connections sv)(n := None)\<rparr>)"
  by (simp add: table_ok_def)

section \<open>What the operations leave alone\<close>

lemma put_server_simps [simp]:
  "server_at (put_server s sv m) = (server_at m)(s \<mapsto> sv)" "conn_at (put_server s sv m) = conn_at m"
  "loop_at (put_server s sv m) = loop_at m" "cur_tid (put_server s sv m) = cur_tid m"
  "chan_at (put_server s sv m) = chan_at m" "trace (put_server s sv m) = trace m"
  "poller_at (put_server s sv m) = poller_at m"
  by (simp_all add: put_server_def)

lemma server_keeps [simp]:
  "server_at (put_chan a ch m) = server_at m" "server_at (put_poller p po m) = server_at m"
  "server_at (put_loop l el m) = server_at m" "server_at (log_sys call r m) = server_at m"
  "server_at (put_conn c cn m) = server_at m"
  by (simp_all add: put_chan_def put_poller_def put_loop_def log_sys_def put_conn_def)

lemma server_more: "net.more m' = net.more m \<Longrightarrow> server_at m' = server_at m"
  by (cases m; cases m') simp

lemma put_server_keeps [simp]:
  "poller_inv p (put_server s sv m) = poller_inv p m" "usable p w (put_server s sv m) = usable p w m"
  "watched p (put_server s sv m) w = watched p m w" "pending_of l (put_server s sv m) = pending_of l m"
  "conn_ok c cn ch (put_server s sv m) = conn_ok c cn ch m" "bytes_at (put_server s sv m) = bytes_at m"
  by (simp_all add: poller_inv_def usable_def watched_def pending_of_def conn_ok_def put_server_def
      split: option.split)

lemma put_conn_put_conn [simp]: "put_conn c cn (put_conn c cn' m) = put_conn c cn m"
  by (simp add: put_conn_def)

lemma with_conn_eq:
  "c \<noteq> 0 \<Longrightarrow> conn_at m c = Some cn \<Longrightarrow> with_conn f c m = Inr (put_conn c (f cn) m)"
  by (simp add: with_conn_def)

lemmas setter_defs = setConnectionCallback_def setMessageCallback_def setCloseCallback_def
  setWriteCompleteCallback_def

section \<open>Taking a connection out\<close>

definition erase_name :: "string \<Rightarrow> 'v tcpserver \<Rightarrow> 'v tcpserver" where
  "erase_name n sv = sv\<lparr>sv_connections := (sv_connections sv)(n := None)\<rparr>"

lemma queueInLoop_server:
  fixes m :: "('v, 'z) world_scheme"
  assumes "l \<noteq> 0" and "loop_at m l = Some el"
  shows "\<exists>m'. queueInLoop K l f m = Inr m' \<and> server_at m' = server_at m \<and> conn_at m' = conn_at m
    \<and> chan_at m' = chan_at m \<and> pending_of l m' = pending_of l m @ [f]
    \<and> (\<forall>k. k \<noteq> l \<longrightarrow> pending_of k m' = pending_of k m)"
  unfolding queueInLoop_eq [OF assms] using assms by (simp add: Let_def pending_of_def)

lemma removeConnectionInLoop_erases:
  fixes m :: "('v, 'z) world_scheme"
  assumes "s \<noteq> 0" "server_at m s = Some sv" and "c \<noteq> 0" "conn_at m c = Some cn"
    and "cn_loop cn \<noteq> 0" "loop_at m (cn_loop cn) = Some el"
  shows "\<exists>m'. removeConnectionInLoop K s c m = Inr m'
    \<and> server_at m' s = Some (erase_name (cn_name cn) sv) \<and> conn_at m' = conn_at m
    \<and> pending_of (cn_loop cn) m' = pending_of (cn_loop cn) m @ [ConnDestroyed c]"
proof -
  let ?m = "put_server s (erase_name (cn_name cn) sv) m"
  have "removeConnectionInLoop K s c m = queueInLoop K (cn_loop cn) (ConnDestroyed c) ?m"
    using assms(1-4) by (simp add: removeConnectionInLoop_def erase_name_def)
  moreover have "loop_at ?m (cn_loop cn) = Some el" using assms(6) by simp
  ultimately show ?thesis using queueInLoop_server [OF assms(5), of ?m el K "ConnDestroyed c"] by auto
qed

section \<open>Properties\<close>

text \<open>The machine in which \<open>newConnection\<close> hands the connection to its loop.\<close>

definition next_server :: "pool \<Rightarrow> ptr \<Rightarrow> 'v tcpserver \<Rightarrow> 'v tcpserver" where
  "next_server tp c sv = sv\<lparr>sv_threadPool := tp, sv_nextConnId := sv_nextConnId sv + 1,
     sv_connections := (sv_connections sv)(conn_name sv (sv_nextConnId sv) \<mapsto> c)\<rparr>"

definition conn_chan :: "ptr \<Rightarrow> int \<Rightarrow> ptr \<Rightarrow> 'u closure channel" where
  "conn_chan l fd c = (Channel l fd)\<lparr>readCallBack := Some (ConnHandleRead c),
     writeCallBack := Some (ConnHandleWrite c), closeCallBack := Some (ConnHandleClose c),
     errorCallBack := Some (ConnHandleError c)\<rparr>"

lemma newConnection_shape:
  fixes m :: "('v, 'z) world_scheme"
  assumes "s \<noteq> 0" and "server_at m s = Some sv" and "table_ok sv" and "sv_nextConnId sv < 2 ^ 31"
    and "c \<noteq> 0" and "getNextLoop (sv_threadPool sv) = (l, tp)" and "l \<noteq> 0"
  shows "\<exists>m1 cn cn0 r r'. newConnection K U c w s fd peer m
      = runInLoop K (\<lambda>_. conneectEstableished K U c) l (ConnEstablished c) m1
    \<and> m1 = put_conn c cn (put_server s (next_server tp c sv) (log_sys (SysSetsockopt fd SO_KEEPALIVE 1) r'
        (put_conn c cn0 (put_chan w (conn_chan l fd c) (log_sys (SysGetsockname fd) r m)))))
    \<and> cn_name cn = conn_name sv (sv_nextConnId sv) \<and> cn_loop cn = l \<and> cn_channel cn = w
    \<and> cn_state cn = kConnecting \<and> sock_fd cn = fd \<and> closeCallback cn = Some (RemoveConnection s)
    \<and> connectionCallback cn = sv_connectionCallback sv \<and> messageCallback cn = sv_messageCallback sv
    \<and> writeCompleteCallback cn = sv_writeCompleteCallback sv \<and> buffer_inv (outputBuffer cn) \<and> buffer_inv (inputBuffer cn)"
proof -
  let ?n = "conn_name sv (sv_nextConnId sv)"
  have name: "sv_name sv @ conn_suffix (sv_ipPort sv) (sv_nextConnId sv) = ?n"
    using assms(3,4) conn_suffix_fits [of "sv_ipPort sv" "sv_nextConnId sv"]
    by (simp add: table_ok_def conn_name_def)
  define r where "r = K (trace m) (SysGetsockname fd)"
  define la where "la = (if sr_rv r < 0 then \<lparr>sin_family = 0, sin_port = 0, s_addr = 0\<rparr> else sr_addr r)"
  obtain m2 :: "('v, 'z) world_scheme" and cn r' where
    m2: "TcpConnection K l ?n fd la peer c w (log_sys (SysGetsockname fd) r m) = Inr m2"
      "m2 = log_sys (SysSetsockopt fd SO_KEEPALIVE 1) r'
        (put_conn c cn (put_chan w (conn_chan l fd c) (log_sys (SysGetsockname fd) r m)))"
      "cn_name cn = ?n" "cn_loop cn = l" "cn_channel cn = w" "cn_state cn = kConnecting" "sock_fd cn = fd"
      "buffer_inv (outputBuffer cn)" "buffer_inv (inputBuffer cn)"
    using assms(7) by (simp add: TcpConnection_def Let_def setKeepAlive_def socket_calls_log Buffer_inv conn_chan_def)
  let ?cn = "cn\<lparr>connectionCallback := sv_connectionCallback sv, messageCallback := sv_messageCallback sv,
      closeCallback := Some (RemoveConnection s), writeCompleteCallback := sv_writeCompleteCallback sv\<rparr>"
  let ?m1 = "put_conn c ?cn (put_server s (next_server tp c sv) m2)"
  have "conn_at m2 c = Some cn" by (simp add: m2(2))
  then have "newConnection K U c w s fd peer m
      = runInLoop K (\<lambda>_. conneectEstableished K U c) l (ConnEstablished c) ?m1"
    using assms(1,2,5,6) m2(1) name
    by (simp add: newConnection_def do_sys_log Let_def setter_defs with_conn_eq next_server_def
        r_def [symmetric] la_def [symmetric])
  then show ?thesis using m2(2-9)
    by (intro exI [of _ ?m1] exI [of _ ?cn] exI [of _ cn] exI [of _ r] exI [of _ r']) simp
qed

text \<open>C13: The beginning of a connection, from the readable listening socket to the watched connection,
  when the next loop is the one that runs: the accepted descriptor gets a connection under a fresh
  name in the table, which is connected, belongs to a poller in order, is watched for reading and
  reports its close to the server.\<close>

theorem accepted_connection_is_served:
  fixes m :: "('v, 'z) world_scheme"
  assumes K: "ctl_documented K"
    and sv: "s \<noteq> 0" "server_at m s = Some sv" "table_ok sv" "sv_nextConnId sv < 2 ^ 31"
      "sv_connectionCallback sv = Some (User u)"
    and loop: "getNextLoop (sv_threadPool sv) = (l, tp)" "l \<noteq> 0" "loop_at m l = Some el" "threadId el = cur_tid m"
    and po: "poller_inv (el_poller el) m" "poller_at m (el_poller el) = Some po" "po_owner po = l"
    and new: "c \<noteq> 0" "w \<noteq> 0" "chan_at m w = None"
    and fd: "K (trace m) (SysAccept (ac_fd (sv_acceptor sv)) len) = r" "0 < sr_rv r"
      "po_channels po (sr_rv r) = None" "weakupFd el \<noteq> sr_rv r"
    and V: "\<And>x. V (OnConnection (User u) c) x = Inr x"
  shows "\<exists>m' sv' cn ch. accept_one K V len peer0 c w s m = Inr m' \<and> server_at m' s = Some sv' \<and> table_ok sv'
    \<and> sv_connections sv' = (sv_connections sv)(conn_name sv (sv_nextConnId sv) \<mapsto> c)
    \<and> conn_ok c cn ch m' \<and> cn_state cn = kConnected \<and> sock_fd cn = sr_rv r \<and> cn_channel cn = w
    \<and> closeCallback cn = Some (RemoveConnection s) \<and> watched (el_poller el) m' w = Some kReadEvent"
proof -
  define m0 where "m0 = log_sys (SysAccept (ac_fd (sv_acceptor sv)) len) r m"
  have sv0: "server_at m0 s = Some sv" using sv(2) by (simp add: m0_def)
  let ?U = "app_call K V"
  have acc: "accept_one K V len peer0 c w s m = newConnection K ?U c w s (sr_rv r) (sr_addr r) m0"
    using sv(1,2) fd(1,2)
    by (simp add: accept_one_def acceptor_handleRead_def socket_accept_def do_sys_log Let_def setSockAddr_def m0_def)
  from newConnection_shape [OF sv(1) sv0 sv(3,4) new(1) loop(1,2), of K ?U w "sr_rv r" "sr_addr r"]
  obtain m1 cn cn0 r1 r2 where
    nc: "newConnection K ?U c w s (sr_rv r) (sr_addr r) m0 = runInLoop K (\<lambda>_. conneectEstableished K ?U c) l (ConnEstablished c) m1"
      "m1 = put_conn c cn (put_server s (next_server tp c sv) (log_sys (SysSetsockopt (sr_rv r) SO_KEEPALIVE 1) r2
        (put_conn c cn0 (put_chan w (conn_chan l (sr_rv r) c) (log_sys (SysGetsockname (sr_rv r)) r1 m0)))))"
      "cn_loop cn = l" "cn_channel cn = w" "sock_fd cn = sr_rv r" "closeCallback cn = Some (RemoveConnection s)"
      "connectionCallback cn = Some (User u)" "buffer_inv (outputBuffer cn)"
    using sv(5) by auto
  let ?ch = "conn_chan l (sr_rv r) c"
  have ch: "ch_index ?ch = kNew" "ch_fd ?ch = sr_rv r" "ch_loop ?ch = l" "ch_events ?ch = 0"
    by (simp_all add: conn_chan_def Channel_def kNew_def)
  let ?mg = "log_sys (SysGetsockname (sr_rv r)) r1 m0"
  have "poller_inv (el_poller el) ?mg" "poller_at ?mg (el_poller el) = Some po" "chan_at ?mg w = None"
    using po(1,2) new(3) by (simp_all add: m0_def)
  from poller_inv_new_chan [OF this(1,2) new(2) this(3) ch(1), unfolded ch] fd(3) po(3)
  have "poller_inv (el_poller el) (put_chan w ?ch ?mg)" "usable (el_poller el) w (put_chan w ?ch ?mg)"
    by simp_all
  then have "poller_inv (el_poller el) m1" "usable (el_poller el) w m1" by (simp_all add: nc(2))
  then have ok: "conn_ok c cn ?ch m1"
    using nc(2-5,8) new(1,2) loop(2-4) fd(4) ch by (simp add: conn_ok_def m0_def)
  have el1: "loop_at m1 (cn_loop cn) = Some el" using loop(3) by (simp add: nc(2,3) m0_def)
  from conneectEstableished_conn [OF K ok el1, of ?U] obtain m' ch' where
    est: "conneectEstableished K ?U c m1 = Inr m'" "conn_ok c (cn\<lparr>cn_state := kConnected\<rparr>) ch' m'"
      "watched (el_poller el) m' w = Some kReadEvent" "net.more m' = net.more m1"
    using V by (auto simp: invoke_def app_call_def nc(4,7) ch(4) enableReading_ev_def)
  have "server_at m' s = Some (next_server tp c sv)" using server_more [OF est(4)] by (simp add: nc(2))
  moreover have "table_ok (next_server tp c sv)"
    unfolding next_server_def by (rule table_ok_insert [OF sv(3)])
  moreover have "accept_one K V len peer0 c w s m = Inr m'"
    using acc nc(1,3) est(1) runInLoop_conn [OF ok, of K "\<lambda>_. conneectEstableished K ?U c"] by simp
  ultimately show ?thesis using est(2,3) nc(4-6)
    by (intro exI [of _ m'] exI [of _ "next_server tp c sv"] exI [of _ "cn\<lparr>cn_state := kConnected\<rparr>"] exI [of _ ch'])
      (simp add: next_server_def)
qed

text \<open>C19: \<open>newConnection\<close> gives every connection a name of its own: the name is not cut off by
  its 64-byte buffer and not in the table yet, so no earlier connection is replaced, and the
  table stays in order. The new connection is connecting, belongs to the loop whose turn it is,
  has the server's callbacks and reports its close to the server; all that is in place before
  \<open>conneectEstableished\<close> is run or queued in that loop.\<close>

theorem newConnection_registers:
  fixes m :: "('v, 'z) world_scheme"
  assumes "s \<noteq> 0" and "server_at m s = Some sv" and "table_ok sv" and "sv_nextConnId sv < 2 ^ 31"
    and "c \<noteq> 0" and "getNextLoop (sv_threadPool sv) = (l, tp)" and "l \<noteq> 0"
  shows "\<exists>m1 sv1 cn. newConnection K U c w s fd peer m
      = runInLoop K (\<lambda>_. conneectEstableished K U c) l (ConnEstablished c) m1
    \<and> server_at m1 s = Some sv1 \<and> table_ok sv1 \<and> sv_threadPool sv1 = tp
    \<and> conn_name sv (sv_nextConnId sv) \<notin> dom (sv_connections sv)
    \<and> sv_connections sv1 = (sv_connections sv)(conn_name sv (sv_nextConnId sv) \<mapsto> c)
    \<and> conn_at m1 c = Some cn \<and> cn_name cn = conn_name sv (sv_nextConnId sv) \<and> cn_loop cn = l
    \<and> cn_state cn = kConnecting \<and> sock_fd cn = fd \<and> closeCallback cn = Some (RemoveConnection s)
    \<and> connectionCallback cn = sv_connectionCallback sv \<and> messageCallback cn = sv_messageCallback sv
    \<and> writeCompleteCallback cn = sv_writeCompleteCallback sv"
proof -
  from newConnection_shape [OF assms] obtain m1 cn cn0 r r' where
    new: "newConnection K U c w s fd peer m = runInLoop K (\<lambda>_. conneectEstableished K U c) l (ConnEstablished c) m1"
      "m1 = put_conn c cn (put_server s (next_server tp c sv) (log_sys (SysSetsockopt fd SO_KEEPALIVE 1) r'
        (put_conn c cn0 (put_chan w (conn_chan l fd c) (log_sys (SysGetsockname fd) r m)))))"
      "cn_name cn = conn_name sv (sv_nextConnId sv)" "cn_loop cn = l" "cn_state cn = kConnecting" "sock_fd cn = fd"
      "closeCallback cn = Some (RemoveConnection s)" "connectionCallback cn = sv_connectionCallback sv"
      "messageCallback cn = sv_messageCallback sv" "writeCompleteCallback cn = sv_writeCompleteCallback sv"
    by blast
  have "server_at m1 s = Some (next_server tp c sv)" "conn_at m1 c = Some cn" by (simp_all add: new(2))
  moreover have "table_ok (next_server tp c sv)"
    unfolding next_server_def by (rule table_ok_insert [OF assms(3)])
  ultimately show ?thesis
    using new(1,3-) next_name_fresh [OF assms(3)]
    by (intro exI [of _ m1] exI [of _ "next_server tp c sv"] exI [of _ cn]) (simp add: next_server_def)
qed

text \<open>A closed connection leaves the table once, in the server's own thread. Called there,
  \<open>removeConnection\<close> erases exactly the connection's name, keeps the table in order and queues
  \<open>conneectDestroyed\<close> on the connection's loop. Called in another thread it only queues a closure
  on the server's loop, and that closure does the same when the server's thread runs it.\<close>

theorem removeConnection_erases:
  fixes m :: "('v, 'z) world_scheme"
  assumes "s \<noteq> 0" "server_at m s = Some sv" "table_ok sv" and "c \<noteq> 0" "conn_at m c = Some cn"
    and "cn_loop cn \<noteq> 0" "loop_at m (cn_loop cn) = Some el" and "sv_loop sv \<noteq> 0" "loop_at m (sv_loop sv) = Some base"
  shows "\<exists>m1. removeConnection K s c m = Inr m1 \<and> table_ok (erase_name (cn_name cn) sv)
    \<and> conn_at m1 = conn_at m
    \<and> (if threadId base = cur_tid m
       then server_at m1 s = Some (erase_name (cn_name cn) sv)
         \<and> pending_of (cn_loop cn) m1 = pending_of (cn_loop cn) m @ [ConnDestroyed c]
       else server_at m1 = server_at m
         \<and> pending_of (sv_loop sv) m1 = pending_of (sv_loop sv) m @ [OtherClosure (RemoveConnectionInLoop s c)]
         \<and> (\<exists>m2. app_call K V (OnOther (RemoveConnectionInLoop s c)) m1 = Inr m2
             \<and> server_at m2 s = Some (erase_name (cn_name cn) sv)
             \<and> pending_of (cn_loop cn) m2 = pending_of (cn_loop cn) m1 @ [ConnDestroyed c]))"
proof (cases "threadId base = cur_tid m")
  case True
  then have "removeConnection K s c m = removeConnectionInLoop K s c m"
    using assms(1,2,8,9) by (simp add: removeConnection_def runInLoop_def isInLoopthread_def)
  with removeConnectionInLoop_erases [OF assms(1,2,4-7), of K] table_ok_erase [OF assms(3)] True
  show ?thesis by (auto simp: erase_name_def)
next
  case False
  let ?f = "OtherClosure (RemoveConnectionInLoop s c)"
  have "removeConnection K s c m = queueInLoop K (sv_loop sv) ?f m"
    using False assms(1,2,8,9) by (simp add: removeConnection_def runInLoop_def isInLoopthread_def)
  moreover obtain m1 where m1: "queueInLoop K (sv_loop sv) ?f m = Inr m1" "server_at m1 = server_at m"
    "conn_at m1 = conn_at m" "pending_of (sv_loop sv) m1 = pending_of (sv_loop sv) m @ [?f]"
    "\<exists>el1. loop_at m1 (cn_loop cn) = Some el1"
    using assms(7) unfolding queueInLoop_eq [OF assms(8,9)] by (auto simp: Let_def pending_of_def assms(9))
  moreover from m1(5) obtain el1 where "loop_at m1 (cn_loop cn) = Some el1" by blast
  with removeConnectionInLoop_erases [OF assms(1) _ assms(4) _ assms(6), of m1 sv el1 K] m1 assms(2,5)
  have "\<exists>m2. app_call K V (OnOther (RemoveConnectionInLoop s c)) m1 = Inr m2
      \<and> server_at m2 s = Some (erase_name (cn_name cn) sv)
      \<and> pending_of (cn_loop cn) m2 = pending_of (cn_loop cn) m1 @ [ConnDestroyed c]"
    by (auto simp: app_call_def)
  ultimately show ?thesis using table_ok_erase [OF assms(3)] False by (simp add: erase_name_def)
qed

text \<open>The end of a connection, from the peer's close to the last descriptor, on a server without
  threads of its own. \<open>handleClose\<close> takes the name out of the server's table and queues
  \<open>ConnDestroyed\<close> last; running that closure takes the channel out of the poller, the kernel no
  longer watches the socket and every \<open>epoll_ctl\<close> call was legal; when the last reference goes,
  the destructor's assertion holds, the channel is gone and the socket is closed.\<close>

theorem peer_close_cleans_up:
  fixes m :: "('v, 'z) world_scheme"
  assumes K: "ctl_documented K" and ok: "conn_ok c cn ch m" and el: "loop_at m (cn_loop cn) = Some el"
    and st: "cn_state cn = kConnected \<or> cn_state cn = kDisconnecting"
    and cb: "connectionCallback cn = Some (User u)" "closeCallback cn = Some (RemoveConnection s)"
    and V: "\<And>x. V (OnConnection (User u) c) x = Inr x"
    and sv: "s \<noteq> 0" "server_at m s = Some sv" "sv_loop sv = cn_loop cn"
  shows "\<exists>m1 m2 m3 po. handleClose K (app_call K V) c m = Inr m1
    \<and> server_at m1 s = Some (erase_name (cn_name cn) sv)
    \<and> pending_of (cn_loop cn) m1 = pending_of (cn_loop cn) m @ [ConnDestroyed c]
    \<and> run_closure K extra (app_call K V) (ConnDestroyed c) t m1 = Inr m2
    \<and> history_conforms (trace m2) \<and> poller_at m1 (el_poller el) = Some po
    \<and> interest (po_epfd po) (trace m2) (sock_fd cn) = None
    \<and> destroy_TcpConnection K c m2 = Inr m3 \<and> conn_at m3 c = None \<and> chan_at m3 (cn_channel cn) = None
    \<and> map fst (trace m3) = map fst (trace m2) @ [SysClose (sock_fd cn)]"
proof -
  let ?cn = "cn\<lparr>cn_state := kDisconnected\<rparr>"
  note d = conn_okD [OF ok]
  from handleClose_open [OF K ok el st, of "app_call K V"] obtain m2 ch' where
    hc: "handleClose K (app_call K V) c m
        = bindE (invoke (app_call K V) (\<lambda>u. OnConnection u c) (connectionCallback cn) m2) (\<lambda>m3.
            bindE (load c (conn_at m3)) (\<lambda>cn3. invoke (app_call K V) (\<lambda>u. OnClose u c) (closeCallback cn3) m3))"
    and ok2: "conn_ok c ?cn ch' m2" and same: "loop_at m2 = loop_at m" "cur_tid m2 = cur_tid m"
      "net.more m2 = net.more m" by blast
  have srv: "server_at m2 s = Some sv" using server_more [OF same(3)] sv(2) by simp
  let ?m2 = "put_server s (erase_name (cn_name cn) sv) m2"
  have "conn_ok c ?cn ch' ?m2" using ok2 by simp
  from queueInLoop_conn [OF this, of K "ConnDestroyed c"] obtain m3 where
    q: "queueInLoop K (cn_loop cn) (ConnDestroyed c) ?m2 = Inr m3" and ok3: "conn_ok c ?cn ch' m3" by auto
  from el same have elm2: "loop_at ?m2 (cn_loop cn) = Some el" by simp
  have keep: "server_at m3 s = Some (erase_name (cn_name cn) sv)"
    "pending_of (cn_loop cn) m3 = pending_of (cn_loop cn) m @ [ConnDestroyed c]"
    "loop_at m3 (cn_loop cn) = Some (el\<lparr>pendingFunctors := pendingFunctors el @ [ConnDestroyed c]\<rparr>)"
    using q el same unfolding queueInLoop_eq [OF d(7) elm2] by (auto simp: Let_def pending_of_def)
  have "runInLoop K (\<lambda>_. removeConnectionInLoop K s c) (sv_loop sv) f m2 = removeConnectionInLoop K s c m2" for f
    using runInLoop_conn [OF ok2, of K "\<lambda>_. removeConnectionInLoop K s c"] sv(3) by simp
  then have "removeConnection K s c m2 = Inr m3"
    using q sv(1) srv d(1) conn_okD(2) [OF ok2]
    by (simp add: removeConnection_def removeConnectionInLoop_def erase_name_def)
  then have m1: "handleClose K (app_call K V) c m = Inr m3"
    using hc V cb conn_loads [OF ok2] by (simp add: invoke_def app_call_def)
  from channel_remove_conn [OF ok3 K] obtain m4 po where
    m4: "channel_remove K (cn_channel cn) m3 = Inr m4" "conn_at m4 = conn_at m3"
      "chan_at m4 (cn_channel cn) = Some (ch'\<lparr>ch_index := kNew\<rparr>)" "history_conforms (trace m4)"
      "poller_at m3 (el_poller el) = Some po" "interest (po_epfd po) (trace m4) (sock_fd cn) = None"
    using keep(3) by auto
  have run: "run_closure K extra (app_call K V) (ConnDestroyed c) t m3 = Inr m4"
    using conn_loads [OF ok3] m4(1) by (simp add: conneectDestroyed_def)
  obtain m5 where m5: "destroy_TcpConnection K c m4 = Inr m5" "conn_at m5 c = None"
    "chan_at m5 (cn_channel cn) = None" "map fst (trace m5) = map fst (trace m4) @ [SysClose (sock_fd cn)]"
    using d(1,4) m4(2,3) conn_okD(2) [OF ok3]
    by (simp add: destroy_TcpConnection_def close_socket_def do_sys_def Let_def)
  show ?thesis using m1 keep run m4 m5 by blast
qed

text \<open>\<open>start()\<close> has an effect once: as long as the counter does not wrap, every call after the
  first only counts; no thread is started and nothing listens a second time.\<close>

theorem server_start_once:
  assumes "s \<noteq> 0" and "server_at m s = Some sv" and "0 < unat (sv_started sv)"
    and "unat (sv_started sv) + k < 2 ^ 32"
  shows "foldE (\<lambda>_. server_start K I places s) (replicate k ()) m
    = Inr (put_server s (sv\<lparr>sv_started := sv_started sv + word_of_nat k\<rparr>) m)"
  using assms(2-4)
proof (induction k arbitrary: m sv)
  case 0
  then show ?case by (simp add: put_server_def fun_upd_idem)
next
  case (Suc k)
  let ?sv = "sv\<lparr>sv_started := sv_started sv + 1\<rparr>"
  have "sv_started sv \<noteq> 0" using Suc.prems(2) by auto
  then have step: "server_start K I places s m = Inr (put_server s ?sv m)"
    using assms(1) Suc.prems(1) by (simp add: server_start_def)
  have plus: "unat (sv_started sv + 1) = unat (sv_started sv) + 1"
    using Suc.prems(3) by (simp add: unat_word_ariths)
  have "foldE (\<lambda>_. server_start K I places s) (replicate k ()) (put_server s ?sv m)
      = Inr (put_server s (?sv\<lparr>sv_started := sv_started ?sv + word_of_nat k\<rparr>) (put_server s ?sv m))"
    by (rule Suc.IH) (use Suc.prems plus in simp_all)
  with step show ?case by (simp add: put_server_def add.assoc)
qed


section \<open>An example\<close>

text \<open>Server 40 on loop 1, with connection 8 on descriptor 9 as its first.\<close>

definition demo_server :: "nat tcpserver" where
  "demo_server = \<lparr>sv_loop = 1, sv_ipPort = ''10.0.0.1:80'', sv_name = ''srv'',
     sv_acceptor = \<lparr>ac_loop = 1, ac_fd = 5, ac_channel = 11, ac_listening = True\<rparr>,
     sv_threadPool = EventLoopThreadPool 1 ''srv'', sv_connectionCallback = Some (User 1),
     sv_messageCallback = Some (User 2), sv_writeCompleteCallback = None, sv_threadInitCallback = None,
     sv_started = 1, sv_nextConnId = 2, sv_connections = [''srv-10.0.0.1:80#1'' \<mapsto> 8]\<rparr>"

definition demo_conn :: "nat app tcpconn" where
  "demo_conn = \<lparr>cn_loop = 1, cn_name = ''srv-10.0.0.1:80#1'', cn_state = kConnected, sock_fd = 9,
     cn_channel = 10, localAddr = sr_addr zero_ret, peerAddr = sr_addr zero_ret,
     connectionCallback = Some (User 1), messageCallback = Some (User 2), writeCompleteCallback = None,
     closeCallback = Some (RemoveConnection 40), highWaterMarkCallback = None, highWaterMark = 4,
     inputBuffer = Buffer 0, outputBuffer = Buffer 0\<rparr>"

definition demo_loop :: "nat app closure eventloop" where
  "demo_loop = \<lparr>looping = True, el_quit = False, threadId = 100, pollReturnTime = 0, el_poller = 2,
     weakupFd = 4, weakupChannel = 7, activateChannels = [], callingPendingFunctors = False,
     pendingFunctors = []\<rparr>"

definition demo_world :: "nat world" where
  "demo_world = \<lparr>trace = [], chan_at = [10 \<mapsto> Channel 1 9], poller_at = [2 \<mapsto> small_poller],
     loop_at = [1 \<mapsto> demo_loop], cur_tid = 100, t_loopInThisThread = (\<lambda>_. 0)(100 := 1),
     conn_at = [8 \<mapsto> demo_conn], bytes_at = Map.empty, server_at = [40 \<mapsto> demo_server]\<rparr>"

definition quiet_user :: "nat app user_call \<Rightarrow> nat world \<Rightarrow> nat world result" where
  "quiet_user uc m = Inr m"

lemma demo_world_simps [simp]:
  "server_at demo_world 40 = Some demo_server" "conn_at demo_world 8 = Some demo_conn"
  "loop_at demo_world 1 = Some demo_loop" "loop_at demo_world (Suc 0) = Some demo_loop" "cur_tid demo_world = 100"
  "cn_loop demo_conn = 1" "cn_channel demo_conn = 10" "sock_fd demo_conn = 9" "cn_state demo_conn = kConnected"
  "connectionCallback demo_conn = Some (User 1)" "closeCallback demo_conn = Some (RemoveConnection 40)"
  "sv_loop demo_server = 1" "sv_started demo_server = 1" "threadId demo_loop = 100"
  by (simp_all add: demo_world_def demo_conn_def demo_server_def demo_loop_def)

lemma demo_table: "table_ok demo_server"
proof (rule table_okI)
  fix n assume "n \<in> dom (sv_connections demo_server)"
  then have "n = ''srv-10.0.0.1:80#1''" by (auto simp: demo_server_def split: if_splits)
  moreover have "conn_name demo_server 1 = ''srv-10.0.0.1:80#1''"
    by (simp add: demo_server_def conn_name_def dec_int_def dec_nat.simps)
  ultimately show "\<exists>k. 1 \<le> k \<and> k < sv_nextConnId demo_server \<and> n = conn_name demo_server k"
    by (intro exI [of _ 1]) (simp add: demo_server_def)
qed (simp_all add: demo_server_def)

lemma demo_conn_ok: "conn_ok 8 demo_conn (Channel 1 9) demo_world"
proof -
  have "channels_ok small_poller (chan_at demo_world)"
    by (simp add: channels_ok_def demo_world_def small_poller_def Channel_def kNew_def kAdd_def
        kDelete_def)
  then have "poller_inv 2 demo_world"
    by (simp add: poller_inv_def registry_ok_def demo_world_def small_poller_def expected_def
        fun_eq_iff)
  moreover have "usable 2 10 demo_world"
    by (simp add: usable_def demo_world_def small_poller_def Channel_def free_for_def)
  ultimately show ?thesis
    by (simp add: conn_ok_def demo_world_def demo_conn_def demo_loop_def Channel_def Buffer_inv)
qed

theorem newConnection_registers_witness:
  "\<exists>m1 sv1. newConnection quiet_kernel (app_call quiet_kernel quiet_user) 50 51 40 12 (sr_addr zero_ret) demo_world
      = runInLoop quiet_kernel (\<lambda>_. conneectEstableished quiet_kernel (app_call quiet_kernel quiet_user) 50)
          1 (ConnEstablished 50) m1
    \<and> server_at m1 40 = Some sv1 \<and> table_ok sv1
    \<and> sv_connections sv1 = [''srv-10.0.0.1:80#1'' \<mapsto> 8, ''srv-10.0.0.1:80#2'' \<mapsto> 50]"
proof -
  have n: "getNextLoop (sv_threadPool demo_server) = (1, sv_threadPool demo_server)"
    by (simp add: demo_server_def getNextLoop_def EventLoopThreadPool_def)
  have name: "conn_name demo_server (sv_nextConnId demo_server) = ''srv-10.0.0.1:80#2''"
    by (simp add: demo_server_def conn_name_def dec_int_def dec_nat.simps)
  have conns: "sv_connections demo_server = [''srv-10.0.0.1:80#1'' \<mapsto> 8]" and "sv_nextConnId demo_server < 2 ^ 31"
    by (simp_all add: demo_server_def)
  from newConnection_registers [OF _ _ demo_table this(2) _ n, of 40 demo_world 50 quiet_kernel
      "app_call quiet_kernel quiet_user" 51 12 "sr_addr zero_ret"]
  show ?thesis unfolding name conns by auto
qed

text \<open>A kernel whose \<open>accept\<close> returns descriptor 12.\<close>

definition accepting_kernel :: kernel where
  "accepting_kernel tr c = (case c of SysAccept fd len \<Rightarrow> zero_ret\<lparr>sr_rv := 12\<rparr> | _ \<Rightarrow> zero_ret)"

theorem accepted_connection_is_served_witness:
  "\<exists>m' cn. accept_one accepting_kernel quiet_user 0 (sr_addr zero_ret) 50 51 40 demo_world = Inr m'
    \<and> conn_at m' 50 = Some cn \<and> cn_state cn = kConnected \<and> sock_fd cn = 12
    \<and> watched 2 m' 51 = Some kReadEvent"
proof -
  have "\<exists>m' sv' cn ch. accept_one accepting_kernel quiet_user 0 (sr_addr zero_ret) 50 51 40 demo_world = Inr m'
    \<and> server_at m' 40 = Some sv' \<and> table_ok sv'
    \<and> sv_connections sv' = (sv_connections demo_server)(conn_name demo_server (sv_nextConnId demo_server) \<mapsto> 50)
    \<and> conn_ok 50 cn ch m' \<and> cn_state cn = kConnected \<and> sock_fd cn = sr_rv (zero_ret\<lparr>sr_rv := 12\<rparr>) \<and> cn_channel cn = 51
    \<and> closeCallback cn = Some (RemoveConnection 40) \<and> watched (el_poller demo_loop) m' 51 = Some kReadEvent"
  proof (rule accepted_connection_is_served [where u = 1 and l = 1 and tp = "sv_threadPool demo_server" and po = small_poller])
    show "ctl_documented accepting_kernel"
      by (simp add: ctl_documented_def accepting_kernel_def zero_ret_def)
    show "poller_inv (el_poller demo_loop) demo_world"
      using demo_conn_ok by (auto simp: conn_ok_def)
    show "table_ok demo_server" by (rule demo_table)
  qed (simp_all add: demo_world_def demo_server_def demo_loop_def small_poller_def accepting_kernel_def
      getNextLoop_def EventLoopThreadPool_def quiet_user_def)
  then show ?thesis by (auto simp: conn_ok_def demo_loop_def)
qed

theorem removeConnection_erases_witness:
  "\<exists>m1 m2. removeConnection quiet_kernel 40 8 (demo_world\<lparr>cur_tid := 200\<rparr>) = Inr m1
    \<and> app_call quiet_kernel quiet_user (OnOther (RemoveConnectionInLoop 40 8)) m1 = Inr m2
    \<and> server_at m2 40 = Some (erase_name (cn_name demo_conn) demo_server)"
  using removeConnection_erases [OF _ _ demo_table, of 40 "demo_world\<lparr>cur_tid := 200\<rparr>" 8 demo_conn
      demo_loop demo_loop quiet_kernel quiet_user]
  by auto

theorem peer_close_cleans_up_witness:
  "\<exists>m1 m2 m3. handleClose quiet_kernel (app_call quiet_kernel quiet_user) 8 demo_world = Inr m1
    \<and> run_closure quiet_kernel [] (app_call quiet_kernel quiet_user) (ConnDestroyed 8) 0 m1 = Inr m2
    \<and> destroy_TcpConnection quiet_kernel 8 m2 = Inr m3 \<and> conn_at m3 8 = None"
proof -
  have el: "loop_at demo_world (cn_loop demo_conn) = Some demo_loop" by simp
  from peer_close_cleans_up [OF quiet_kernel_documented(3) demo_conn_ok el, of 1 40 quiet_user
      demo_server "[]" 0]
  show ?thesis by (auto simp: quiet_user_def)
qed

theorem server_start_once_witness:
  "foldE (\<lambda>_. server_start quiet_kernel (\<lambda>_ _. Inr) example_place 40) [(), (), ()] demo_world
    = Inr (put_server 40 (demo_server\<lparr>sv_started := 4\<rparr>) demo_world)"
  using server_start_once [of 40 demo_world demo_server 3 quiet_kernel "\<lambda>_ _. Inr" example_place]
  by (simp add: numeral_3_eq_3)

end
