(* ===== verification/Muduo_Logger.thy ===== *)
theory Muduo_Logger
  imports Muduo_OS
begin

text \<open>
  \<open>muduo/logger.h\<close>, \<open>muduo/logger.cpp\<close>, \<open>muduo/timestamp.h\<close> and \<open>muduo/timestamp.cpp\<close>: the
  levels, the filter of \<open>log\<close>, the four macros and the text of a time stamp. \<open>std::cout\<close> is the
  string written so far. \<open>localtime\<close> is a parameter that may return a null pointer.
\<close>

section \<open>Timestamp\<close>

record timestamp =
  microSecSinceEpoch :: int

definition Timestamp :: "int \<Rightarrow> timestamp" where
  "Timestamp t = \<lparr>microSecSinceEpoch = t\<rparr>"

text \<open>\<open>now\<close> stores the result of \<open>time(nullptr)\<close>, which counts seconds.\<close>

definition now :: "kernel \<Rightarrow> 'z os_scheme \<Rightarrow> timestamp \<times> 'z os_scheme" where
  "now K m = (let (r, m1) = do_sys K SysTime m in (Timestamp (sr_rv r), m1))"

record tm =
  tm_sec :: int
  tm_min :: int
  tm_hour :: int
  tm_mday :: int
  tm_mon :: int
  tm_year :: int

definition percent_02d :: "int \<Rightarrow> string" where
  "percent_02d i = pad_left (CHR ''0'') 2 (dec_int i)"

definition percent_4d :: "int \<Rightarrow> string" where
  "percent_4d i = pad_left (CHR '' '') 4 (dec_int i)"

definition toString :: "(int \<Rightarrow> tm option) \<Rightarrow> timestamp \<Rightarrow> string result" where
  "toString localtime ts = (case localtime (microSecSinceEpoch ts) of
     None \<Rightarrow> Inl NullPointer
   | Some tm_time \<Rightarrow> Inr (snprintf 128 (percent_4d (tm_year tm_time + 1900) @ ''/''
       @ percent_02d (tm_mon tm_time + 1) @ ''/'' @ percent_02d (tm_mday tm_time) @ '' ''
       @ percent_02d (tm_hour tm_time) @ '':'' @ percent_02d (tm_min tm_time) @ '':''
       @ percent_02d (tm_sec tm_time))))"

section \<open>Logger\<close>

datatype LogLevel = INFO | DEBUG | ERROR | FATAL

fun level_int :: "LogLevel \<Rightarrow> int" where
  "level_int INFO = 0"
| "level_int DEBUG = 1"
| "level_int ERROR = 2"
| "level_int FATAL = 3"

lemma level_int_inject [simp]: "level_int a = level_int b \<longleftrightarrow> a = b"
  by (cases a; cases b) simp_all

text \<open>The levels are ordered as the values of the C enumeration.\<close>

instantiation LogLevel :: linorder
begin

definition less_eq_LogLevel :: "LogLevel \<Rightarrow> LogLevel \<Rightarrow> bool" where
  "a \<le> b \<longleftrightarrow> level_int a \<le> level_int b"

definition less_LogLevel :: "LogLevel \<Rightarrow> LogLevel \<Rightarrow> bool" where
  "a < b \<longleftrightarrow> level_int a < level_int b"

instance
  by standard (auto simp: less_eq_LogLevel_def less_LogLevel_def)

end

record logger = os +
  logLevel :: int
  cout :: string

definition setLoggerLevel :: "int \<Rightarrow> logger \<Rightarrow> logger" where
  "setLoggerLevel l m = m\<lparr>logLevel := l\<rparr>"

text \<open>\<open>info\<close>, \<open>debug\<close>, \<open>error\<close> and \<open>fatal\<close> differ in their tag.\<close>

fun tag_of :: "LogLevel \<Rightarrow> string" where
  "tag_of INFO = ''[INFO]''"
| "tag_of DEBUG = ''[DEBUG]''"
| "tag_of ERROR = ''[ERROR]''"
| "tag_of FATAL = ''[FATAL]''"

definition print_line :: "kernel \<Rightarrow> (int \<Rightarrow> tm option) \<Rightarrow> string \<Rightarrow> string \<Rightarrow> logger \<Rightarrow> logger result" where
  "print_line K localtime tag msg m = (let m1 = m\<lparr>cout := cout m @ tag\<rparr>; (ts, m2) = now K m1 in
     bindE (toString localtime ts) (\<lambda>s. Inr (m2\<lparr>cout := cout m2 @ s @ '' : '' @ msg @ [CHR 0x0A]\<rparr>)))"

definition info :: "kernel \<Rightarrow> (int \<Rightarrow> tm option) \<Rightarrow> string \<Rightarrow> logger \<Rightarrow> logger result" where
  "info K localtime = print_line K localtime (tag_of INFO)"
definition debug :: "kernel \<Rightarrow> (int \<Rightarrow> tm option) \<Rightarrow> string \<Rightarrow> logger \<Rightarrow> logger result" where
  "debug K localtime = print_line K localtime (tag_of DEBUG)"
definition log_error :: "kernel \<Rightarrow> (int \<Rightarrow> tm option) \<Rightarrow> string \<Rightarrow> logger \<Rightarrow> logger result" where
  "log_error K localtime = print_line K localtime (tag_of ERROR)"
definition fatal :: "kernel \<Rightarrow> (int \<Rightarrow> tm option) \<Rightarrow> string \<Rightarrow> logger \<Rightarrow> logger result" where
  "fatal K localtime = print_line K localtime (tag_of FATAL)"

text \<open>\<open>log\<close>: the level is an \<open>int\<close>; the \<open>switch\<close> has no default.\<close>

definition log_msg :: "kernel \<Rightarrow> (int \<Rightarrow> tm option) \<Rightarrow> int \<Rightarrow> string \<Rightarrow> logger \<Rightarrow> logger result" where
  "log_msg K localtime l msg m =
     (if l < logLevel m then Inr m
      else if l = level_int INFO then info K localtime msg m
      else if l = level_int DEBUG then debug K localtime msg m
      else if l = level_int ERROR then log_error K localtime msg m
      else if l = level_int FATAL then fatal K localtime msg m
      else Inr m)"

text \<open>
  The macros. \<open>text\<close> is what the format and its arguments give; a buffer of 1024 bytes holds it.
  Only \<open>LOG_FATAL\<close> ends the process.
\<close>

definition log_macro :: "kernel \<Rightarrow> (int \<Rightarrow> tm option) \<Rightarrow> LogLevel \<Rightarrow> string \<Rightarrow> logger \<Rightarrow> logger result" where
  "log_macro K localtime l text m =
     (let m1 = setLoggerLevel (level_int l) m; buf = snprintf 1024 text
      in log_msg K localtime (level_int l) buf m1)"

definition LOG_INFO :: "kernel \<Rightarrow> (int \<Rightarrow> tm option) \<Rightarrow> string \<Rightarrow> logger \<Rightarrow> logger result" where
  "LOG_INFO K localtime = log_macro K localtime INFO"
definition LOG_DEBUG :: "kernel \<Rightarrow> (int \<Rightarrow> tm option) \<Rightarrow> string \<Rightarrow> logger \<Rightarrow> logger result" where
  "LOG_DEBUG K localtime = log_macro K localtime DEBUG"
definition LOG_ERROR :: "kernel \<Rightarrow> (int \<Rightarrow> tm option) \<Rightarrow> string \<Rightarrow> logger \<Rightarrow> logger result" where
  "LOG_ERROR K localtime = log_macro K localtime ERROR"
definition LOG_FATAL :: "kernel \<Rightarrow> (int \<Rightarrow> tm option) \<Rightarrow> string \<Rightarrow> logger \<Rightarrow> logger result" where
  "LOG_FATAL K localtime text m = bindE (log_macro K localtime FATAL text m) (\<lambda>_. Inl ExitProcess)"

section \<open>The text of a time stamp\<close>

text \<open>The ranges \<open>localtime(3)\<close> documents, and a year of four digits.\<close>

definition tm_ok :: "tm \<Rightarrow> bool" where
  "tm_ok t \<longleftrightarrow> 0 \<le> tm_sec t \<and> tm_sec t \<le> 60 \<and> 0 \<le> tm_min t \<and> tm_min t \<le> 59 \<and> 0 \<le> tm_hour t \<and> tm_hour t \<le> 23
     \<and> 1 \<le> tm_mday t \<and> tm_mday t \<le> 31 \<and> 0 \<le> tm_mon t \<and> tm_mon t \<le> 11
     \<and> 1000 \<le> tm_year t + 1900 \<and> tm_year t + 1900 \<le> 9999"

text \<open>Reading the fields back from their columns.\<close>

definition column :: "nat \<Rightarrow> nat \<Rightarrow> string \<Rightarrow> int" where
  "column i n s = int (undec (take n (drop i s)))"

definition read_stamp :: "string \<Rightarrow> tm" where
  "read_stamp s = \<lparr>tm_sec = column 17 2 s, tm_min = column 14 2 s, tm_hour = column 11 2 s,
     tm_mday = column 8 2 s, tm_mon = column 5 2 s - 1, tm_year = column 0 4 s - 1900\<rparr>"

lemma undec_Cons_zero: "undec (CHR ''0'' # s) = undec s"
  by (simp add: undec_def digit_val_def)

lemma length_dec_nat_lower: "10 ^ k \<le> n \<Longrightarrow> k < length (dec_nat n)"
proof (induction k arbitrary: n)
  case 0
  show ?case by simp
next
  case (Suc k)
  then have "10 ^ k \<le> n div 10" by (simp add: less_eq_div_iff_mult_less_eq mult.commute)
  then have "k < length (dec_nat (n div 10))" by (rule Suc.IH)
  moreover have "\<not> n < 10" using Suc.prems by (metis le_trans linorder_not_le one_le_numeral
      power_Suc self_le_ge2_pow mult_le_mono2 nat_mult_1_right one_le_power)
  ultimately show ?case by (simp add: dec_nat.simps [of n])
qed

lemma percent_02d_two:
  assumes "0 \<le> i" and "i < 100"
  shows "length (percent_02d i) = 2" and "int (undec (percent_02d i)) = i"
proof -
  have "length (dec_nat (nat i)) \<le> Suc 1" using assms by (intro length_dec_nat) simp
  moreover have "0 < length (dec_nat (nat i))" by simp
  ultimately consider "length (dec_nat (nat i)) = 1" | "length (dec_nat (nat i)) = 2" by linarith
  then show "length (percent_02d i) = 2" and "int (undec (percent_02d i)) = i"
    using assms by (cases; simp add: percent_02d_def pad_left_def dec_int_def undec_Cons_zero undec_dec_nat)+
qed

lemma percent_4d_four:
  assumes "1000 \<le> i" and "i \<le> 9999"
  shows "length (percent_4d i) = 4" and "int (undec (percent_4d i)) = i"
proof -
  have "length (dec_nat (nat i)) \<le> Suc 3" using assms by (intro length_dec_nat) simp
  moreover have "3 < length (dec_nat (nat i))" using assms by (intro length_dec_nat_lower) simp
  ultimately have "length (dec_nat (nat i)) = 4" by simp
  then show "length (percent_4d i) = 4" and "int (undec (percent_4d i)) = i"
    using assms by (simp_all add: percent_4d_def pad_left_def dec_int_def undec_dec_nat)
qed

section \<open>Properties\<close>


text \<open>What \<open>log\<close> lets through: with the level set to \<open>l\<close>, a message of level \<open>k\<close> is printed
  exactly when \<open>l \<le> k\<close>; otherwise nothing at all happens, and no time is asked for.\<close>

theorem log_filters:
  assumes "localtime (sr_rv (K (trace m) SysTime)) = Some t"
  shows "\<exists>s. toString localtime (Timestamp (sr_rv (K (trace m) SysTime))) = Inr s
    \<and> log_msg K localtime (level_int k) msg (setLoggerLevel (level_int l) m)
      = Inr (if l \<le> k then (setLoggerLevel (level_int l) m)\<lparr>trace := trace m @ [(SysTime, K (trace m) SysTime)],
            cout := cout m @ tag_of k @ s @ '' : '' @ msg @ [CHR 0x0A]\<rparr>
          else setLoggerLevel (level_int l) m)"
proof -
  obtain s where s: "toString localtime (Timestamp (sr_rv (K (trace m) SysTime))) = Inr s"
    using assms by (simp add: toString_def Timestamp_def)
  have line: "print_line K localtime tag msg (setLoggerLevel (level_int l) m)
      = Inr ((setLoggerLevel (level_int l) m)\<lparr>trace := trace m @ [(SysTime, K (trace m) SysTime)],
          cout := cout m @ tag @ s @ '' : '' @ msg @ [CHR 0x0A]\<rparr>)" for tag
    using s by (simp add: print_line_def now_def do_sys_def Let_def setLoggerLevel_def)
  have "log_msg K localtime (level_int k) msg (setLoggerLevel (level_int l) m)
      = (if level_int k < level_int l then Inr (setLoggerLevel (level_int l) m)
         else print_line K localtime (tag_of k) msg (setLoggerLevel (level_int l) m))"
    by (cases k) (simp_all add: log_msg_def info_def debug_def log_error_def fatal_def setLoggerLevel_def)
  with s line show ?thesis by (auto simp: less_eq_LogLevel_def)
qed

text \<open>The macros never filter: whatever level was set before, every message is printed (cut to
  1023 characters), since the macro sets the level to that of its own message first. \<open>LOG_FATAL\<close>
  always ends the process.\<close>

theorem macros_never_filter:
  assumes "localtime (sr_rv (K (trace m) SysTime)) = Some t"
  shows "\<exists>s m'. toString localtime (Timestamp (sr_rv (K (trace m) SysTime))) = Inr s
    \<and> log_macro K localtime l text m = Inr m' \<and> logLevel m' = level_int l
    \<and> cout m' = cout m @ tag_of l @ s @ '' : '' @ take 1023 text @ [CHR 0x0A]
    \<and> LOG_FATAL K localtime text m = Inl ExitProcess"
proof -
  obtain s where s: "toString localtime (Timestamp (sr_rv (K (trace m) SysTime))) = Inr s"
    using assms by (simp add: toString_def Timestamp_def)
  have "\<exists>m'. log_macro K localtime k text m = Inr m' \<and> logLevel m' = level_int k
      \<and> cout m' = cout m @ tag_of k @ s @ '' : '' @ take 1023 text @ [CHR 0x0A]" for k
    using s by (cases k) (simp_all add: log_macro_def log_msg_def info_def debug_def log_error_def fatal_def
        setLoggerLevel_def print_line_def now_def do_sys_def Let_def snprintf_def)
  from this [of l] this [of FATAL] s show ?thesis by (auto simp: LOG_FATAL_def)
qed

section \<open>Examples\<close>

definition noon :: tm where
  "noon = \<lparr>tm_sec = 5, tm_min = 0, tm_hour = 12, tm_mday = 9, tm_mon = 0, tm_year = 124\<rparr>"


definition quiet_log :: logger where
  "quiet_log = \<lparr>trace = [], logLevel = 3, cout = []\<rparr>"

theorem log_filters_witness:
  "log_msg quiet_kernel (\<lambda>_. Some noon) (level_int DEBUG) ''x'' (setLoggerLevel (level_int ERROR) quiet_log)
    = Inr (setLoggerLevel (level_int ERROR) quiet_log)"
  using log_filters [of "\<lambda>_. Some noon" quiet_kernel quiet_log noon DEBUG "''x''" ERROR]
  by (simp add: less_eq_LogLevel_def)

theorem macros_never_filter_witness:
  "\<exists>m'. log_macro quiet_kernel (\<lambda>_. Some noon) INFO ''up'' quiet_log = Inr m' \<and> logLevel m' = 0"
  using macros_never_filter [of "\<lambda>_. Some noon" quiet_kernel quiet_log noon INFO "''up''"] by auto

end
