(* ===== verification/Muduo_Wakeup.thy ===== *)
theory Muduo_Wakeup
  imports Muduo_EventLoop "HOL-Library.Sublist"
begin

text \<open>
  \<open>loop()\<close>, \<open>queueInLoop\<close>, \<open>quit\<close> and \<open>doPendingFunctors\<close> of \<open>muduo/EventLoop.cpp\<close> as they run
  concurrently: one thread in the loop, any number of threads that queue functors or quit, one step
  per atomic action (a critical section of the mutex, an access to an atomic flag, a system call on
  the \<open>eventfd\<close>). \<open>pushed\<close> and \<open>executed\<close> are histories for stating the properties. The last section
  shows that the sequential definitions of \<open>Muduo_EventLoop\<close> are runs of this machine.
\<close>

section \<open>The machine\<close>

text \<open>
  Where the loop's thread is: at \<open>while (!quit_)\<close>, in \<open>epoll_wait\<close>, among the active channels
  (\<open>True\<close>: the wake-up channel still has to be handled), before the swap, between functors, inside
  one, between the push and the wake-up of a functor's own \<open>queueInLoop\<close>, or out of the loop.
\<close>

datatype loop_pc = AtCheck | Polling | Handling bool | Swapping | Running | InFunctor | WakeSelf | Left

text \<open>Another thread is outside these functions or about to call \<open>weakup()\<close>.\<close>

datatype thread_pc = Idle | MustWake

record 'f shared =
  pending :: "'f list"
  calling :: bool
  quitting :: bool
  evfd :: nat
  lp :: loop_pc
  todo :: "'f list"
  threads :: "nat \<Rightarrow> thread_pc"
  pushed :: "'f list"
  executed :: "'f list"

datatype 'f action =
    Push nat 'f
  | SetQuit nat
  | Wake nat
  | Check
  | PollReady
  | PollElse
  | HandleWake
  | HandlePush 'f
  | HandleQuit
  | StartCall
  | Swap
  | RunOne
  | FPush 'f
  | FWake
  | FQuit
  | FRet
  | EndCall

definition push :: "'f \<Rightarrow> 'f shared \<Rightarrow> 'f shared" where
  "push f s = s\<lparr>pending := pending s @ [f], pushed := pushed s @ [f]\<rparr>"

text \<open>
  \<open>Push\<close>, \<open>SetQuit\<close> and \<open>Wake\<close> belong to the other threads, the rest to the loop's thread.
  \<open>PollElse\<close> is a return of \<open>epoll_wait\<close> for another descriptor or at its timeout.
\<close>

inductive step :: "'f shared \<Rightarrow> 'f action \<Rightarrow> 'f shared \<Rightarrow> bool" where
  Push: "threads s t = Idle \<Longrightarrow>
    step s (Push t f) ((push f s)\<lparr>threads := (threads s)(t := MustWake)\<rparr>)"
| SetQuit: "threads s t = Idle \<Longrightarrow>
    step s (SetQuit t) (s\<lparr>quitting := True, threads := (threads s)(t := MustWake)\<rparr>)"
| Wake: "threads s t = MustWake \<Longrightarrow>
    step s (Wake t) (s\<lparr>evfd := evfd s + 1, threads := (threads s)(t := Idle)\<rparr>)"
| Check: "lp s = AtCheck \<Longrightarrow> step s Check (s\<lparr>lp := (if quitting s then Left else Polling)\<rparr>)"
| PollReady: "lp s = Polling \<Longrightarrow> 0 < evfd s \<Longrightarrow> step s PollReady (s\<lparr>lp := Handling True\<rparr>)"
| PollElse: "lp s = Polling \<Longrightarrow> step s PollElse (s\<lparr>lp := Handling (0 < evfd s)\<rparr>)"
| HandleWake: "lp s = Handling True \<Longrightarrow> step s HandleWake (s\<lparr>evfd := 0, lp := Handling False\<rparr>)"
| HandlePush: "lp s = Handling b \<Longrightarrow> step s (HandlePush f) (push f s)"
| HandleQuit: "lp s = Handling b \<Longrightarrow> step s HandleQuit (s\<lparr>quitting := True\<rparr>)"
| StartCall: "lp s = Handling False \<Longrightarrow> step s StartCall (s\<lparr>calling := True, lp := Swapping\<rparr>)"
| Swap: "lp s = Swapping \<Longrightarrow> step s Swap (s\<lparr>todo := pending s, pending := [], lp := Running\<rparr>)"
| RunOne: "lp s = Running \<Longrightarrow> todo s = f # fs \<Longrightarrow>
    step s RunOne (s\<lparr>todo := fs, executed := executed s @ [f], lp := InFunctor\<rparr>)"
| FPush: "lp s = InFunctor \<Longrightarrow> step s (FPush f) ((push f s)\<lparr>lp := WakeSelf\<rparr>)"
| FWake: "lp s = WakeSelf \<Longrightarrow> step s FWake (s\<lparr>evfd := evfd s + 1, lp := InFunctor\<rparr>)"
| FQuit: "lp s = InFunctor \<Longrightarrow> step s FQuit (s\<lparr>quitting := True\<rparr>)"
| FRet: "lp s = InFunctor \<Longrightarrow> step s FRet (s\<lparr>lp := Running\<rparr>)"
| EndCall: "lp s = Running \<Longrightarrow> todo s = [] \<Longrightarrow> step s EndCall (s\<lparr>calling := False, lp := AtCheck\<rparr>)"

inductive_cases step_cases [elim]: "step s a s'"

inductive_simps step_simps:
  "step s (Push t f) s'" "step s (SetQuit t) s'" "step s (Wake t) s'" "step s Check s'"
  "step s PollReady s'" "step s PollElse s'" "step s HandleWake s'" "step s StartCall s'" "step s Swap s'"
  "step s RunOne s'" "step s EndCall s'" "step s (FPush f) s'" "step s FWake s'" "step s FQuit s'"
  "step s FRet s'" "step s (HandlePush f) s'" "step s HandleQuit s'"

abbreviation path :: "'f shared \<Rightarrow> 'f action list \<Rightarrow> 'f shared \<Rightarrow> bool" where
  "path \<equiv> runs step"

lemmas path_step = runs_step [where R = step]
lemmas path_two = runs_two [where R = step]
lemmas path_snoc = runs_snoc [where R = step]
lemmas path_trans = runs_trans [where R = step]

text \<open>\<open>loop()\<close> has just cleared \<open>quit_\<close> and is about to test it. What was queued before stays queued, by
  the loop's own thread (without a wake-up) or by others, whose calls may be under way.\<close>

definition starts :: "'f shared \<Rightarrow> bool" where
  "starts s \<longleftrightarrow> lp s = AtCheck \<and> todo s = [] \<and> \<not> calling s \<and> \<not> quitting s \<and> executed s = [] \<and> pushed s = pending s"

definition reachable :: "'f shared \<Rightarrow> bool" where
  "reachable s \<longleftrightarrow> (\<exists>s0 as. starts s0 \<and> path s0 as s)"

text \<open>The start after the loop's own thread has queued \<open>fs\<close>.\<close>

definition start_state :: "'f list \<Rightarrow> 'f shared" where
  "start_state fs = \<lparr>pending = fs, calling = False, quitting = False, evfd = 0, lp = AtCheck, todo = [],
     threads = (\<lambda>_. Idle), pushed = fs, executed = []\<rparr>"

lemma starts_start_state: "starts (start_state fs)"
  by (simp add: starts_def start_state_def)

section \<open>Invariants\<close>

text \<open>The loop's thread is past the swap of this round, or on its way to the next \<open>epoll_wait\<close>.\<close>

definition past_swap :: "loop_pc \<Rightarrow> bool" where
  "past_swap p \<longleftrightarrow> p \<in> {Running, InFunctor, WakeSelf, AtCheck, Polling}"

definition in_round :: "loop_pc \<Rightarrow> bool" where
  "in_round p \<longleftrightarrow> p \<in> {Running, InFunctor, WakeSelf}"

definition armed :: "'f shared \<Rightarrow> bool" where
  "armed s \<longleftrightarrow> 0 < evfd s \<or> (\<exists>t. threads s t = MustWake) \<or> lp s = WakeSelf"

text \<open>\<open>old\<close> is what was queued before \<open>loop()\<close>, and \<open>a\<close> whether a wake-up for it is on its way.\<close>

definition wake_inv :: "'f list \<Rightarrow> bool \<Rightarrow> 'f shared \<Rightarrow> bool" where
  "wake_inv old a s \<longleftrightarrow> (pending s \<noteq> [] \<and> (a \<or> pushed s \<noteq> old) \<and> past_swap (lp s) \<longrightarrow> armed s)
     \<and> (quitting s \<and> lp s = Polling \<longrightarrow> armed s)
     \<and> (calling s \<longleftrightarrow> in_round (lp s) \<or> lp s = Swapping)
     \<and> (\<not> in_round (lp s) \<longrightarrow> todo s = [])
     \<and> executed s @ todo s @ pending s = pushed s"

lemmas pc_defs = past_swap_def in_round_def

lemma armed_intros:
  "armed (s\<lparr>evfd := evfd s + 1, threads := th\<rparr>)" "armed (s\<lparr>evfd := evfd s + 1, lp := p\<rparr>)"
  "armed ((push f s)\<lparr>threads := (threads s)(t := MustWake)\<rparr>)"
  "armed (s\<lparr>quitting := True, threads := (threads s)(t := MustWake)\<rparr>)"
  "armed ((push f s)\<lparr>lp := WakeSelf\<rparr>)"
  by (auto simp: armed_def)

lemma armed_keeps:
  "lp s \<noteq> WakeSelf \<Longrightarrow> armed (s\<lparr>lp := p\<rparr>) = (armed s \<or> p = WakeSelf)"
  "armed (s\<lparr>todo := fs, executed := gs, lp := InFunctor\<rparr>) = (0 < evfd s \<or> (\<exists>t. threads s t = MustWake))"
  "armed (s\<lparr>calling := b, lp := AtCheck\<rparr>) = (0 < evfd s \<or> (\<exists>t. threads s t = MustWake))"
  "armed (s\<lparr>quitting := b\<rparr>) = armed s"
  by (auto simp: armed_def)

lemma armed_cases: "lp s \<noteq> WakeSelf \<Longrightarrow> armed s = (0 < evfd s \<or> (\<exists>t. threads s t = MustWake))"
  by (simp add: armed_def)

lemma wake_inv_step:
  assumes inv: "wake_inv old b s" and st: "step s a s'"
  shows "wake_inv old b s'"
  using st
proof cases
  case Push
  with inv show ?thesis unfolding Push(2) by (simp only: wake_inv_def armed_intros) (simp add: push_def)
next
  case SetQuit
  with inv show ?thesis by (simp only: wake_inv_def armed_intros) simp
next
  case Wake
  with inv show ?thesis by (simp only: wake_inv_def armed_intros) simp
next
  case FWake
  with inv show ?thesis by (simp only: wake_inv_def armed_intros) (simp add: pc_defs)
next
  case FPush
  with inv show ?thesis by (simp only: wake_inv_def armed_intros) (simp add: pc_defs push_def)
qed (use inv in \<open>auto simp: wake_inv_def pc_defs armed_cases push_def\<close>)

lemma wake_inv_start: "starts s \<Longrightarrow> wake_inv (pushed s) (armed s) s"
  by (simp add: wake_inv_def starts_def pc_defs)

lemma path_inv:
  assumes "starts s0" and "path s0 as s"
  shows "wake_inv (pushed s0) (armed s0) s"
  using assms(2) wake_inv_start [OF assms(1)]
  by (rule runs_invariant [where I = "wake_inv (pushed s0) (armed s0)"]) (rule wake_inv_step)

lemma reachable_inv: "reachable s \<Longrightarrow> \<exists>old a. wake_inv old a s"
  unfolding reachable_def using path_inv by blast

text \<open>Whether a round begun at \<open>s\<close> or later has taken what was queued at \<open>s\<close>.\<close>

definition taken_since :: "'f shared \<Rightarrow> 'f shared \<Rightarrow> bool" where
  "taken_since s s' \<longleftrightarrow> prefix (pushed s) (executed s' @ todo s')"

lemma pushed_grows: "step s a s' \<Longrightarrow> prefix (pushed s) (pushed s')"
  by (cases rule: step.cases) (auto simp: push_def)

lemma taken_since_step:
  assumes "taken_since u s" and "step s a s'" and "lp s \<noteq> Swapping \<or> todo s = []"
  shows "taken_since u s'"
  using assms(2,1,3)
  by cases (auto simp: taken_since_def push_def prefix_append)

lemma round_takes_queue:
  assumes "path s as s'" and "wake_inv old b s" and "\<not> in_round (lp s)"
  shows "wake_inv old b s' \<and> prefix (pushed s) (pushed s') \<and> (in_round (lp s') \<longrightarrow> taken_since s s')"
  using assms
proof (induction rule: runs.induct)
  case (runs_Nil s)
  then show ?case by simp
next
  case (runs_snoc s as s' a s'')
  then have ih: "wake_inv old b s'" "prefix (pushed s) (pushed s')" "in_round (lp s') \<longrightarrow> taken_since s s'" by auto
  have inv: "wake_inv old b s''" by (rule wake_inv_step [OF ih(1) runs_snoc.hyps(2)])
  have grow: "prefix (pushed s) (pushed s'')"
    using ih(2) pushed_grows [OF runs_snoc.hyps(2)] by (rule prefix_order.trans)
  have "in_round (lp s'') \<longrightarrow> taken_since s s''"
  proof (cases "in_round (lp s')")
    case True
    then have "lp s' \<noteq> Swapping" by (auto simp: pc_defs)
    with True ih(3) taken_since_step [OF _ runs_snoc.hyps(2)] show ?thesis by blast
  next
    case False
    with runs_snoc.hyps(2) have "in_round (lp s'') \<longrightarrow> lp s' = Swapping \<and> todo s'' = pending s' \<and> executed s'' = executed s'"
      by cases (auto simp: pc_defs push_def)
    moreover have "todo s' = []" "executed s' @ todo s' @ pending s' = pushed s'"
      using ih(1) False by (auto simp: wake_inv_def)
    ultimately show ?thesis using ih(2) by (auto simp: taken_since_def)
  qed
  with inv grow show ?case by simp
qed

section \<open>Properties\<close>


lemma still_waiting:
  assumes "path s as s'" and "\<forall>a \<in> set as. a \<in> {Check, PollReady, HandleWake, StartCall, Swap, RunOne, EndCall}"
    and "lp s = AtCheck \<or> lp s = Polling" and "\<not> quitting s" and "evfd s = 0"
  shows "(lp s' = AtCheck \<or> lp s' = Polling) \<and> \<not> quitting s' \<and> evfd s' = 0 \<and> pending s' = pending s \<and> executed s' = executed s"
  using assms
proof (induction rule: runs.induct)
  case (runs_snoc s as s' a s'')
  then have ih: "lp s' = AtCheck \<or> lp s' = Polling" "\<not> quitting s'" "evfd s' = 0" "pending s' = pending s" "executed s' = executed s"
    and a: "a \<in> {Check, PollReady, HandleWake, StartCall, Swap, RunOne, EndCall}" by simp_all
  from runs_snoc.hyps(2) show ?case by cases (use ih a in auto)
qed simp

text \<open>C21: What the loop's own thread queues before \<open>loop()\<close> waits for something else to happen.
  \<open>queueInLoop\<close> writes no wake-up for it, since the caller is the loop's thread and no functors are
  being called, and \<open>loop()\<close> waits in \<open>epoll_wait\<close> before it looks at the queue: from such a start the
  loop on its own runs none of these functors, until another descriptor is ready, the timeout of 10
  seconds passes or another thread wakes it.\<close>

theorem queued_before_loop_waits:
  assumes "starts s0" and "evfd s0 = 0" and "path s0 as s"
    and "\<forall>a \<in> set as. a \<in> {Check, PollReady, HandleWake, StartCall, Swap, RunOne, EndCall}"
  shows "lp s \<in> {AtCheck, Polling} \<and> executed s = [] \<and> pending s = pushed s0 \<and> \<not> (\<exists>s'. step s PollReady s')"
  using still_waiting [OF assms(3,4)] assms(1,2) by (auto simp: starts_def step_simps)

text \<open>Every functor queued by any thread is run at most once and in the order of the queue: what
  was run, what the round has still to run and what waits is exactly the sequence of functors
  queued so far; \<open>callingPendingFunctors_\<close> is set exactly from the start of a round to its end.\<close>

theorem queue_runs_in_order:
  assumes "reachable s"
  shows "executed s @ todo s @ pending s = pushed s
    \<and> (calling s \<longleftrightarrow> lp s \<in> {Swapping, Running, InFunctor, WakeSelf})"
  using reachable_inv [OF assms] by (auto simp: wake_inv_def pc_defs)

text \<open>C9: A functor queued before a round begins has been run when the round ends, whatever the other
  threads and the functors themselves do in between: if the loop's thread is not in a round at \<open>s\<close>,
  every later end of a round has run at least everything queued at \<open>s\<close>.\<close>

theorem queued_runs_by_end_of_round:
  assumes "reachable s" and "lp s \<notin> {Running, InFunctor, WakeSelf}" and "path s as s'" and "step s' EndCall s''"
  shows "prefix (pushed s) (executed s'')"
proof -
  have "lp s' = Running" "todo s' = []" "executed s'' = executed s'"
    using assms(4) by (auto simp: step_simps)
  moreover obtain old a where "wake_inv old a s" using reachable_inv [OF assms(1)] by blast
  note round_takes_queue [OF assms(3) this]
  ultimately show ?thesis using assms(2) by (auto simp: pc_defs taken_since_def)
qed


lemma quit_polls:
  assumes "path s as s'" and "quitting s"
  shows "quitting s' \<and> length (filter (\<lambda>a. a \<in> {PollReady, PollElse}) as) + (if lp s' = Polling then 1 else 0)
    \<le> (if lp s = Polling then 1 else (0 :: nat))"
  using assms
proof (induction rule: runs.induct)
  case (runs_snoc s as s' a s'')
  from runs_snoc.hyps(2) runs_snoc.IH [OF runs_snoc.prems] show ?case
    by cases (auto simp: push_def)
qed simp

text \<open>After \<open>quit()\<close> the loop ends: once \<open>quit_\<close> is set it stays set, \<open>epoll_wait\<close> returns at most
  once more, and the next time the loop's thread tests \<open>quit_\<close> it leaves.\<close>

theorem quit_ends_loop:
  assumes "quitting s" and "path s as s'"
  shows "quitting s' \<and> length (filter (\<lambda>a. a \<in> {PollReady, PollElse}) as) \<le> 1
    \<and> (\<forall>s''. step s' Check s'' \<longrightarrow> lp s'' = Left)"
  using quit_polls [OF assms(2,1)] by (auto simp: step_simps split: if_splits)

text \<open>Functors queued after the last round are never run: once the loop's thread has left, nothing
  is executed any more, whatever is queued.\<close>

theorem queued_after_exit_never_run:
  assumes "lp s = Left" and "path s as s'"
  shows "lp s' = Left \<and> executed s' = executed s"
  using assms(2,1)
proof (induction rule: runs.induct)
  case (runs_snoc s as s' a s'')
  from runs_snoc.hyps(2) runs_snoc.IH [OF runs_snoc.prems] show ?case
    by cases (auto simp: push_def)
qed simp

section \<open>The sequential definitions are runs of the machine\<close>

text \<open>The counter of an \<open>eventfd\<close> as its calls leave it: each successful write adds 1, a read takes all.\<close>

fun evfd_step :: "int \<Rightarrow> syscall \<times> sysret \<Rightarrow> nat \<Rightarrow> nat" where
  "evfd_step fd (SysWrite fd' d n, r) c = (if fd' = fd \<and> sr_rv r = 8 then c + 1 else c)"
| "evfd_step fd (SysRead fd' n, r) c = (if fd' = fd \<and> sr_rv r = 8 then 0 else c)"
| "evfd_step fd (_, r) c = c"

definition counter :: "int \<Rightarrow> history \<Rightarrow> nat" where
  "counter fd tr = fold (evfd_step fd) tr 0"

lemma counter_snoc [simp]: "counter fd (tr @ [x]) = evfd_step fd x (counter fd tr)"
  by (simp add: counter_def)

text \<open>
  \<open>eventfd(2)\<close>: a write of 1 succeeds (the counter is not at its maximum) and a read succeeds when
  the counter is not 0.
\<close>

definition eventfd_documented :: "kernel \<Rightarrow> int \<Rightarrow> bool" where
  "eventfd_documented K fd \<longleftrightarrow> (\<forall>tr. sr_rv (K tr (SysWrite fd one_bytes 8)) = 8
     \<and> (0 < counter fd tr \<longrightarrow> sr_rv (K tr (SysRead fd 8)) = 8))"

definition view :: "ptr \<Rightarrow> int \<Rightarrow> ('cb, 'z) reactor_scheme \<Rightarrow> 'cb shared \<Rightarrow> bool" where
  "view l fd m s \<longleftrightarrow> (\<exists>el. loop_at m l = Some el \<and> weakupFd el = fd \<and> pending s = pendingFunctors el
     \<and> calling s = callingPendingFunctors el \<and> quitting s = el_quit el \<and> evfd s = counter fd (trace m))"

text \<open>The steps of one call of \<open>queueInLoop\<close> and of \<open>quit\<close>; \<open>own\<close>: in the loop's own thread.\<close>

definition queue_actions :: "bool \<Rightarrow> bool \<Rightarrow> nat \<Rightarrow> 'f \<Rightarrow> 'f action list" where
  "queue_actions own cal t f = (if \<not> own then [Push t f, Wake t] else if cal then [FPush f, FWake]
     else [HandlePush f])"

definition quit_actions :: "bool \<Rightarrow> bool \<Rightarrow> nat \<Rightarrow> 'f action list" where
  "quit_actions own cal t = (if \<not> own then [SetQuit t, Wake t] else if cal then [FQuit] else [HandleQuit])"

text \<open>The caller is another thread that is idle, or the loop's thread inside a functor or a handler.\<close>

definition may_call :: "bool \<Rightarrow> nat \<Rightarrow> 'f shared \<Rightarrow> bool" where
  "may_call own t s \<longleftrightarrow> (if \<not> own then threads s t = Idle
     else if calling s then lp s = InFunctor else \<exists>b. lp s = Handling b)"

lemma queue_path:
  assumes "may_call own t s"
  shows "\<exists>s'. path s (queue_actions own (calling s) t f) s' \<and> pending s' = pending s @ [f]
    \<and> calling s' = calling s \<and> quitting s' = quitting s \<and> lp s' = lp s \<and> todo s' = todo s
    \<and> executed s' = executed s \<and> threads s' = threads s
    \<and> evfd s' = (if \<not> own \<or> calling s then evfd s + 1 else evfd s)"
proof -
  consider "\<not> own" | "own" "calling s" | "own" "\<not> calling s" by blast
  then show ?thesis
  proof cases
    case 1
    let ?s = "(push f s)\<lparr>threads := (threads s)(t := MustWake)\<rparr>"
    have "step s (Push t f) ?s" "step ?s (Wake t) (?s\<lparr>evfd := evfd ?s + 1, threads := (threads ?s)(t := Idle)\<rparr>)"
      using 1 assms by (simp_all add: step_simps may_call_def)
    from path_two [OF this] 1 assms show ?thesis
      by (intro exI [of _ "?s\<lparr>evfd := evfd ?s + 1, threads := (threads ?s)(t := Idle)\<rparr>"])
        (auto simp: queue_actions_def push_def may_call_def)
  next
    case 2
    let ?s = "(push f s)\<lparr>lp := WakeSelf\<rparr>"
    have "step s (FPush f) ?s" "step ?s FWake (?s\<lparr>evfd := evfd ?s + 1, lp := InFunctor\<rparr>)"
      using 2 assms by (simp_all add: step_simps may_call_def)
    from path_two [OF this] 2 assms show ?thesis
      by (intro exI [of _ "?s\<lparr>evfd := evfd ?s + 1, lp := InFunctor\<rparr>"])
        (simp add: queue_actions_def push_def may_call_def)
  next
    case 3
    then have "step s (HandlePush f) (push f s)" using assms by (auto simp: step_simps may_call_def)
    from path_step [OF this] 3 show ?thesis
      by (intro exI [of _ "push f s"]) (simp add: queue_actions_def push_def)
  qed
qed

lemma quit_path:
  assumes "may_call own t s"
  shows "\<exists>s'. path s (quit_actions own (calling s) t) s' \<and> pending s' = pending s
    \<and> calling s' = calling s \<and> quitting s' \<and> lp s' = lp s \<and> todo s' = todo s \<and> executed s' = executed s
    \<and> evfd s' = (if \<not> own then evfd s + 1 else evfd s)"
proof (cases own)
  case False
  let ?s = "s\<lparr>quitting := True, threads := (threads s)(t := MustWake)\<rparr>"
  have "step s (SetQuit t) ?s" "step ?s (Wake t) (?s\<lparr>evfd := evfd ?s + 1, threads := (threads ?s)(t := Idle)\<rparr>)"
    using False assms by (simp_all add: step_simps may_call_def)
  from path_two [OF this] False show ?thesis
    by (intro exI [of _ "?s\<lparr>evfd := evfd ?s + 1, threads := (threads ?s)(t := Idle)\<rparr>"])
      (simp add: quit_actions_def)
next
  case True
  then have "step s (if calling s then FQuit else HandleQuit) (s\<lparr>quitting := True\<rparr>)"
    using assms by (auto simp: step_simps may_call_def)
  from path_step [OF this] True show ?thesis
    by (intro exI [of _ "s\<lparr>quitting := True\<rparr>"]) (cases "calling s"; simp add: quit_actions_def)
qed


lemma queueInLoop_machine:
  assumes "l \<noteq> 0" and "loop_at m l = Some el" and "weakupFd el = fd" and "eventfd_documented K fd"
  shows "\<exists>m'. queueInLoop K l f m = Inr m'
    \<and> loop_at m' l = Some (el\<lparr>pendingFunctors := pendingFunctors el @ [f]\<rparr>)
    \<and> counter fd (trace m') = (if threadId el \<noteq> cur_tid m \<or> callingPendingFunctors el
        then counter fd (trace m) + 1 else counter fd (trace m))"
  unfolding queueInLoop_eq [OF assms(1,2)] using assms(3,4)
  by (cases "threadId el \<noteq> cur_tid m \<or> callingPendingFunctors el")
    (simp_all add: Let_def eventfd_documented_def)

lemma quit_machine:
  assumes "l \<noteq> 0" and "loop_at m l = Some el" and "weakupFd el = fd" and "eventfd_documented K fd"
  shows "\<exists>m'. quit K l m = Inr m' \<and> loop_at m' l = Some (el\<lparr>el_quit := True\<rparr>)
    \<and> counter fd (trace m') = (if threadId el \<noteq> cur_tid m
        then counter fd (trace m) + 1 else counter fd (trace m))"
  using assms weakup_eq [of l "put_loop l (el\<lparr>el_quit := True\<rparr>) m" "el\<lparr>el_quit := True\<rparr>" K]
  by (cases "threadId el = cur_tid m")
    (simp_all add: quit_def isInLoopthread_def Let_def eventfd_documented_def)

text \<open>C11: The sequential \<open>queueInLoop\<close> is a run of the concurrent machine: called by another thread it
  is the push followed by the wake-up; by a functor of the loop, the push followed by the loop's
  wake-up of itself; by a handler in the loop, the push alone.\<close>

theorem queueInLoop_is_a_run:
  assumes "l \<noteq> 0" and "loop_at m l = Some el" and "weakupFd el = fd" and "view l fd m s"
    and "eventfd_documented K fd" and "may_call (threadId el = cur_tid m) t s"
  shows "\<exists>m' s'. queueInLoop K l f m = Inr m' \<and> view l fd m' s'
    \<and> path s (queue_actions (threadId el = cur_tid m) (callingPendingFunctors el) t f) s'
    \<and> lp s' = lp s"
proof -
  have cal: "calling s = callingPendingFunctors el" using assms(2,4) by (simp add: view_def)
  obtain s' where s': "path s (queue_actions (threadId el = cur_tid m) (calling s) t f) s'"
    "pending s' = pending s @ [f]" "calling s' = calling s" "quitting s' = quitting s" "lp s' = lp s"
    "evfd s' = (if threadId el \<noteq> cur_tid m \<or> calling s then evfd s + 1 else evfd s)"
    using queue_path [OF assms(6), of f] by auto
  moreover obtain m' where m': "queueInLoop K l f m = Inr m'"
    "loop_at m' l = Some (el\<lparr>pendingFunctors := pendingFunctors el @ [f]\<rparr>)"
    "counter fd (trace m') = (if threadId el \<noteq> cur_tid m \<or> callingPendingFunctors el
        then counter fd (trace m) + 1 else counter fd (trace m))"
    using queueInLoop_machine [OF assms(1-3,5)] by blast
  moreover have "view l fd m' s'" using s' m'(2,3) assms(2-4) cal by (simp add: view_def)
  ultimately show ?thesis using cal by auto
qed

text \<open>The sequential \<open>quit\<close> is a run of the concurrent machine: the flag, then the wake-up if the
  caller is another thread.\<close>

theorem quit_is_a_run:
  assumes "l \<noteq> 0" and "loop_at m l = Some el" and "weakupFd el = fd" and "view l fd m s"
    and "eventfd_documented K fd" and "may_call (threadId el = cur_tid m) t s"
  shows "\<exists>m' s'. quit K l m = Inr m' \<and> view l fd m' s'
    \<and> path s (quit_actions (threadId el = cur_tid m) (callingPendingFunctors el) t) s' \<and> lp s' = lp s"
proof -
  have cal: "calling s = callingPendingFunctors el" using assms(2,4) by (simp add: view_def)
  obtain s' where s': "path s (quit_actions (threadId el = cur_tid m) (calling s) t) s'"
    "pending s' = pending s" "calling s' = calling s" "quitting s'" "lp s' = lp s"
    "evfd s' = (if threadId el \<noteq> cur_tid m then evfd s + 1 else evfd s)"
    using quit_path [OF assms(6)] by auto
  moreover obtain m' where m': "quit K l m = Inr m'" "loop_at m' l = Some (el\<lparr>el_quit := True\<rparr>)"
    "counter fd (trace m') = (if threadId el \<noteq> cur_tid m then counter fd (trace m) + 1 else counter fd (trace m))"
    using quit_machine [OF assms(1-3,5)] by blast
  moreover have "view l fd m' s'" using s' m'(2,3) assms(2-4) cal by (simp add: view_def)
  ultimately show ?thesis using cal by auto
qed



section \<open>Examples\<close>

text \<open>The step relation as a function of the action, to run examples.\<close>

fun exec :: "'f shared \<Rightarrow> 'f action \<Rightarrow> 'f shared option" where
  "exec s (Push t f) = (if threads s t = Idle
     then Some ((push f s)\<lparr>threads := (threads s)(t := MustWake)\<rparr>) else None)"
| "exec s (SetQuit t) = (if threads s t = Idle
     then Some (s\<lparr>quitting := True, threads := (threads s)(t := MustWake)\<rparr>) else None)"
| "exec s (Wake t) = (if threads s t = MustWake
     then Some (s\<lparr>evfd := evfd s + 1, threads := (threads s)(t := Idle)\<rparr>) else None)"
| "exec s Check = (if lp s = AtCheck then Some (s\<lparr>lp := (if quitting s then Left else Polling)\<rparr>) else None)"
| "exec s PollReady = (if lp s = Polling \<and> 0 < evfd s then Some (s\<lparr>lp := Handling True\<rparr>) else None)"
| "exec s PollElse = (if lp s = Polling then Some (s\<lparr>lp := Handling (0 < evfd s)\<rparr>) else None)"
| "exec s HandleWake = (if lp s = Handling True then Some (s\<lparr>evfd := 0, lp := Handling False\<rparr>) else None)"
| "exec s (HandlePush f) = (case lp s of Handling b \<Rightarrow> Some (push f s) | _ \<Rightarrow> None)"
| "exec s HandleQuit = (case lp s of Handling b \<Rightarrow> Some (s\<lparr>quitting := True\<rparr>) | _ \<Rightarrow> None)"
| "exec s StartCall = (if lp s = Handling False then Some (s\<lparr>calling := True, lp := Swapping\<rparr>) else None)"
| "exec s Swap = (if lp s = Swapping then Some (s\<lparr>todo := pending s, pending := [], lp := Running\<rparr>) else None)"
| "exec s RunOne = (case todo s of f # fs \<Rightarrow>
     if lp s = Running then Some (s\<lparr>todo := fs, executed := executed s @ [f], lp := InFunctor\<rparr>) else None
   | [] \<Rightarrow> None)"
| "exec s (FPush f) = (if lp s = InFunctor then Some ((push f s)\<lparr>lp := WakeSelf\<rparr>) else None)"
| "exec s FWake = (if lp s = WakeSelf then Some (s\<lparr>evfd := evfd s + 1, lp := InFunctor\<rparr>) else None)"
| "exec s FQuit = (if lp s = InFunctor then Some (s\<lparr>quitting := True\<rparr>) else None)"
| "exec s FRet = (if lp s = InFunctor then Some (s\<lparr>lp := Running\<rparr>) else None)"
| "exec s EndCall = (if lp s = Running \<and> todo s = []
     then Some (s\<lparr>calling := False, lp := AtCheck\<rparr>) else None)"

lemma exec_iff_step: "exec s a = Some s' \<longleftrightarrow> step s a s'"
  by (cases a) (auto simp: step_simps split: loop_pc.splits list.splits)

lemma exec_all_path: "run_all exec s as = Some s' \<Longrightarrow> path s as s'"
  by (rule run_all_runs [where R = step and nxt = exec]) (simp_all add: exec_iff_step)

text \<open>Thread 1 queues functor 5 while the loop waits.\<close>

definition woken :: "nat shared" where
  "woken = (start_state [])\<lparr>pending := [5], evfd := 1, lp := Polling, pushed := [5]\<rparr>"

lemma woken_path: "path (start_state []) [Check, Push 1 5, Wake 1] woken"
  by (rule exec_all_path) (simp add: woken_def start_state_def push_def fun_upd_idem)

lemma woken_reachable: "reachable woken"
  unfolding reachable_def using woken_path starts_start_state by blast

text \<open>Functor 4 was queued before \<open>loop()\<close>; thread 1 queues functor 5 while the loop waits.\<close>

definition woken_late :: "nat shared" where
  "woken_late = (start_state [4])\<lparr>pending := [4, 5], evfd := 1, lp := Polling, pushed := [4, 5]\<rparr>"


theorem queued_before_loop_waits_witness:
  "\<exists>s. path (start_state [4 :: nat]) [Check] s \<and> pending s = [4] \<and> \<not> (\<exists>s'. step s PollReady s')"
proof -
  let ?s = "(start_state [4 :: nat])\<lparr>lp := Polling\<rparr>"
  have p: "path (start_state [4]) [Check] ?s" by (rule exec_all_path) (simp add: start_state_def)
  with queued_before_loop_waits [OF starts_start_state _ p] show ?thesis
    by (intro exI [of _ ?s]) (simp add: start_state_def)
qed

theorem queue_runs_in_order_witness:
  "executed woken @ todo woken @ pending woken = [5] \<and> \<not> calling woken"
  using queue_runs_in_order [OF woken_reachable] by (simp add: woken_def start_state_def)

theorem queued_runs_by_end_of_round_witness:
  "\<exists>s' s''. path woken [PollReady, HandleWake, StartCall, Swap, RunOne, FPush 6, FWake, FRet] s'
    \<and> step s' EndCall s'' \<and> prefix [5] (executed s'')"
proof -
  obtain s' where run: "run_all exec woken [PollReady, HandleWake, StartCall, Swap, RunOne, FPush 6, FWake, FRet] = Some s'"
    and s': "lp s' = Running" "todo s' = []"
    by (simp add: woken_def start_state_def push_def)
  have path: "path woken [PollReady, HandleWake, StartCall, Swap, RunOne, FPush 6, FWake, FRet] s'"
    by (rule exec_all_path [OF run])
  have step: "step s' EndCall (s'\<lparr>calling := False, lp := AtCheck\<rparr>)" using s' by (simp add: step_simps)
  have "prefix [5] (executed (s'\<lparr>calling := False, lp := AtCheck\<rparr>))"
    using queued_runs_by_end_of_round [OF woken_reachable _ path step] by (simp add: woken_def start_state_def)
  with path step show ?thesis by blast
qed

theorem quit_ends_loop_witness:
  "\<exists>s'. path (woken\<lparr>quitting := True\<rparr>) [PollReady, HandleWake, StartCall, Swap, RunOne, FRet, EndCall] s'
    \<and> quitting s'"
proof -
  obtain s' where run: "run_all exec (woken\<lparr>quitting := True\<rparr>)
      [PollReady, HandleWake, StartCall, Swap, RunOne, FRet, EndCall] = Some s'"
    by (simp add: woken_def start_state_def)
  from exec_all_path [OF run] show ?thesis using quit_ends_loop [OF _ exec_all_path [OF run]] by auto
qed

theorem queued_after_exit_never_run_witness:
  "\<exists>s'. path (woken\<lparr>lp := Left\<rparr>) [Push 2 7, Wake 2] s' \<and> executed s' = []"
proof -
  obtain s' where run: "run_all exec (woken\<lparr>lp := Left\<rparr>) [Push 2 7, Wake 2] = Some s'"
    by (simp add: woken_def start_state_def push_def)
  from exec_all_path [OF run] show ?thesis
    using queued_after_exit_never_run [OF _ exec_all_path [OF run]] by (auto simp: woken_def start_state_def)
qed

text \<open>A kernel whose \<open>eventfd\<close> works, and a loop of another thread.\<close>

definition eventfd_kernel :: kernel where
  "eventfd_kernel tr c = zero_ret\<lparr>sr_rv := 8\<rparr>"

lemma eventfd_kernel_documented: "eventfd_documented eventfd_kernel fd"
  by (simp add: eventfd_documented_def eventfd_kernel_def)

lemma small_view: "view 1 4 small_reactor (start_state [])"
  by (simp add: view_def small_reactor_def small_loop_def start_state_def counter_def)

theorem queueInLoop_is_a_run_witness:
  "\<exists>m' s'. queueInLoop eventfd_kernel 1 9 (small_reactor\<lparr>cur_tid := 200\<rparr>) = Inr m'
    \<and> view 1 4 m' s' \<and> path (start_state []) [Push 3 9, Wake 3] s'"
proof -
  have v: "view 1 4 (small_reactor\<lparr>cur_tid := 200\<rparr>) (start_state [])"
    using small_view by (simp add: view_def)
  have el: "loop_at (small_reactor\<lparr>cur_tid := 200\<rparr>) 1 = Some small_loop" "weakupFd small_loop = 4"
    and may: "may_call (threadId small_loop = cur_tid (small_reactor\<lparr>cur_tid := 200\<rparr>)) 3 (start_state [])"
    and own: "threadId small_loop \<noteq> 200"
    by (simp_all add: small_reactor_def small_loop_def may_call_def start_state_def)
  from queueInLoop_is_a_run [OF _ el v eventfd_kernel_documented may, of 9] own show ?thesis
    by (auto simp: queue_actions_def)
qed


end
