(* ===== verification/Muduo_LoopThread.thy ===== *)
theory Muduo_LoopThread
  imports Muduo_ThreadPool
begin

text \<open>
  \<open>muduo/EventLoopThread.cpp\<close> and \<open>Thread::start\<close> as two threads: the owner, in \<open>startLoop\<close> and then
  in the destructor, and the new thread in \<open>threadFunc\<close>. One step per critical section, semaphore
  operation or access to a shared variable. Other users of the loop may call \<open>quit\<close> once
  \<open>startLoop\<close> has handed it out.
\<close>

section \<open>The machine\<close>

text \<open>
  The new thread: not created, created, its id stored, the loop built and the init callback run, the
  loop published, in the loop (\<open>quit_\<close> cleared), out of it, unpublished, ended (the loop destroyed).
\<close>

datatype child_pc = Unborn | Born | Identified | Built | Published | InLoop | Out | Unpublished | Ended

text \<open>
  The owner: before \<open>start\<close>, at the semaphore, at the condition variable, back from \<open>startLoop\<close>; in
  the destructor after the test of \<open>loop_\<close>, at \<open>join\<close>, and past it; or using a destroyed loop.
\<close>

datatype owner_pc = Calling | AtSem | AtCond | Ready | Tested | AtJoin | Destroyed | Dangling

record launch =
  child :: child_pc
  owner :: owner_pc
  sem :: nat
  loop_set :: bool
  loop_alive :: bool
  quit_set :: bool
  exiting :: bool

datatype launch_step =
    Create | StoreTid | SemWait | Build | Publish | TakeLoop | EnterLoop | Turn | LeaveLoop | Unpublish
  | EndThread | UserQuit | TestLoop | CallQuit | Join

inductive launch_rel :: "launch \<Rightarrow> launch_step \<Rightarrow> launch \<Rightarrow> bool" where
  Create: "owner s = Calling \<Longrightarrow> launch_rel s Create (s\<lparr>child := Born, owner := AtSem\<rparr>)"
| StoreTid: "child s = Born \<Longrightarrow> launch_rel s StoreTid (s\<lparr>child := Identified, sem := sem s + 1\<rparr>)"
| SemWait: "owner s = AtSem \<Longrightarrow> 0 < sem s \<Longrightarrow> launch_rel s SemWait (s\<lparr>owner := AtCond, sem := sem s - 1\<rparr>)"
| Build: "child s = Identified \<Longrightarrow> launch_rel s Build (s\<lparr>child := Built, loop_alive := True\<rparr>)"
| Publish: "child s = Built \<Longrightarrow> launch_rel s Publish (s\<lparr>child := Published, loop_set := True\<rparr>)"
| TakeLoop: "owner s = AtCond \<Longrightarrow> loop_set s \<Longrightarrow> launch_rel s TakeLoop (s\<lparr>owner := Ready\<rparr>)"
| EnterLoop: "child s = Published \<Longrightarrow> launch_rel s EnterLoop (s\<lparr>child := InLoop, quit_set := False\<rparr>)"
| Turn: "child s = InLoop \<Longrightarrow> \<not> quit_set s \<Longrightarrow> launch_rel s Turn s"
| LeaveLoop: "child s = InLoop \<Longrightarrow> quit_set s \<Longrightarrow> launch_rel s LeaveLoop (s\<lparr>child := Out\<rparr>)"
| Unpublish: "child s = Out \<Longrightarrow> launch_rel s Unpublish (s\<lparr>child := Unpublished, loop_set := False\<rparr>)"
| EndThread: "child s = Unpublished \<Longrightarrow> launch_rel s EndThread (s\<lparr>child := Ended, loop_alive := False\<rparr>)"
| UserQuit: "owner s = Ready \<Longrightarrow> loop_alive s \<Longrightarrow> launch_rel s UserQuit (s\<lparr>quit_set := True\<rparr>)"
| TestLoop: "owner s = Ready \<Longrightarrow>
    launch_rel s TestLoop (s\<lparr>exiting := True, owner := (if loop_set s then Tested else Destroyed)\<rparr>)"
| CallQuit: "owner s = Tested \<Longrightarrow> launch_rel s CallQuit
    (if loop_alive s then s\<lparr>quit_set := True, owner := AtJoin\<rparr> else s\<lparr>owner := Dangling\<rparr>)"
| Join: "owner s = AtJoin \<Longrightarrow> child s = Ended \<Longrightarrow> launch_rel s Join (s\<lparr>owner := Destroyed\<rparr>)"

inductive_cases launch_cases: "launch_rel s a s'"

inductive_simps launch_simps:
  "launch_rel s Create s'" "launch_rel s StoreTid s'" "launch_rel s SemWait s'" "launch_rel s Build s'"
  "launch_rel s Publish s'" "launch_rel s TakeLoop s'" "launch_rel s EnterLoop s'" "launch_rel s Turn s'"
  "launch_rel s LeaveLoop s'" "launch_rel s Unpublish s'" "launch_rel s EndThread s'" "launch_rel s UserQuit s'"
  "launch_rel s TestLoop s'" "launch_rel s CallQuit s'" "launch_rel s Join s'"

definition launch_start :: launch where
  "launch_start = \<lparr>child = Unborn, owner = Calling, sem = 0, loop_set = False, loop_alive = False,
     quit_set = False, exiting = False\<rparr>"

text \<open>The successor for a step, to run examples.\<close>

fun launch_next :: "launch \<Rightarrow> launch_step \<Rightarrow> launch option" where
  "launch_next s Create = (if owner s = Calling then Some (s\<lparr>child := Born, owner := AtSem\<rparr>) else None)"
| "launch_next s StoreTid = (if child s = Born then Some (s\<lparr>child := Identified, sem := sem s + 1\<rparr>) else None)"
| "launch_next s SemWait = (if owner s = AtSem \<and> 0 < sem s
     then Some (s\<lparr>owner := AtCond, sem := sem s - 1\<rparr>) else None)"
| "launch_next s Build = (if child s = Identified then Some (s\<lparr>child := Built, loop_alive := True\<rparr>) else None)"
| "launch_next s Publish = (if child s = Built then Some (s\<lparr>child := Published, loop_set := True\<rparr>) else None)"
| "launch_next s TakeLoop = (if owner s = AtCond \<and> loop_set s then Some (s\<lparr>owner := Ready\<rparr>) else None)"
| "launch_next s EnterLoop = (if child s = Published then Some (s\<lparr>child := InLoop, quit_set := False\<rparr>) else None)"
| "launch_next s Turn = (if child s = InLoop \<and> \<not> quit_set s then Some s else None)"
| "launch_next s LeaveLoop = (if child s = InLoop \<and> quit_set s then Some (s\<lparr>child := Out\<rparr>) else None)"
| "launch_next s Unpublish = (if child s = Out then Some (s\<lparr>child := Unpublished, loop_set := False\<rparr>) else None)"
| "launch_next s EndThread = (if child s = Unpublished then Some (s\<lparr>child := Ended, loop_alive := False\<rparr>) else None)"
| "launch_next s UserQuit = (if owner s = Ready \<and> loop_alive s then Some (s\<lparr>quit_set := True\<rparr>) else None)"
| "launch_next s TestLoop = (if owner s = Ready
     then Some (s\<lparr>exiting := True, owner := (if loop_set s then Tested else Destroyed)\<rparr>) else None)"
| "launch_next s CallQuit = (if owner s = Tested then Some
     (if loop_alive s then s\<lparr>quit_set := True, owner := AtJoin\<rparr> else s\<lparr>owner := Dangling\<rparr>) else None)"
| "launch_next s Join = (if owner s = AtJoin \<and> child s = Ended then Some (s\<lparr>owner := Destroyed\<rparr>) else None)"

lemma launch_next_rel: "launch_next s a = Some s' \<longleftrightarrow> launch_rel s a s'"
  by (cases a) (auto simp: launch_simps)

lemma launch_runs: "run_all launch_next s as = Some s' \<Longrightarrow> runs launch_rel s as s'"
  by (rule run_all_runs [where R = launch_rel and nxt = launch_next]) (simp_all add: launch_next_rel)

definition launched :: "launch \<Rightarrow> bool" where
  "launched s \<longleftrightarrow> (\<exists>as. runs launch_rel launch_start as s)"

section \<open>Invariant\<close>

definition launch_inv :: "launch \<Rightarrow> bool" where
  "launch_inv s \<longleftrightarrow> (loop_set s \<longleftrightarrow> child s \<in> {Published, InLoop, Out})
     \<and> (loop_alive s \<longleftrightarrow> child s \<in> {Built, Published, InLoop, Out, Unpublished})
     \<and> (owner s = Calling \<longleftrightarrow> child s = Unborn)
     \<and> (sem s = (if owner s = AtSem \<and> child s \<notin> {Unborn, Born} then 1 else 0))
     \<and> (child s = Born \<longrightarrow> owner s = AtSem)
     \<and> (owner s \<in> {Calling, AtSem, AtCond} \<longrightarrow> \<not> quit_set s \<and> child s \<notin> {Out, Unpublished, Ended})
     \<and> (owner s \<notin> {Calling, AtSem, AtCond} \<longrightarrow> child s \<notin> {Unborn, Born, Identified, Built})
     \<and> (owner s = Destroyed \<longrightarrow> \<not> loop_set s)"

lemma launch_inv_start: "launch_inv launch_start"
  by (simp add: launch_inv_def launch_start_def)

lemma launch_inv_step:
  assumes "launch_inv s" and "launch_rel s a s'"
  shows "launch_inv s'"
  using assms(2,1) by cases (auto simp: launch_inv_def)

lemma launched_inv:
  assumes "launched s"
  shows "launch_inv s"
proof -
  from assms obtain as where "runs launch_rel launch_start as s" by (auto simp: launched_def)
  then show ?thesis by (rule runs_invariant) (rule launch_inv_start, rule launch_inv_step)
qed

section \<open>Properties\<close>

text \<open>\<open>startLoop\<close> hands out a loop only when it has been built, its init callback has run and it has
  not been destroyed.\<close>

theorem startLoop_hands_out_live_loop:
  assumes "launched s" and "launch_rel s TakeLoop s'"
  shows "loop_alive s' \<and> child s' \<in> {Published, InLoop}"
proof -
  have "owner s = AtCond" "loop_set s" "s' = s\<lparr>owner := Ready\<rparr>" using assms(2) by (simp_all add: launch_simps)
  moreover have "loop_set s \<longleftrightarrow> child s \<in> {Published, InLoop, Out}"
    "loop_alive s \<longleftrightarrow> child s \<in> {Built, Published, InLoop, Out, Unpublished}"
    "owner s \<in> {Calling, AtSem, AtCond} \<longrightarrow> \<not> quit_set s \<and> child s \<notin> {Out, Unpublished, Ended}"
    using launched_inv [OF assms(1)] unfolding launch_inv_def by blast+
  ultimately show ?thesis by auto
qed

text \<open>How far \<open>startLoop\<close> has got; a turn of the loop is not progress.\<close>

fun child_left :: "child_pc \<Rightarrow> nat" where
  "child_left Unborn = 5" | "child_left Born = 4" | "child_left Identified = 3" | "child_left Built = 2"
| "child_left Published = 1" | "child_left _ = 0"

fun owner_left :: "owner_pc \<Rightarrow> nat" where
  "owner_left Calling = 3" | "owner_left AtSem = 2" | "owner_left AtCond = 1" | "owner_left _ = 0"

definition start_left :: "launch \<Rightarrow> nat" where
  "start_left s = child_left (child s) + owner_left (owner s)"


text \<open>The owner waits in \<open>join\<close> for a loop that nobody will tell to quit.\<close>

definition join_hangs :: "launch \<Rightarrow> bool" where
  "join_hangs s \<longleftrightarrow> owner s = AtJoin \<and> child s = InLoop \<and> \<not> quit_set s"

text \<open>C25: The destructor can hang: when it calls \<open>quit\<close> after the loop was published but before the new
  thread enters \<open>loop()\<close>, which clears \<open>quit_\<close>, the request is lost; from then on the owner stays
  in \<open>join\<close> and the loop goes on, whatever steps follow.\<close>

theorem early_quit_hangs_join:
  assumes "owner s = AtJoin" and "child s = Published" and "launch_rel s EnterLoop s1" and "runs launch_rel s1 as s'"
  shows "join_hangs s'"
proof (rule runs_invariant [OF assms(4)])
  show "join_hangs s1" using assms(1-3) by (auto simp: launch_simps join_hangs_def)
qed (auto simp: join_hangs_def elim: launch_cases)

fun join_left :: "launch \<Rightarrow> nat" where
  "join_left s = (if owner s = Destroyed then 0 else case child s of InLoop \<Rightarrow> 4 | Out \<Rightarrow> 3 | Unpublished \<Rightarrow> 2 | _ \<Rightarrow> 1)"

definition joining :: "launch \<Rightarrow> bool" where
  "joining s \<longleftrightarrow> (owner s = AtJoin \<and> quit_set s \<and> child s \<in> {InLoop, Out, Unpublished, Ended})
     \<or> (owner s = Destroyed \<and> child s = Ended)"

lemma joining_step: "joining s \<Longrightarrow> launch_rel s a s' \<Longrightarrow> joining s' \<and> join_left s' < join_left s"
  by (erule launch_cases) (auto simp: joining_def)

text \<open>C24: The destructor returns when \<open>quit\<close> comes in time: with the owner in \<open>join\<close>, \<open>quit_\<close> set and the
  new thread in its loop, every run makes at most four steps, and when no step is left the owner
  is past its destructor and the thread has ended.\<close>

theorem join_returns:
  assumes "owner s = AtJoin" and "quit_set s" and "child s = InLoop" and "runs launch_rel s as s'"
  shows "length as \<le> 4 \<and> ((\<nexists>a s''. launch_rel s' a s'') \<longrightarrow> owner s' = Destroyed \<and> child s' = Ended)"
proof -
  have start: "joining s" "join_left s = 4" using assms(1-3) by (simp_all add: joining_def)
  have "joining s' \<and> length as + join_left s' \<le> 4"
    using assms(4) start
  proof (induction rule: runs.induct)
    case (runs_snoc s as s' a s'')
    with joining_step [of s' a s''] show ?case by (auto simp del: join_left.simps)
  qed (simp del: join_left.simps)
  moreover have "\<exists>a. launch_next s' a \<noteq> None" if "joining s'" "owner s' \<noteq> Destroyed"
  proof -
    from that have o: "owner s' = AtJoin" "quit_set s'" "child s' \<in> {InLoop, Out, Unpublished, Ended}"
      by (auto simp: joining_def)
    then have "launch_next s' LeaveLoop \<noteq> None \<or> launch_next s' Unpublish \<noteq> None
        \<or> launch_next s' EndThread \<noteq> None \<or> launch_next s' Join \<noteq> None"
      by auto
    then show ?thesis by blast
  qed
  ultimately show ?thesis by (auto simp: launch_next_rel joining_def)
qed

text \<open>The destructor can use a destroyed loop: it reads \<open>loop_\<close> without the mutex, so the loop may
  leave, be unpublished and destroyed between that test and the call of \<open>quit\<close>.\<close>

theorem destructor_may_use_dangling_loop:
  "\<exists>s. launched s \<and> owner s = Dangling \<and> \<not> loop_alive s"
proof -
  obtain s where "run_all launch_next launch_start [Create, StoreTid, SemWait, Build, Publish, TakeLoop,
      EnterLoop, UserQuit, TestLoop, LeaveLoop, Unpublish, EndThread, CallQuit] = Some s"
    "owner s = Dangling" "\<not> loop_alive s"
    by (simp add: launch_start_def)
  with launch_runs show ?thesis unfolding launched_def by blast
qed

section \<open>Examples\<close>

text \<open>The owner destroys the thread object at once: \<open>raced\<close> before the thread enters its loop.\<close>

definition raced :: launch where
  "raced = \<lparr>child = Published, owner = AtJoin, sem = 0, loop_set = True, loop_alive = True, quit_set = True,
     exiting = True\<rparr>"

definition published_state :: launch where
  "published_state = \<lparr>child = Published, owner = AtCond, sem = 0, loop_set = True, loop_alive = True,
     quit_set = False, exiting = False\<rparr>"

lemma raced_launched: "launched raced" "launched published_state" "launched launch_start"
proof -
  have "run_all launch_next launch_start [Create, StoreTid, SemWait, Build, Publish, TakeLoop, TestLoop,
      CallQuit] = Some raced"
    by (simp add: launch_start_def raced_def)
  then show "launched raced" unfolding launched_def by (blast dest: launch_runs)
  have "run_all launch_next launch_start [Create, StoreTid, SemWait, Build, Publish] = Some published_state"
    by (simp add: launch_start_def published_state_def)
  then show "launched published_state" unfolding launched_def by (blast dest: launch_runs)
  show "launched launch_start" unfolding launched_def by (blast intro: runs_Nil)
qed

theorem startLoop_hands_out_live_loop_witness:
  "loop_alive (published_state\<lparr>owner := Ready\<rparr>)"
  using startLoop_hands_out_live_loop [OF raced_launched(2), of "published_state\<lparr>owner := Ready\<rparr>"]
  by (simp add: launch_simps published_state_def)


theorem early_quit_hangs_join_witness:
  "\<exists>s1 s'. launched raced \<and> launch_rel raced EnterLoop s1 \<and> runs launch_rel s1 [Turn, Turn] s' \<and> join_hangs s'"
proof -
  let ?s1 = "raced\<lparr>child := InLoop, quit_set := False\<rparr>"
  have enter: "launch_rel raced EnterLoop ?s1" by (simp add: launch_simps raced_def)
  have "run_all launch_next ?s1 [Turn, Turn] = Some ?s1" by (simp add: raced_def)
  then have run: "runs launch_rel ?s1 [Turn, Turn] ?s1" by (rule launch_runs)
  have "join_hangs ?s1"
    by (rule early_quit_hangs_join [OF _ _ enter run]) (simp_all add: raced_def)
  with enter run raced_launched(1) show ?thesis by blast
qed

theorem join_returns_witness:
  "\<exists>s'. runs launch_rel (raced\<lparr>child := InLoop\<rparr>) [LeaveLoop, Unpublish, EndThread, Join] s'
    \<and> owner s' = Destroyed \<and> child s' = Ended"
proof -
  obtain s' where s': "run_all launch_next (raced\<lparr>child := InLoop\<rparr>) [LeaveLoop, Unpublish, EndThread, Join] = Some s'"
    and o: "owner s' = Destroyed" "child s' = Ended"
    by (simp add: raced_def)
  have run: "runs launch_rel (raced\<lparr>child := InLoop\<rparr>) [LeaveLoop, Unpublish, EndThread, Join] s'"
    by (rule launch_runs [OF s'])
  have "\<nexists>a s''. launch_rel s' a s''" using o by (auto elim: launch_cases)
  with join_returns [OF _ _ _ run] have "owner s' = Destroyed \<and> child s' = Ended" by (simp add: raced_def)
  with run show ?thesis by blast
qed

end
