(* ===== verification/Muduo_Observer.thy ===== *)
theory Muduo_Observer
  imports Muduo_Channel "HOL-Library.AList"
begin

text \<open>
  \<open>design_pattern/observer.h\<close>: subjects with a list of weak pointers to their observers and a queue
  of messages that a worker thread delivers, and observers with a callback for each subject. \<open>refs\<close>
  counts the strong references to an object: a weak pointer can be locked while that is positive;
  in a destructor it is 0 while the object is still there. One definition per critical section; the
  calls of user callbacks are recorded in \<open>calls\<close>, what a callback does is not modelled.
\<close>

section \<open>State\<close>

record subject =
  observers :: "ptr list"
  current_message :: string
  notification_queue :: "string list"
  shutdown_flag :: bool

record 'cb observer =
  callback_map :: "(ptr \<times> 'cb) list"
  ob_name :: string

record 'cb patterns =
  refs :: "ptr \<Rightarrow> nat"
  subject_at :: "ptr \<Rightarrow> subject option"
  observer_at :: "ptr \<Rightarrow> 'cb observer option"
  calls :: "('cb \<times> string) list"

definition put_subject :: "ptr \<Rightarrow> subject \<Rightarrow> 'cb patterns \<Rightarrow> 'cb patterns" where
  "put_subject s sb m = m\<lparr>subject_at := (subject_at m)(s \<mapsto> sb)\<rparr>"

definition put_observer :: "ptr \<Rightarrow> 'cb observer \<Rightarrow> 'cb patterns \<Rightarrow> 'cb patterns" where
  "put_observer ob x m = m\<lparr>observer_at := (observer_at m)(ob \<mapsto> x)\<rparr>"

text \<open>\<open>weak_ptr::lock\<close>.\<close>

definition lock :: "ptr \<Rightarrow> 'cb patterns \<Rightarrow> ptr option" where
  "lock w m = (if 0 < refs m w then Some w else None)"

section \<open>Subject\<close>

definition Subject :: "ptr \<Rightarrow> 'cb patterns \<Rightarrow> 'cb patterns" where
  "Subject s m = (put_subject s \<lparr>observers = [], current_message = [], notification_queue = [],
     shutdown_flag = False\<rparr> m)\<lparr>refs := (refs m)(s := 1)\<rparr>"

definition attach :: "ptr \<Rightarrow> ptr \<Rightarrow> 'cb patterns \<Rightarrow> 'cb patterns result" where
  "attach s ob m = bindE (load s (subject_at m)) (\<lambda>sb.
     Inr (put_subject s (sb\<lparr>observers := observers sb @ [ob]\<rparr>) m))"

text \<open>\<open>std::find_if\<close> with \<open>erase\<close>: the first element that satisfies the test goes.\<close>

fun erase_first :: "('a \<Rightarrow> bool) \<Rightarrow> 'a list \<Rightarrow> 'a list" where
  "erase_first P [] = []"
| "erase_first P (x # xs) = (if P x then xs else x # erase_first P xs)"

definition detach :: "ptr \<Rightarrow> ptr \<Rightarrow> 'cb patterns \<Rightarrow> 'cb patterns result" where
  "detach s ob m = bindE (load s (subject_at m)) (\<lambda>sb.
     Inr (put_subject s (sb\<lparr>observers :=
       erase_first (\<lambda>w. lock w m \<noteq> None \<and> lock w m = lock ob m) (observers sb)\<rparr>) m))"

definition notify :: "ptr \<Rightarrow> 'cb patterns \<Rightarrow> 'cb patterns result" where
  "notify s m = bindE (load s (subject_at m)) (\<lambda>sb.
     Inr (put_subject s (sb\<lparr>notification_queue := notification_queue sb @ [current_message sb]\<rparr>) m))"

definition create_message :: "ptr \<Rightarrow> string \<Rightarrow> 'cb patterns \<Rightarrow> 'cb patterns result" where
  "create_message s msg m = bindE (load s (subject_at m)) (\<lambda>sb.
     notify s (put_subject s (sb\<lparr>current_message := msg\<rparr>) m))"

section \<open>Observer\<close>

definition Observer :: "ptr \<Rightarrow> string \<Rightarrow> 'cb patterns \<Rightarrow> 'cb patterns" where
  "Observer ob name m = (put_observer ob \<lparr>callback_map = [], ob_name = name\<rparr> m)\<lparr>refs := (refs m)(ob := 1)\<rparr>"

definition observer_update :: "ptr \<Rightarrow> ptr \<Rightarrow> string \<Rightarrow> 'cb patterns \<Rightarrow> 'cb patterns result" where
  "observer_update ob s msg m = bindE (load ob (observer_at m)) (\<lambda>x.
     case map_of (callback_map x) s of
       Some cb \<Rightarrow> Inr (m\<lparr>calls := calls m @ [(cb, msg)]\<rparr>)
     | None \<Rightarrow> Inr m)"

definition set_callback :: "ptr \<Rightarrow> ptr \<Rightarrow> 'cb \<Rightarrow> 'cb patterns \<Rightarrow> 'cb patterns result" where
  "set_callback ob s cb m = bindE (load ob (observer_at m)) (\<lambda>x.
     attach s ob (put_observer ob (x\<lparr>callback_map := AList.update s cb (callback_map x)\<rparr>) m))"

definition remove_self :: "ptr \<Rightarrow> 'cb patterns \<Rightarrow> 'cb patterns result" where
  "remove_self ob m = bindE (load ob (observer_at m)) (\<lambda>x.
     bindE (foldE (\<lambda>s m1. if lock s m1 \<noteq> None then detach s ob m1 else Inr m1) (map fst (callback_map x)) m)
       (\<lambda>m2. Inr (put_observer ob (x\<lparr>callback_map := []\<rparr>) m2)))"

text \<open>Without an entry for the subject, the end iterator is dereferenced and erased.\<close>

definition remove_from_subject :: "ptr \<Rightarrow> ptr \<Rightarrow> 'cb patterns \<Rightarrow> 'cb patterns result" where
  "remove_from_subject ob s m = bindE (load ob (observer_at m)) (\<lambda>x.
     if map_of (callback_map x) s = None then Inl OutOfBounds
     else bindE (if lock s m \<noteq> None then detach s ob m else Inr m) (\<lambda>m1.
       Inr (put_observer ob (x\<lparr>callback_map := AList.delete s (callback_map x)\<rparr>) m1)))"

text \<open>The destructor runs when the last strong reference has gone.\<close>

definition destroy_Observer :: "ptr \<Rightarrow> 'cb patterns \<Rightarrow> 'cb patterns result" where
  "destroy_Observer ob m = bindE (remove_self ob (m\<lparr>refs := (refs m)(ob := 0)\<rparr>)) (\<lambda>m1.
     Inr (m1\<lparr>observer_at := (observer_at m1)(ob := None)\<rparr>))"

section \<open>The worker thread\<close>

text \<open>
  The walk over the list. An observer that cannot be locked is erased. \<open>shared_from_this()\<close> throws
  when the subject has no strong reference left; that and every \<open>std::exception\<close> of a callback is
  caught and only printed.
\<close>

fun notify_all :: "ptr \<Rightarrow> string \<Rightarrow> ptr list \<Rightarrow> 'cb patterns \<Rightarrow> (ptr list \<times> 'cb patterns) result" where
  "notify_all s msg [] m = Inr ([], m)"
| "notify_all s msg (w # ws) m = (case lock w m of
     Some ob \<Rightarrow> bindE (if lock s m \<noteq> None then observer_update ob s msg m else Inr m) (\<lambda>m1.
       bindE (notify_all s msg ws m1) (\<lambda>(ks, m2). Inr (w # ks, m2)))
   | None \<Rightarrow> notify_all s msg ws m)"

datatype turn = Waits | Returns | Handled

definition worker_turn :: "ptr \<Rightarrow> 'cb patterns \<Rightarrow> (turn \<times> 'cb patterns) result" where
  "worker_turn s m = bindE (load s (subject_at m)) (\<lambda>sb.
     case notification_queue sb of
       [] \<Rightarrow> Inr (if shutdown_flag sb then Returns else Waits, m)
     | msg # rest \<Rightarrow>
         let m1 = put_subject s (sb\<lparr>notification_queue := rest\<rparr>) m in
         if msg \<noteq> [] then bindE (notify_all s msg (observers sb) m1) (\<lambda>(ks, m2).
              bindE (load s (subject_at m2)) (\<lambda>sb2.
              Inr (Handled, put_subject s (sb2\<lparr>observers := ks\<rparr>) m2)))
         else Inr (Handled, m1))"

text \<open>At most \<open>n\<close> turns, ended by a turn that waits or returns.\<close>

fun worker :: "nat \<Rightarrow> ptr \<Rightarrow> 'cb patterns \<Rightarrow> (turn \<times> 'cb patterns) result" where
  "worker 0 s m = Inr (Handled, m)"
| "worker (Suc n) s m = bindE (worker_turn s m) (\<lambda>(t, m1). if t = Handled then worker n s m1 else Inr (t, m1))"

text \<open>The destructor of a subject: set the flag, wait for the worker, drop the members.\<close>

definition destroy_Subject :: "ptr \<Rightarrow> 'cb patterns \<Rightarrow> 'cb patterns result" where
  "destroy_Subject s m = (let m1 = m\<lparr>refs := (refs m)(s := 0)\<rparr> in bindE (load s (subject_at m1)) (\<lambda>sb.
     bindE (worker (Suc (length (notification_queue sb))) s (put_subject s (sb\<lparr>shutdown_flag := True\<rparr>) m1))
       (\<lambda>(t, m2). Inr (m2\<lparr>subject_at := (subject_at m2)(s := None)\<rparr>))))"


section \<open>What the worker delivers\<close>

definition live :: "ptr \<Rightarrow> 'cb patterns \<Rightarrow> bool" where
  "live w m \<longleftrightarrow> 0 < refs m w"

text \<open>The call that observer \<open>w\<close> makes for a message of subject \<open>s\<close>.\<close>

definition call_of :: "'cb patterns \<Rightarrow> ptr \<Rightarrow> string \<Rightarrow> ptr \<Rightarrow> ('cb \<times> string) list" where
  "call_of m s msg w = (case observer_at m w of None \<Rightarrow> []
     | Some x \<Rightarrow> (case map_of (callback_map x) s of None \<Rightarrow> [] | Some cb \<Rightarrow> [(cb, msg)]))"

definition calls_for :: "'cb patterns \<Rightarrow> ptr \<Rightarrow> ptr list \<Rightarrow> string \<Rightarrow> ('cb \<times> string) list" where
  "calls_for m s ws msg = (if msg = [] \<or> \<not> live s m then []
     else concat (map (call_of m s msg) (filter (\<lambda>w. live w m) ws)))"

text \<open>Every object with a strong reference exists.\<close>

definition observers_exist :: "ptr list \<Rightarrow> 'cb patterns \<Rightarrow> bool" where
  "observers_exist ws m \<longleftrightarrow> (\<forall>w \<in> set ws. live w m \<longrightarrow> w \<noteq> 0 \<and> observer_at m w \<noteq> None)"

lemma put_subject_simps [simp]:
  "refs (put_subject s sb m) = refs m" "observer_at (put_subject s sb m) = observer_at m"
  "calls (put_subject s sb m) = calls m" "subject_at (put_subject s sb m) = (subject_at m)(s \<mapsto> sb)"
  "live w (put_subject s sb m) = live w m" "lock w (put_subject s sb m) = lock w m"
  by (simp_all add: put_subject_def live_def lock_def)

lemma live_calls [simp]: "live w (m\<lparr>calls := x\<rparr>) = live w m"
  by (simp add: live_def)

lemma lock_live: "lock w m = (if live w m then Some w else None)"
  by (simp add: lock_def live_def)

lemma call_of_cong: "observer_at m' = observer_at m \<Longrightarrow> call_of m' = call_of m"
  by (simp add: call_of_def fun_eq_iff)

lemma calls_for_cong:
  assumes "refs m' = refs m" and "observer_at m' = observer_at m"
  shows "calls_for m' = calls_for m"
  using call_of_cong [OF assms(2)] assms(1) by (intro ext) (simp add: calls_for_def live_def)

lemma put_subject_calls [simp]:
  "put_subject s a ((put_subject s b m)\<lparr>calls := c\<rparr>) = (put_subject s a m)\<lparr>calls := c\<rparr>"
  by (simp add: put_subject_def)

lemma put_subject_same_calls [simp]: "(put_subject s a m)\<lparr>calls := calls m\<rparr> = put_subject s a m"
  by (simp add: put_subject_def)

lemma update_call:
  "w \<noteq> 0 \<Longrightarrow> observer_at m w \<noteq> None \<Longrightarrow>
    observer_update w s msg m = Inr (m\<lparr>calls := calls m @ call_of m s msg w\<rparr>)"
  by (auto simp: observer_update_def call_of_def split: option.split)

lemma notify_all_eq:
  assumes "observers_exist ws m"
  shows "notify_all s msg ws m = Inr (filter (\<lambda>w. live w m) ws, m\<lparr>calls := calls m @
    (if live s m then concat (map (call_of m s msg) (filter (\<lambda>w. live w m) ws)) else [])\<rparr>)"
  using assms
proof (induction ws arbitrary: m)
  case Nil
  then show ?case by simp
next
  case (Cons w ws)
  have rest: "observers_exist ws m" using Cons.prems by (simp add: observers_exist_def)
  show ?case
  proof (cases "live w m \<and> live s m")
    case True
    let ?m = "m\<lparr>calls := calls m @ call_of m s msg w\<rparr>"
    have "observer_update w s msg m = Inr ?m"
      using True Cons.prems by (intro update_call) (simp_all add: observers_exist_def)
    moreover have "observers_exist ws ?m" using rest by (simp add: observers_exist_def)
    from Cons.IH [OF this] have "notify_all s msg ws ?m = Inr (filter (\<lambda>w. live w m) ws, ?m\<lparr>calls := calls ?m @
        concat (map (call_of m s msg) (filter (\<lambda>w. live w m) ws))\<rparr>)"
      using True by (simp add: call_of_def [abs_def])
    ultimately show ?thesis using True by (simp add: lock_live)
  next
    case False
    then show ?thesis using Cons.IH [OF rest] by (auto simp: lock_live)
  qed
qed

text \<open>One turn on a message at the head of the queue.\<close>

lemma worker_turn_eq:
  assumes "s \<noteq> 0" and "subject_at m s = Some sb" and "observers_exist (observers sb) m"
    and "notification_queue sb = msg # rest"
  shows "worker_turn s m = Inr (Handled, (put_subject s (sb\<lparr>notification_queue := rest,
      observers := (if msg = [] then observers sb else filter (\<lambda>w. live w m) (observers sb))\<rparr>) m)
      \<lparr>calls := calls m @ calls_for m s (observers sb) msg\<rparr>)"
proof -
  let ?m = "put_subject s (sb\<lparr>notification_queue := rest\<rparr>) m"
  have "observers_exist (observers sb) ?m" using assms(3) by (simp add: observers_exist_def)
  note this [THEN notify_all_eq, of s msg]
  moreover have "call_of ?m = call_of m" by (rule call_of_cong) simp
  ultimately have "notify_all s msg (observers sb) ?m = Inr (filter (\<lambda>w. live w m) (observers sb),
      ?m\<lparr>calls := calls m @ (if live s m then concat (map (call_of m s msg) (filter (\<lambda>w. live w m) (observers sb))) else [])\<rparr>)"
    by simp
  then show ?thesis using assms by (cases "msg = []") (simp_all add: worker_turn_def Let_def calls_for_def)
qed

lemma worker_more:
  "worker n s m = Inr (Handled, m') \<Longrightarrow> worker_turn s m' = Inr (Returns, m'') \<Longrightarrow> worker (n + 1) s m = Inr (Returns, m'')"
proof (induction n arbitrary: m)
  case (Suc n)
  then obtain t m1 where "worker_turn s m = Inr (t, m1)" by (auto simp: halts)
  with Suc show ?case by (cases "t = Handled") auto
qed simp

lemma worker_drains:
  assumes "s \<noteq> 0" and "subject_at m s = Some sb" and "observers_exist (observers sb) m"
    and "notification_queue sb = q"
  shows "\<exists>m' sb'. worker (length q) s m = Inr (Handled, m') \<and> subject_at m' = (subject_at m)(s \<mapsto> sb')
    \<and> notification_queue sb' = [] \<and> shutdown_flag sb' = shutdown_flag sb
    \<and> observers sb' = (if \<forall>msg \<in> set q. msg = [] then observers sb else filter (\<lambda>w. live w m) (observers sb))
    \<and> refs m' = refs m \<and> observer_at m' = observer_at m
    \<and> calls m' = calls m @ concat (map (calls_for m s (observers sb)) q)"
  using assms(2-4)
proof (induction q arbitrary: m sb)
  case Nil
  then show ?case by (intro exI [of _ m] exI [of _ sb]) (simp add: fun_upd_idem)
next
  case (Cons msg q)
  let ?ws = "if msg = [] then observers sb else filter (\<lambda>w. live w m) (observers sb)"
  define sb1 where "sb1 = sb\<lparr>notification_queue := q, observers := ?ws\<rparr>"
  define m1 where "m1 = (put_subject s sb1 m)\<lparr>calls := calls m @ calls_for m s (observers sb) msg\<rparr>"
  have turn: "worker_turn s m = Inr (Handled, m1)"
    using worker_turn_eq [OF assms(1) Cons.prems] by (simp add: m1_def sb1_def)
  have m1: "subject_at m1 = (subject_at m)(s \<mapsto> sb1)" "refs m1 = refs m" "observer_at m1 = observer_at m"
    "calls m1 = calls m @ calls_for m s (observers sb) msg" "live w m1 = live w m" for w
    by (simp_all add: m1_def live_def)
  have ex: "observers_exist (observers sb1) m1"
    using Cons.prems(2) by (auto simp: observers_exist_def sb1_def m1)
  have "subject_at m1 s = Some sb1" "notification_queue sb1 = q" by (simp_all add: m1 sb1_def)
  from Cons.IH [OF this(1) ex this(2)] obtain m' sb' where
    ih: "worker (length q) s m1 = Inr (Handled, m')" "subject_at m' = (subject_at m1)(s \<mapsto> sb')"
      "notification_queue sb' = []" "shutdown_flag sb' = shutdown_flag sb1"
      "observers sb' = (if \<forall>msg \<in> set q. msg = [] then observers sb1 else filter (\<lambda>w. live w m1) (observers sb1))"
      "refs m' = refs m1" "observer_at m' = observer_at m1"
      "calls m' = calls m1 @ concat (map (calls_for m1 s (observers sb1)) q)"
    by blast
  have same: "calls_for m1 s (observers sb1) = calls_for m s (observers sb)"
    unfolding calls_for_cong [OF m1(2,3)] by (auto simp: calls_for_def sb1_def fun_eq_iff)
  from turn ih same m1 show ?case
    by (intro exI [of _ m'] exI [of _ sb']) (simp add: sb1_def)
qed


section \<open>The interface of a subject\<close>

text \<open>The lists after \<open>ob\<close> was taken out of those in \<open>S\<close>, if it is alive.\<close>

definition without :: "ptr set \<Rightarrow> ptr \<Rightarrow> bool \<Rightarrow> (ptr \<Rightarrow> ptr list option) \<Rightarrow> ptr \<Rightarrow> ptr list option" where
  "without S ob alive ls s = (if s \<in> S \<and> alive then map_option (remove1 ob) (ls s) else ls s)"

text \<open>
  What observers rely on in \<open>ISubject\<close>: \<open>attach\<close> adds at the end of one list, \<open>detach\<close> takes the
  first entry of an observer that is still alive, and neither touches another subject.
\<close>

locale isubject =
  fixes att :: "ptr \<Rightarrow> ptr \<Rightarrow> 'm \<Rightarrow> 'm result"
    and det :: "ptr \<Rightarrow> ptr \<Rightarrow> 'm \<Rightarrow> 'm result"
    and listed :: "'m \<Rightarrow> ptr \<Rightarrow> ptr list option"
    and alive_in :: "'m \<Rightarrow> ptr \<Rightarrow> bool"
    and rest :: "'m \<Rightarrow> 'r"
  assumes attach_law: "listed m s = Some ws \<Longrightarrow> \<exists>m'. att s ob m = Inr m'
      \<and> listed m' = (listed m)(s \<mapsto> ws @ [ob]) \<and> alive_in m' = alive_in m \<and> rest m' = rest m"
    and detach_law: "listed m s = Some ws \<Longrightarrow> \<exists>m'. det s ob m = Inr m'
      \<and> listed m' = (listed m)(s \<mapsto> (if alive_in m ob then remove1 ob ws else ws))
      \<and> alive_in m' = alive_in m \<and> rest m' = rest m"
begin

lemma detach_each:
  assumes "distinct ss" and "\<forall>s \<in> set ss. alive_in m s \<longrightarrow> listed m s \<noteq> None"
  shows "\<exists>m'. foldE (\<lambda>s m1. if alive_in m1 s then det s ob m1 else Inr m1) ss m = Inr m'
    \<and> listed m' = without {s \<in> set ss. alive_in m s} ob (alive_in m ob) (listed m) \<and> alive_in m' = alive_in m \<and> rest m' = rest m"
  using assms
proof (induction ss arbitrary: m)
  case Nil
  then show ?case by (simp add: without_def fun_eq_iff)
next
  case (Cons s ss)
  show ?case
  proof (cases "alive_in m s")
    case False
    with Cons.IH [of m] Cons.prems have "\<exists>m'. foldE (\<lambda>s m1. if alive_in m1 s then det s ob m1 else Inr m1) ss m = Inr m'
        \<and> listed m' = without {s \<in> set ss. alive_in m s} ob (alive_in m ob) (listed m) \<and> alive_in m' = alive_in m \<and> rest m' = rest m"
      by simp
    moreover have "{x \<in> set (s # ss). alive_in m x} = {x \<in> set ss. alive_in m x}" using False by auto
    ultimately show ?thesis using False by simp
  next
    case True
    with Cons.prems(2) obtain ws where "listed m s = Some ws" by auto
    from detach_law [OF this, of ob] obtain m1 where
      m1: "det s ob m = Inr m1" "listed m1 = (listed m)(s \<mapsto> (if alive_in m ob then remove1 ob ws else ws))"
        "alive_in m1 = alive_in m" "rest m1 = rest m" by blast
    have "\<forall>s \<in> set ss. alive_in m1 s \<longrightarrow> listed m1 s \<noteq> None" using Cons.prems m1 by auto
    with Cons.IH [of m1] Cons.prems(1) obtain m' where
      m': "foldE (\<lambda>s m1. if alive_in m1 s then det s ob m1 else Inr m1) ss m1 = Inr m'"
        "listed m' = without {s \<in> set ss. alive_in m1 s} ob (alive_in m1 ob) (listed m1)" "alive_in m' = alive_in m1" "rest m' = rest m1"
      by auto
    have "without {s \<in> set ss. alive_in m1 s} ob (alive_in m1 ob) (listed m1) = without {x \<in> set (s # ss). alive_in m x} ob (alive_in m ob) (listed m)"
      using Cons.prems(1) True \<open>listed m s = Some ws\<close> m1(2,3) by (auto simp: without_def fun_eq_iff)
    with m1 m' True show ?thesis by (intro exI [of _ m']) simp
  qed
qed

end

definition lists_of :: "'cb patterns \<Rightarrow> ptr \<Rightarrow> ptr list option" where
  "lists_of m s = (if s = 0 then None else map_option observers (subject_at m s))"

definition rest_of :: "'cb patterns \<Rightarrow> (ptr \<Rightarrow> (string \<times> string list \<times> bool) option) \<times> (ptr \<Rightarrow> 'cb observer option) \<times> ('cb \<times> string) list"
  where "rest_of m = ((\<lambda>s. map_option (\<lambda>sb. (current_message sb, notification_queue sb, shutdown_flag sb)) (subject_at m s)),
    observer_at m, calls m)"

lemma erase_first_dead: "\<forall>x \<in> set xs. \<not> P x \<Longrightarrow> erase_first P xs = xs"
  by (induction xs) auto

lemma erase_first_remove1: "(\<And>x. P x \<longleftrightarrow> x = y) \<Longrightarrow> erase_first P xs = remove1 y xs"
  by (induction xs) auto

lemma detach_erases:
  "erase_first (\<lambda>w. lock w m \<noteq> None \<and> lock w m = lock ob m) ws = (if live ob m then remove1 ob ws else ws)"
  by (auto simp: lock_live intro!: erase_first_dead erase_first_remove1)

interpretation sbj: isubject attach detach lists_of "\<lambda>m w. live w m" rest_of
proof
  fix m :: "'a patterns" and s ob ws
  assume "lists_of m s = Some ws"
  then obtain sb where sb: "s \<noteq> 0" "subject_at m s = Some sb" "observers sb = ws"
    by (auto simp: lists_of_def split: if_splits)
  show "\<exists>m'. attach s ob m = Inr m' \<and> lists_of m' = (lists_of m)(s \<mapsto> ws @ [ob])
      \<and> (\<lambda>w. live w m') = (\<lambda>w. live w m) \<and> rest_of m' = rest_of m"
    using sb by (simp add: attach_def lists_of_def rest_of_def fun_eq_iff)
  show "\<exists>m'. detach s ob m = Inr m'
      \<and> lists_of m' = (lists_of m)(s \<mapsto> (if live ob m then remove1 ob ws else ws))
      \<and> (\<lambda>w. live w m') = (\<lambda>w. live w m) \<and> rest_of m' = rest_of m"
    using sb by (simp add: detach_def detach_erases lists_of_def rest_of_def fun_eq_iff del: not_None_eq)
qed

lemma remove_self_lists:
  assumes "ob \<noteq> 0" and "observer_at m ob = Some x" and "distinct (map fst (callback_map x))"
    and "\<forall>s \<in> fst ` set (callback_map x). live s m \<longrightarrow> lists_of m s \<noteq> None"
  shows "\<exists>m'. remove_self ob m = Inr m' \<and> observer_at m' = (observer_at m)(ob \<mapsto> x\<lparr>callback_map := []\<rparr>)
    \<and> calls m' = calls m \<and> (\<forall>w. live w m' = live w m)
    \<and> (\<forall>s. lists_of m' s = (if s \<in> fst ` set (callback_map x) \<and> live s m \<and> live ob m
        then map_option (remove1 ob) (lists_of m s) else lists_of m s))"
proof -
  have step: "(\<lambda>s m1. if lock s m1 \<noteq> None then detach s ob m1 else Inr m1)
      = (\<lambda>s m1. if live s m1 then detach s ob m1 else Inr m1)"
    by (simp add: lock_live fun_eq_iff)
  from sbj.detach_each [OF assms(3), of m ob] assms(4) obtain m1 where
    m1: "foldE (\<lambda>s m1. if live s m1 then detach s ob m1 else Inr m1) (map fst (callback_map x)) m = Inr m1"
      "lists_of m1 = without {s \<in> set (map fst (callback_map x)). live s m} ob (live ob m) (lists_of m)" "rest_of m1 = rest_of m"
      "(\<lambda>w. live w m1) = (\<lambda>w. live w m)"
    by auto
  let ?m = "put_observer ob (x\<lparr>callback_map := []\<rparr>) m1"
  have "remove_self ob m = Inr ?m"
    using assms(1,2) m1(1) by (simp add: remove_self_def step del: not_None_eq)
  moreover have "lists_of ?m = lists_of m1" "observer_at ?m = (observer_at m)(ob \<mapsto> x\<lparr>callback_map := []\<rparr>)"
    "calls ?m = calls m" "\<forall>w. live w ?m = live w m"
    using m1(3) fun_cong [OF m1(4)] by (simp_all add: lists_of_def put_observer_def rest_of_def live_def fun_eq_iff)
  ultimately show ?thesis using m1(2) by (intro exI [of _ ?m]) (simp add: without_def)
qed

section \<open>Properties\<close>

text \<open>The worker delivers every message in the order of the queue: run once per message, it leaves
  the queue empty and calls, for every message that is not empty, the callback that each observer
  still alive has for the subject, in the order in which the observers attached; observers that are
  gone are pruned as soon as a message that is not empty is delivered. An empty message is dropped.\<close>

theorem worker_delivers_in_order:
  assumes "s \<noteq> 0" and "subject_at m s = Some sb" and "observers_exist (observers sb) m" and "live s m"
  shows "\<exists>m' sb'. worker (length (notification_queue sb)) s m = Inr (Handled, m')
    \<and> subject_at m' = (subject_at m)(s \<mapsto> sb') \<and> notification_queue sb' = []
    \<and> observers sb' = (if \<forall>msg \<in> set (notification_queue sb). msg = [] then observers sb
        else filter (\<lambda>w. live w m) (observers sb))
    \<and> calls m' = calls m @ concat (map (\<lambda>msg. concat (map (call_of m s msg)
        (filter (\<lambda>w. live w m) (observers sb)))) (filter (\<lambda>msg. msg \<noteq> []) (notification_queue sb)))"
proof -
  have "concat (map (calls_for m s (observers sb)) q) = concat (map (\<lambda>msg. concat (map (call_of m s msg)
      (filter (\<lambda>w. live w m) (observers sb)))) (filter (\<lambda>msg. msg \<noteq> []) q))" for q
    using assms(4) by (induction q) (simp_all add: calls_for_def)
  moreover obtain m' sb' where "worker (length (notification_queue sb)) s m = Inr (Handled, m')"
    "subject_at m' = (subject_at m)(s \<mapsto> sb')" "notification_queue sb' = []"
    "observers sb' = (if \<forall>msg \<in> set (notification_queue sb). msg = [] then observers sb
        else filter (\<lambda>w. live w m) (observers sb))"
    "calls m' = calls m @ concat (map (calls_for m s (observers sb)) (notification_queue sb))"
    using worker_drains [OF assms(1-3) refl] by blast
  ultimately show ?thesis by (intro exI [of _ m'] exI [of _ sb']) simp
qed

text \<open>Messages still queued when a subject is destroyed are lost: the worker takes them all and
  returns, so the destructor does not hang, but no callback is called, since the subject can no
  longer be shared and \<open>shared_from_this()\<close> throws for every observer.\<close>

theorem destroy_Subject_drops_messages:
  assumes "s \<noteq> 0" and "subject_at m s = Some sb" and "observers_exist (observers sb) m"
    and "s \<notin> set (observers sb)"
  shows "\<exists>m'. destroy_Subject s m = Inr m' \<and> calls m' = calls m \<and> subject_at m' s = None
    \<and> (\<exists>m2. worker (Suc (length (notification_queue sb))) s
        (put_subject s (sb\<lparr>shutdown_flag := True\<rparr>) (m\<lparr>refs := (refs m)(s := 0)\<rparr>)) = Inr (Returns, m2))"
proof -
  let ?m1 = "m\<lparr>refs := (refs m)(s := 0)\<rparr>"
  let ?sb = "sb\<lparr>shutdown_flag := True\<rparr>"
  let ?m2 = "put_subject s ?sb ?m1"
  have "observers_exist (observers ?sb) ?m2"
    using assms(3,4) by (auto simp: observers_exist_def live_def)
  from worker_drains [OF assms(1) _ this refl] obtain m' sb' where
    m': "worker (length (notification_queue sb)) s ?m2 = Inr (Handled, m')" "subject_at m' s = Some sb'"
      "notification_queue sb' = []" "shutdown_flag sb'"
      "calls m' = calls m @ concat (map (calls_for ?m2 s (observers sb)) (notification_queue sb))"
    by auto
  have "calls_for ?m2 s ws msg = []" for ws msg by (simp add: calls_for_def live_def)
  with m'(5) have calls: "calls m' = calls m" by simp
  have "worker_turn s m' = Inr (Returns, m')"
    using assms(1) m'(2-4) by (simp add: worker_turn_def)
  with m'(1) have "worker (length (notification_queue sb) + 1) s ?m2 = Inr (Returns, m')"
    by (rule worker_more)
  with assms(1,2) calls show ?thesis by (simp add: destroy_Subject_def Let_def)
qed


text \<open>\<open>remove_self\<close> of a living observer takes its first entry out of the list of every subject it
  has a callback for and that still lives, forgets its callbacks and touches no other list; so a
  subject on which a callback was set twice keeps one entry.\<close>

theorem remove_self_detaches:
  assumes "ob \<noteq> 0" and "observer_at m ob = Some x" and "distinct (map fst (callback_map x))" and "live ob m"
    and "\<forall>s \<in> fst ` set (callback_map x). live s m \<longrightarrow> lists_of m s \<noteq> None"
  shows "\<exists>m'. remove_self ob m = Inr m' \<and> observer_at m' ob = Some (x\<lparr>callback_map := []\<rparr>)
    \<and> (\<forall>s. lists_of m' s = (if s \<in> fst ` set (callback_map x) \<and> live s m
        then map_option (remove1 ob) (lists_of m s) else lists_of m s))"
  using remove_self_lists [OF assms(1-3,5)] assms(4) by auto

text \<open>The destructor of an observer detaches it from nothing: its last strong reference has gone, so
  the weak pointer that \<open>remove_self\<close> passes to \<open>detach\<close> cannot be locked and equals no entry that
  can; every subject keeps its list, with the dead entry in it.\<close>

theorem destructor_detaches_nothing:
  assumes "ob \<noteq> 0" and "observer_at m ob = Some x" and "distinct (map fst (callback_map x))"
    and "\<forall>s \<in> fst ` set (callback_map x). live s m \<longrightarrow> lists_of m s \<noteq> None"
  shows "\<exists>m'. destroy_Observer ob m = Inr m' \<and> observer_at m' ob = None
    \<and> (\<forall>s. lists_of m' s = lists_of m s) \<and> calls m' = calls m"
proof -
  let ?m = "m\<lparr>refs := (refs m)(ob := 0)\<rparr>"
  have "live s m" if "live s ?m" for s using that by (auto simp: live_def split: if_splits)
  moreover have "lists_of ?m = lists_of m" by (simp add: lists_of_def fun_eq_iff)
  ultimately have "\<forall>s \<in> fst ` set (callback_map x). live s ?m \<longrightarrow> lists_of ?m s \<noteq> None"
    using assms(4) by auto
  from remove_self_lists [OF assms(1) _ assms(3) this] assms(2) obtain m1 where
    m1: "remove_self ob ?m = Inr m1" "calls m1 = calls m" "\<not> live ob ?m"
      "\<forall>s. lists_of m1 s = lists_of m s"
    by (auto simp: live_def \<open>lists_of ?m = lists_of m\<close>)
  moreover have "lists_of (m1\<lparr>observer_at := (observer_at m1)(ob := None)\<rparr>) = lists_of m1"
    by (simp add: lists_of_def fun_eq_iff)
  ultimately show ?thesis by (simp add: destroy_Observer_def)
qed

section \<open>Examples\<close>

text \<open>Subject 1, observer 2 with callback 7 for it, one message queued.\<close>

definition pair_of :: "nat patterns" where
  "pair_of = \<lparr>refs = (\<lambda>_. 0)(1 := 1, 2 := 1),
     subject_at = [1 \<mapsto> \<lparr>observers = [2], current_message = ''hi'', notification_queue = [''hi''], shutdown_flag = False\<rparr>],
     observer_at = [2 \<mapsto> \<lparr>callback_map = [(1, 7)], ob_name = ''o''\<rparr>], calls = []\<rparr>"

definition blank_patterns :: "nat patterns" where
  "blank_patterns = \<lparr>refs = (\<lambda>_. 0), subject_at = Map.empty, observer_at = Map.empty, calls = []\<rparr>"

lemma pair_of_built:
  "bindE (set_callback 2 1 7 (Observer 2 ''o'' (Subject 1 blank_patterns))) (create_message 1 ''hi'') = Inr pair_of"
  by (simp add: set_callback_def Observer_def Subject_def attach_def create_message_def notify_def
      put_subject_def put_observer_def pair_of_def blank_patterns_def fun_eq_iff)

theorem worker_delivers_in_order_witness:
  "\<exists>m'. worker 1 1 pair_of = Inr (Handled, m') \<and> calls m' = [(7, ''hi'')]"
  using worker_delivers_in_order [of 1 pair_of "\<lparr>observers = [2], current_message = ''hi'',
      notification_queue = [''hi''], shutdown_flag = False\<rparr>"]
  by (auto simp: pair_of_def observers_exist_def live_def call_of_def simp del: worker.simps)

theorem destroy_Subject_drops_messages_witness:
  "\<exists>m'. destroy_Subject 1 pair_of = Inr m' \<and> calls m' = [] \<and> subject_at m' 1 = None"
  using destroy_Subject_drops_messages [of 1 pair_of "\<lparr>observers = [2], current_message = ''hi'',
      notification_queue = [''hi''], shutdown_flag = False\<rparr>"]
  by (auto simp: pair_of_def observers_exist_def live_def simp del: worker.simps)

lemma pair_of_facts:
  "observer_at pair_of 2 = Some \<lparr>callback_map = [(1, 7)], ob_name = ''o''\<rparr>" "live 1 pair_of" "live 2 pair_of"
  "lists_of pair_of 1 = Some [2]"
  by (simp_all add: pair_of_def live_def lists_of_def)

theorem remove_self_detaches_witness:
  "\<exists>m'. remove_self 2 pair_of = Inr m' \<and> lists_of m' 1 = Some []"
proof -
  from remove_self_detaches [OF _ pair_of_facts(1) _ pair_of_facts(3)] pair_of_facts(2,4)
  obtain m' where "remove_self 2 pair_of = Inr m'"
    "\<forall>s. lists_of m' s = (if s \<in> {1} \<and> live s pair_of then map_option (remove1 2) (lists_of pair_of s)
        else lists_of pair_of s)"
    by auto
  then show ?thesis using pair_of_facts(2,4) by simp
qed

theorem destructor_detaches_nothing_witness:
  "\<exists>m'. destroy_Observer 2 pair_of = Inr m' \<and> lists_of m' 1 = Some [2]"
proof -
  from destructor_detaches_nothing [OF _ pair_of_facts(1)] pair_of_facts(4)
  obtain m' where "destroy_Observer 2 pair_of = Inr m'" "\<forall>s. lists_of m' s = lists_of pair_of s"
    by auto
  then show ?thesis using pair_of_facts(4) by simp
qed

end
