(* ===== verification/Muduo_ObserverHeap.thy ===== *)
theory Muduo_ObserverHeap
  imports Muduo_Observer
begin

text \<open>
  The objects of \<open>design_pattern/observer.h\<close> taken together: the calls a program can make as one type
  of operations, what it means for the heap of subjects and observers to be well-formed, and that
  the operations keep it so.
\<close>

section \<open>Operations of a program\<close>

datatype 'cb api =
    NewSubject ptr
  | NewObserver ptr string
  | SetCallback ptr ptr 'cb
  | RemoveSelf ptr
  | RemoveFrom ptr ptr
  | CreateMessage ptr string
  | WorkerTurn ptr
  | DropObserver ptr
  | DropSubject ptr

fun run_api :: "'cb api \<Rightarrow> 'cb patterns \<Rightarrow> 'cb patterns result" where
  "run_api (NewSubject s) m = Inr (Subject s m)"
| "run_api (NewObserver ob name) m = Inr (Observer ob name m)"
| "run_api (SetCallback ob s cb) m = set_callback ob s cb m"
| "run_api (RemoveSelf ob) m = remove_self ob m"
| "run_api (RemoveFrom ob s) m = remove_from_subject ob s m"
| "run_api (CreateMessage s msg) m = create_message s msg m"
| "run_api (WorkerTurn s) m = bindE (worker_turn s m) (\<lambda>(t, m1). Inr m1)"
| "run_api (DropObserver ob) m = destroy_Observer ob m"
| "run_api (DropSubject s) m = destroy_Subject s m"

section \<open>Well-formed heaps\<close>

text \<open>\<open>L\<close>: the list of every subject; \<open>obj\<close>: the observers; \<open>A\<close>: what has a strong reference. What exists is
  referenced; an entry of a list is no subject and, if referenced, an observer; a key of a callback
  map is no observer and, if referenced, a subject.\<close>

definition subject_ok :: "(ptr \<Rightarrow> ptr list option) \<Rightarrow> (ptr \<Rightarrow> 'cb observer option) \<Rightarrow> (ptr \<Rightarrow> bool) \<Rightarrow> ptr \<Rightarrow> ptr list \<Rightarrow> bool" where
  "subject_ok L obj A s ws \<longleftrightarrow> A s \<and> s \<notin> dom obj \<and> (\<forall>w \<in> set ws. w \<notin> dom L \<and> (A w \<longrightarrow> w \<in> dom obj))"

definition observer_ok :: "(ptr \<Rightarrow> ptr list option) \<Rightarrow> (ptr \<Rightarrow> 'cb observer option) \<Rightarrow> (ptr \<Rightarrow> bool) \<Rightarrow> ptr \<Rightarrow> 'cb observer \<Rightarrow> bool" where
  "observer_ok L obj A ob x \<longleftrightarrow> A ob \<and> ob \<notin> dom L \<and> distinct (map fst (callback_map x))
     \<and> (\<forall>s \<in> fst ` set (callback_map x). s \<notin> dom obj \<and> (A s \<longrightarrow> s \<in> dom L))"

definition well_formed :: "(ptr \<Rightarrow> ptr list option) \<Rightarrow> (ptr \<Rightarrow> 'cb observer option) \<Rightarrow> (ptr \<Rightarrow> bool) \<Rightarrow> bool" where
  "well_formed L obj A \<longleftrightarrow> 0 \<notin> dom obj \<and> (\<forall>s ws. L s = Some ws \<longrightarrow> subject_ok L obj A s ws)
     \<and> (\<forall>ob x. obj ob = Some x \<longrightarrow> observer_ok L obj A ob x)"

definition heap_ok :: "'cb patterns \<Rightarrow> bool" where
  "heap_ok m \<longleftrightarrow> well_formed (lists_of m) (observer_at m) (\<lambda>p. live p m)"

text \<open>An address nothing points to.\<close>

definition unused :: "ptr \<Rightarrow> 'cb patterns \<Rightarrow> bool" where
  "unused p m \<longleftrightarrow> p \<noteq> 0 \<and> lists_of m p = None \<and> observer_at m p = None
     \<and> (\<forall>s ws. lists_of m s = Some ws \<longrightarrow> p \<notin> set ws)
     \<and> (\<forall>ob x. observer_at m ob = Some x \<longrightarrow> p \<notin> fst ` set (callback_map x))"

text \<open>An operation on objects that exist; \<open>remove_from_subject\<close> needs a callback for the subject.\<close>

fun well_typed :: "'cb api \<Rightarrow> 'cb patterns \<Rightarrow> bool" where
  "well_typed (NewSubject s) m = unused s m"
| "well_typed (NewObserver ob name) m = unused ob m"
| "well_typed (SetCallback ob s cb) m = (observer_at m ob \<noteq> None \<and> lists_of m s \<noteq> None)"
| "well_typed (RemoveSelf ob) m = (observer_at m ob \<noteq> None)"
| "well_typed (RemoveFrom ob s) m = (case observer_at m ob of None \<Rightarrow> False
     | Some x \<Rightarrow> s \<in> fst ` set (callback_map x))"
| "well_typed (CreateMessage s msg) m = (lists_of m s \<noteq> None)"
| "well_typed (WorkerTurn s) m = (lists_of m s \<noteq> None)"
| "well_typed (DropObserver ob) m = (observer_at m ob \<noteq> None)"
| "well_typed (DropSubject s) m = (lists_of m s \<noteq> None)"

text \<open>A program whose calls are well-typed when they are made.\<close>

fun typed_program :: "'cb api list \<Rightarrow> 'cb patterns \<Rightarrow> bool" where
  "typed_program [] m = True"
| "typed_program (op # ops) m = (well_typed op m \<and> (case run_api op m of Inl e \<Rightarrow> True | Inr m1 \<Rightarrow> typed_program ops m1))"

section \<open>Every operation keeps a heap well-formed\<close>

lemma lists_ofD: "lists_of m s = Some ws \<Longrightarrow> s \<noteq> 0 \<and> (\<exists>sb. subject_at m s = Some sb \<and> observers sb = ws)"
  by (auto simp: lists_of_def split: if_splits)

lemma heap_okD:
  assumes "heap_ok m"
  shows "observer_at m 0 = None"
    and "lists_of m s = Some ws \<Longrightarrow> subject_ok (lists_of m) (observer_at m) (\<lambda>p. live p m) s ws"
    and "observer_at m ob = Some x \<Longrightarrow> ob \<noteq> 0 \<and> observer_ok (lists_of m) (observer_at m) (\<lambda>p. live p m) ob x"
  using assms by (auto simp: heap_ok_def well_formed_def)

text \<open>Objects of \<open>D\<close> go, lists get only observers, callback maps only subjects.\<close>

lemma well_formed_frame:
  assumes "well_formed L obj A" and "dom L' = dom L - D" and "dom obj' = dom obj - D" and "A' = (\<lambda>p. A p \<and> p \<notin> D)"
    and "\<And>s ws'. L' s = Some ws' \<Longrightarrow> set ws' \<subseteq> set (the (L s)) \<union> dom obj"
    and "\<And>ob x'. obj' ob = Some x' \<Longrightarrow> distinct (map fst (callback_map x'))
      \<and> fst ` set (callback_map x') \<subseteq> fst ` set (callback_map (the (obj ob))) \<union> dom L"
  shows "well_formed L' obj' A'"
proof -
  have disj: "dom L \<inter> dom obj = {}" using assms(1) by (auto simp: well_formed_def subject_ok_def)
  have "subject_ok L' obj' A' s ws'" if "L' s = Some ws'" for s ws'
  proof -
    have "s \<in> dom L" "s \<notin> D" using that assms(2) by blast+
    then obtain ws where ws: "L s = Some ws" by blast
    with assms(1) have ok: "subject_ok L obj A s ws" by (simp add: well_formed_def)
    have "set ws' \<subseteq> set ws \<union> dom obj" using assms(5) [OF that] ws by simp
    then show ?thesis using ok disj \<open>s \<notin> D\<close> unfolding subject_ok_def assms(2-4) by blast
  qed
  moreover have "observer_ok L' obj' A' ob x'" if "obj' ob = Some x'" for ob x'
  proof -
    have "ob \<in> dom obj" "ob \<notin> D" using that assms(3) by blast+
    then obtain x where x: "obj ob = Some x" by blast
    with assms(1) have ok: "observer_ok L obj A ob x" by (simp add: well_formed_def)
    have "distinct (map fst (callback_map x'))" "fst ` set (callback_map x') \<subseteq> fst ` set (callback_map x) \<union> dom L"
      using assms(6) [OF that] x by auto
    then show ?thesis using ok disj \<open>ob \<notin> D\<close> unfolding observer_ok_def assms(2-4) by blast
  qed
  moreover have "0 \<notin> dom obj'" using assms(1,3) by (simp add: well_formed_def)
  ultimately show ?thesis by (simp add: well_formed_def)
qed

lemma new_subject_ok:
  assumes "heap_ok m" and "unused s m"
  shows "heap_ok (Subject s m)"
proof -
  have L: "lists_of (Subject s m) = (lists_of m)(s \<mapsto> [])"
    using assms(2) by (auto simp: lists_of_def Subject_def put_subject_def unused_def fun_eq_iff)
  have O: "observer_at (Subject s m) = observer_at m" by (simp add: Subject_def put_subject_def)
  have A: "live p (Subject s m) \<longleftrightarrow> p = s \<or> live p m" for p by (simp add: Subject_def put_subject_def live_def)
  have "subject_ok (lists_of (Subject s m)) (observer_at (Subject s m)) (\<lambda>p. live p (Subject s m)) r ws"
    if "lists_of (Subject s m) r = Some ws" for r ws
    using heap_okD(2) [OF assms(1), of r ws] assms(2) that
    by (cases "r = s") (auto simp: subject_ok_def unused_def L O A)
  moreover have "observer_ok (lists_of (Subject s m)) (observer_at (Subject s m)) (\<lambda>p. live p (Subject s m)) ob x"
    if "observer_at (Subject s m) ob = Some x" for ob x
  proof -
    have x: "observer_at m ob = Some x" using that O by simp
    with heap_okD(3) [OF assms(1) x] assms(2) show ?thesis by (auto simp: observer_ok_def unused_def L O A)
  qed
  ultimately show ?thesis using heap_okD(1) [OF assms(1)] by (simp add: heap_ok_def well_formed_def O domIff)
qed

lemma new_observer_ok:
  assumes "heap_ok m" and "unused ob m"
  shows "heap_ok (Observer ob name m)"
proof -
  let ?m = "Observer ob name m"
  have L: "lists_of ?m = lists_of m" by (simp add: lists_of_def Observer_def put_observer_def fun_eq_iff)
  have O: "observer_at ?m = (observer_at m)(ob \<mapsto> \<lparr>callback_map = [], ob_name = name\<rparr>)"
    by (simp add: Observer_def put_observer_def)
  have A: "live p ?m \<longleftrightarrow> p = ob \<or> live p m" for p by (simp add: Observer_def put_observer_def live_def)
  have "subject_ok (lists_of ?m) (observer_at ?m) (\<lambda>p. live p ?m) r ws" if "lists_of ?m r = Some ws" for r ws
  proof -
    have ws: "lists_of m r = Some ws" using that L by simp
    with heap_okD(2) [OF assms(1) ws] assms(2) show ?thesis by (auto simp: subject_ok_def unused_def L O A)
  qed
  moreover have "observer_ok (lists_of ?m) (observer_at ?m) (\<lambda>p. live p ?m) r x" if "observer_at ?m r = Some x" for r x
  proof (cases "r = ob")
    case True
    then show ?thesis using that assms(2) by (auto simp: observer_ok_def unused_def L O A)
  next
    case False
    then have x: "observer_at m r = Some x" using that O by simp
    with assms(2) have "ob \<notin> fst ` set (callback_map x)" by (simp add: unused_def)
    with heap_okD(3) [OF assms(1) x] False show ?thesis by (auto simp: observer_ok_def L O A)
  qed
  ultimately show ?thesis using heap_okD(1) [OF assms(1)] assms(2)
    by (simp add: heap_ok_def well_formed_def O domIff unused_def)
qed

lemma set_callback_ok:
  assumes "heap_ok m" and "observer_at m ob = Some x" and "lists_of m s = Some ws"
  shows "\<exists>m'. set_callback ob s cb m = Inr m' \<and> heap_ok m'"
proof -
  let ?x = "x\<lparr>callback_map := AList.update s cb (callback_map x)\<rparr>"
  from lists_ofD [OF assms(3)] obtain sb where sb: "s \<noteq> 0" "subject_at m s = Some sb" "observers sb = ws" by blast
  let ?m = "put_subject s (sb\<lparr>observers := ws @ [ob]\<rparr>) (put_observer ob ?x m)"
  note x = heap_okD(3) [OF assms(1,2)]
  have "set_callback ob s cb m = Inr ?m"
    using sb x assms(2) by (simp add: set_callback_def attach_def put_observer_def)
  moreover have "well_formed (lists_of ?m) (observer_at ?m) (\<lambda>p. live p ?m)"
  proof (rule well_formed_frame [where D = "{}" and A = "\<lambda>p. live p m"])
    show "well_formed (lists_of m) (observer_at m) (\<lambda>p. live p m)" using assms(1) by (simp add: heap_ok_def)
    have L: "lists_of ?m = (lists_of m)(s \<mapsto> ws @ [ob])"
      using sb(1) by (simp add: lists_of_def put_observer_def fun_eq_iff)
    then show "dom (lists_of ?m) = dom (lists_of m) - {}" using assms(3) by auto
    show "set ws' \<subseteq> set (the (lists_of m r)) \<union> dom (observer_at m)" if "lists_of ?m r = Some ws'" for r ws'
      using that assms(2,3) unfolding L by (auto split: if_splits)
    show "dom (observer_at ?m) = dom (observer_at m) - {}" using assms(2) by (auto simp: put_observer_def)
    show "distinct (map fst (callback_map x')) \<and> fst ` set (callback_map x')
        \<subseteq> fst ` set (callback_map (the (observer_at m r))) \<union> dom (lists_of m)"
      if "observer_at ?m r = Some x'" for r x'
    proof (cases "r = ob")
      case True
      then have "x' = ?x" using that by (simp add: put_observer_def)
      moreover have "fst ` set (callback_map ?x) = insert s (fst ` set (callback_map x))" by (simp add: dom_update)
      ultimately show ?thesis using True x assms(2,3) by (auto simp: observer_ok_def distinct_update)
    next
      case False
      then show ?thesis using that heap_okD(3) [OF assms(1), of r x'] by (auto simp: put_observer_def observer_ok_def)
    qed
    show "(\<lambda>p. live p ?m) = (\<lambda>p. live p m \<and> p \<notin> {})" by (simp add: put_observer_def live_def)
  qed
  ultimately show ?thesis by (simp add: heap_ok_def)
qed

text \<open>The other operations only take away: objects of \<open>D\<close>, entries of lists, keys of callback maps.\<close>

definition fewer_keys :: "'cb observer \<Rightarrow> 'cb observer \<Rightarrow> bool" where
  "fewer_keys x' x \<longleftrightarrow> (distinct (map fst (callback_map x)) \<longrightarrow> distinct (map fst (callback_map x')))
     \<and> fst ` set (callback_map x') \<subseteq> fst ` set (callback_map x)"

lemma fewer_keys_same [simp]: "fewer_keys x x"
  by (simp add: fewer_keys_def)

lemma heap_shrinks:
  assumes "heap_ok m" and live: "\<And>p. live p m' \<longleftrightarrow> live p m \<and> p \<notin> D"
    and gone: "\<And>r. r \<in> D \<Longrightarrow> lists_of m' r = None \<and> observer_at m' r = None"
    and lists: "\<And>r. r \<notin> D \<Longrightarrow> rel_option (\<lambda>ws' ws. set ws' \<subseteq> set ws) (lists_of m' r) (lists_of m r)"
    and objs: "\<And>r. r \<notin> D \<Longrightarrow> rel_option fewer_keys (observer_at m' r) (observer_at m r)"
  shows "heap_ok m'"
  unfolding heap_ok_def
proof (rule well_formed_frame [where D = D and A = "\<lambda>p. live p m"])
  show "well_formed (lists_of m) (observer_at m) (\<lambda>p. live p m)" using assms(1) by (simp add: heap_ok_def)
  have "r \<in> dom (lists_of m') \<longleftrightarrow> r \<in> dom (lists_of m) - D" for r
    using gone [of r] lists [of r] by (cases "r \<in> D"; cases "lists_of m r"; cases "lists_of m' r") auto
  then show "dom (lists_of m') = dom (lists_of m) - D" by blast
  have "r \<in> dom (observer_at m') \<longleftrightarrow> r \<in> dom (observer_at m) - D" for r
    using gone [of r] objs [of r] by (cases "r \<in> D"; cases "observer_at m r"; cases "observer_at m' r") auto
  then show "dom (observer_at m') = dom (observer_at m) - D" by blast
  show "(\<lambda>p. live p m') = (\<lambda>p. live p m \<and> p \<notin> D)" using live by simp
  show "set ws' \<subseteq> set (the (lists_of m r)) \<union> dom (observer_at m)" if "lists_of m' r = Some ws'" for r ws'
    using that gone [of r] lists [of r] by (cases "r \<in> D"; cases "lists_of m r") auto
  show "distinct (map fst (callback_map x')) \<and> fst ` set (callback_map x')
      \<subseteq> fst ` set (callback_map (the (observer_at m r))) \<union> dom (lists_of m)"
    if x': "observer_at m' r = Some x'" for r x'
  proof -
    from x' gone [of r] have "r \<notin> D" by auto
    with objs [of r] x' obtain x where "observer_at m r = Some x" "fewer_keys x' x" by (cases "observer_at m r") auto
    with heap_okD(3) [OF assms(1)] show ?thesis by (auto simp: fewer_keys_def observer_ok_def)
  qed
qed

lemma remove_self_shrinks:
  assumes "ob \<noteq> 0" and "observer_at m ob = Some x" and "distinct (map fst (callback_map x))"
    and "\<forall>s \<in> fst ` set (callback_map x). live s m \<longrightarrow> lists_of m s \<noteq> None"
  shows "\<exists>m'. remove_self ob m = Inr m' \<and> observer_at m' = (observer_at m)(ob \<mapsto> x\<lparr>callback_map := []\<rparr>)
    \<and> (\<forall>p. live p m' = live p m) \<and> (\<forall>r. rel_option (\<lambda>ws' ws. set ws' \<subseteq> set ws) (lists_of m' r) (lists_of m r))"
proof -
  from remove_self_lists [OF assms] obtain m' where
    m': "remove_self ob m = Inr m'" "observer_at m' = (observer_at m)(ob \<mapsto> x\<lparr>callback_map := []\<rparr>)"
      "\<forall>w. live w m' = live w m"
      "\<forall>s. lists_of m' s = (if s \<in> fst ` set (callback_map x) \<and> live s m \<and> live ob m
        then map_option (remove1 ob) (lists_of m s) else lists_of m s)" by blast
  have "rel_option (\<lambda>ws' ws. set ws' \<subseteq> set ws) (lists_of m' r) (lists_of m r)" for r
    using m'(4) [rule_format, of r] set_remove1_subset [of ob "the (lists_of m r)"]
    by (cases "lists_of m r") (simp_all split: if_splits)
  with m'(1-3) show ?thesis by blast
qed

lemma remove_self_ok:
  assumes "heap_ok m" and "observer_at m ob = Some x"
  shows "\<exists>m'. remove_self ob m = Inr m' \<and> heap_ok m'"
proof -
  from heap_okD(3) [OF assms] have "ob \<noteq> 0" "distinct (map fst (callback_map x))"
    "\<forall>s \<in> fst ` set (callback_map x). live s m \<longrightarrow> lists_of m s \<noteq> None" by (auto simp: observer_ok_def)
  from remove_self_shrinks [OF this(1) assms(2) this(2,3)] obtain m' where
    m': "remove_self ob m = Inr m'" "observer_at m' = (observer_at m)(ob \<mapsto> x\<lparr>callback_map := []\<rparr>)"
      "\<forall>p. live p m' = live p m" "\<forall>r. rel_option (\<lambda>ws' ws. set ws' \<subseteq> set ws) (lists_of m' r) (lists_of m r)" by blast
  have "rel_option fewer_keys (observer_at m' r) (observer_at m r)" for r
    using m'(2) assms(2) by (cases "observer_at m r") (auto simp: fewer_keys_def)
  with m' show ?thesis by (intro exI [of _ m'] conjI heap_shrinks [OF assms(1), of m' "{}"]) auto
qed

lemma destroy_Observer_ok:
  assumes "heap_ok m" and "observer_at m ob = Some x"
  shows "\<exists>m'. destroy_Observer ob m = Inr m' \<and> heap_ok m'"
proof -
  let ?m = "m\<lparr>refs := (refs m)(ob := 0)\<rparr>"
  have live: "live p ?m \<longleftrightarrow> live p m \<and> p \<noteq> ob" for p by (auto simp: live_def)
  have L: "lists_of ?m = lists_of m" by (simp add: lists_of_def fun_eq_iff)
  from heap_okD(3) [OF assms] have ob: "ob \<noteq> 0" "distinct (map fst (callback_map x))"
    "\<forall>s \<in> fst ` set (callback_map x). live s ?m \<longrightarrow> lists_of ?m s \<noteq> None" "lists_of m ob = None"
    by (auto simp: observer_ok_def L live)
  have "observer_at ?m ob = Some x" using assms(2) by simp
  from remove_self_shrinks [OF ob(1) this ob(2,3)] obtain m1 where
    m1: "remove_self ob ?m = Inr m1" "observer_at m1 = (observer_at m)(ob \<mapsto> x\<lparr>callback_map := []\<rparr>)"
      "\<forall>p. live p m1 = live p ?m" "\<forall>r. rel_option (\<lambda>ws' ws. set ws' \<subseteq> set ws) (lists_of m1 r) (lists_of m r)"
    by (auto simp: L)
  let ?m' = "m1\<lparr>observer_at := (observer_at m1)(ob := None)\<rparr>"
  have same: "lists_of ?m' = lists_of m1" "live p ?m' = live p m1" for p by (simp_all add: lists_of_def live_def fun_eq_iff)
  have "lists_of ?m' ob = None" using m1(4) [rule_format, of ob] ob(4) same(1) by simp
  moreover have "rel_option fewer_keys (observer_at ?m' r) (observer_at m r)" if "r \<noteq> ob" for r
    using that m1(2) by (cases "observer_at m r") auto
  ultimately have "heap_ok ?m'"
    by (intro heap_shrinks [OF assms(1), of ?m' "{ob}"]) (use m1(3,4) same in \<open>auto simp: live\<close>)
  then show ?thesis using m1(1) by (simp add: destroy_Observer_def)
qed

lemma remove_from_ok:
  assumes "heap_ok m" and "observer_at m ob = Some x" and "s \<in> fst ` set (callback_map x)"
  shows "\<exists>m'. remove_from_subject ob s m = Inr m' \<and> heap_ok m'"
proof -
  from heap_okD(3) [OF assms(1,2)] assms(3) have ob: "ob \<noteq> 0" "live s m \<longrightarrow> lists_of m s \<noteq> None" by (auto simp: observer_ok_def)
  have "\<exists>m1. (if lock s m \<noteq> None then detach s ob m else Inr m) = Inr m1 \<and> (\<forall>p. live p m1 = live p m)
    \<and> observer_at m1 = observer_at m \<and> (\<forall>r. rel_option (\<lambda>ws' ws. set ws' \<subseteq> set ws) (lists_of m1 r) (lists_of m r))"
  proof (cases "live s m")
    case True
    with ob(2) obtain ws where ws: "lists_of m s = Some ws" by auto
    from sbj.detach_law [OF this, of ob] obtain m1 where
      m1: "detach s ob m = Inr m1" "lists_of m1 = (lists_of m)(s \<mapsto> (if live ob m then remove1 ob ws else ws))"
        "(\<lambda>w. live w m1) = (\<lambda>w. live w m)" "rest_of m1 = rest_of m" by blast
    have "rel_option (\<lambda>ws' ws. set ws' \<subseteq> set ws) (lists_of m1 r) (lists_of m r)" for r
      using m1(2) ws set_remove1_subset [of ob ws] by (cases "lists_of m r"; cases "r = s") simp_all
    with m1 True show ?thesis using fun_cong [OF m1(3)] by (auto simp: lock_live rest_of_def)
  next
    case False
    have "rel_option (\<lambda>ws' ws. set ws' \<subseteq> set ws) (lists_of m r) (lists_of m r)" for r by (cases "lists_of m r") simp_all
    with False show ?thesis by (simp add: lock_live)
  qed
  then obtain m1 where m1: "(if lock s m \<noteq> None then detach s ob m else Inr m) = Inr m1" "\<forall>p. live p m1 = live p m"
    "observer_at m1 = observer_at m" "\<forall>r. rel_option (\<lambda>ws' ws. set ws' \<subseteq> set ws) (lists_of m1 r) (lists_of m r)" by blast
  let ?x = "x\<lparr>callback_map := AList.delete s (callback_map x)\<rparr>"
  let ?m' = "put_observer ob ?x m1"
  have "remove_from_subject ob s m = Inr ?m'"
    using assms(2,3) ob(1) m1(1) by (simp add: remove_from_subject_def map_of_eq_None_iff del: not_None_eq)
  moreover have same: "lists_of ?m' = lists_of m1" "live p ?m' = live p m1" "observer_at ?m' = (observer_at m)(ob \<mapsto> ?x)" for p
    using m1(3) by (simp_all add: lists_of_def live_def put_observer_def fun_eq_iff)
  have "fst ` set (AList.delete s (callback_map x)) = set (removeAll s (map fst (callback_map x)))"
    using delete_keys [of s "callback_map x"] by (metis list.set_map)
  then have "fewer_keys ?x x" by (auto simp: fewer_keys_def delete_keys distinct_removeAll)
  then have "rel_option fewer_keys (observer_at ?m' r) (observer_at m r)" for r
    using same(3) assms(2) by (cases "observer_at m r") auto
  then have "heap_ok ?m'"
    by (intro heap_shrinks [OF assms(1), of ?m' "{}"]) (use m1(2,4) same in auto)
  ultimately show ?thesis by blast
qed

lemma lists_put_subject:
  assumes "lists_of m s = Some ws" and "set (observers sb) \<subseteq> set ws"
  shows "rel_option (\<lambda>ws' ws. set ws' \<subseteq> set ws) (lists_of (put_subject s sb m) r) (lists_of m r)"
  using assms by (cases "r = s"; cases "lists_of m r") (auto simp: lists_of_def split: if_splits)

lemma same_objs: "rel_option fewer_keys obj obj"
  by (cases obj) simp_all

lemma create_message_ok:
  assumes "heap_ok m" and "lists_of m s = Some ws"
  shows "\<exists>m'. create_message s msg m = Inr m' \<and> heap_ok m'"
proof -
  from lists_ofD [OF assms(2)] obtain sb where sb: "s \<noteq> 0" "subject_at m s = Some sb" "observers sb = ws" by blast
  let ?sb = "sb\<lparr>current_message := msg, notification_queue := notification_queue sb @ [msg]\<rparr>"
  have "create_message s msg m = Inr (put_subject s ?sb m)"
    using sb by (simp add: create_message_def notify_def put_subject_def)
  moreover have "heap_ok (put_subject s ?sb m)"
    by (rule heap_shrinks [OF assms(1), where D = "{}"])
      (use lists_put_subject [OF assms(2), of ?sb] sb(3) in \<open>auto simp: same_objs\<close>)
  ultimately show ?thesis by blast
qed

lemma observers_exist_heap:
  assumes "heap_ok m" and "lists_of m s = Some ws"
  shows "observers_exist ws m"
  using heap_okD(1) [OF assms(1)] heap_okD(2) [OF assms] by (fastforce simp: observers_exist_def subject_ok_def)

lemma worker_turn_ok:
  assumes "heap_ok m" and "lists_of m s = Some ws"
  shows "\<exists>t m'. worker_turn s m = Inr (t, m') \<and> heap_ok m'"
proof -
  from lists_ofD [OF assms(2)] obtain sb where sb: "s \<noteq> 0" "subject_at m s = Some sb" "observers sb = ws" by blast
  show ?thesis
  proof (cases "notification_queue sb")
    case Nil
    then show ?thesis using sb assms(1) by (auto simp: worker_turn_def)
  next
    case (Cons msg rest)
    let ?sb = "sb\<lparr>notification_queue := rest, observers := (if msg = [] then ws else filter (\<lambda>w. live w m) ws)\<rparr>"
    let ?m = "(put_subject s ?sb m)\<lparr>calls := calls m @ calls_for m s ws msg\<rparr>"
    have "worker_turn s m = Inr (Handled, ?m)"
      using worker_turn_eq [OF sb(1,2) _ Cons] observers_exist_heap [OF assms] sb(3) by simp
    moreover have "lists_of ?m = lists_of (put_subject s ?sb m)" by (simp add: lists_of_def fun_eq_iff)
    then have "heap_ok ?m"
      by (intro heap_shrinks [OF assms(1), where D = "{}"])
        (use lists_put_subject [OF assms(2), of ?sb] in \<open>auto simp: same_objs\<close>)
    ultimately show ?thesis by blast
  qed
qed

lemma destroy_Subject_ok:
  assumes "heap_ok m" and "lists_of m s = Some ws"
  shows "\<exists>m'. destroy_Subject s m = Inr m' \<and> heap_ok m'"
proof -
  from lists_ofD [OF assms(2)] obtain sb where sb: "s \<noteq> 0" "subject_at m s = Some sb" "observers sb = ws" by blast
  let ?m1 = "m\<lparr>refs := (refs m)(s := 0)\<rparr>"
  let ?sb = "sb\<lparr>shutdown_flag := True\<rparr>"
  let ?m2 = "put_subject s ?sb ?m1"
  have "observers_exist (observers ?sb) ?m2"
    using observers_exist_heap [OF assms] sb(3) by (auto simp: observers_exist_def live_def)
  from worker_drains [OF sb(1) _ this refl] obtain m' sb' where
    m': "worker (length (notification_queue sb)) s ?m2 = Inr (Handled, m')" "subject_at m' = (subject_at ?m2)(s \<mapsto> sb')"
      "notification_queue sb' = []" "shutdown_flag sb'" "refs m' = refs ?m2" "observer_at m' = observer_at ?m2"
    by auto
  have "worker_turn s m' = Inr (Returns, m')" using sb(1) m'(2-4) by (simp add: worker_turn_def)
  with m'(1) have "worker (length (notification_queue sb) + 1) s ?m2 = Inr (Returns, m')" by (rule worker_more)
  with sb have "destroy_Subject s m = Inr (m'\<lparr>subject_at := (subject_at m')(s := None)\<rparr>)"
    by (simp add: destroy_Subject_def Let_def)
  moreover have "heap_ok (m'\<lparr>subject_at := (subject_at m')(s := None)\<rparr>)"
  proof (rule heap_shrinks [OF assms(1), where D = "{s}"])
    have "observer_at m s = None" using heap_okD(2) [OF assms] by (auto simp: subject_ok_def)
    then show "lists_of (m'\<lparr>subject_at := (subject_at m')(s := None)\<rparr>) r = None
        \<and> observer_at (m'\<lparr>subject_at := (subject_at m')(s := None)\<rparr>) r = None" if "r \<in> {s}" for r
      using that m'(6) by (simp add: lists_of_def)
    show "rel_option (\<lambda>ws' ws. set ws' \<subseteq> set ws) (lists_of (m'\<lparr>subject_at := (subject_at m')(s := None)\<rparr>) r) (lists_of m r)"
      if "r \<notin> {s}" for r
    proof -
      have "lists_of (m'\<lparr>subject_at := (subject_at m')(s := None)\<rparr>) r = lists_of m r"
        using that m'(2) by (simp add: lists_of_def)
      then show ?thesis by (cases "lists_of m r") simp_all
    qed
  qed (use m'(5,6) in \<open>auto simp: live_def same_objs\<close>)
  ultimately show ?thesis by blast
qed

section \<open>Properties\<close>

lemma run_api_safe:
  assumes "heap_ok m" and "well_typed op m"
  shows "\<exists>m'. run_api op m = Inr m' \<and> heap_ok m'"
proof (cases op)
  case (RemoveFrom ob s)
  with assms(2) obtain x where "observer_at m ob = Some x" "s \<in> fst ` set (callback_map x)"
    by (auto split: option.splits)
  with remove_from_ok [OF assms(1)] RemoveFrom show ?thesis by simp
next
  case (WorkerTurn s)
  with assms(2) obtain ws where "lists_of m s = Some ws" by auto
  with worker_turn_ok [OF assms(1)] WorkerTurn show ?thesis by fastforce
qed (use assms in \<open>auto simp: new_subject_ok new_observer_ok intro: set_callback_ok remove_self_ok
    create_message_ok destroy_Observer_ok destroy_Subject_ok\<close>)

text \<open>C18: Type safety of the observer pattern, used from one thread: a program whose calls are well-typed when
  they are made, on a well-formed heap, does not go wrong, whatever it does: no null pointer, no
  destroyed object and no end iterator is used, it returns from every call, and it leaves the heap
  well-formed.\<close>

theorem observer_heap_safe:
  assumes "heap_ok m" and "typed_program ops m"
  shows "\<exists>m'. foldE run_api ops m = Inr m' \<and> heap_ok m'"
  using assms
proof (induction ops arbitrary: m)
  case (Cons op ops)
  from run_api_safe [OF Cons.prems(1)] Cons.prems(2) obtain m1 where "run_api op m = Inr m1" "heap_ok m1" by auto
  with Cons.IH [of m1] Cons.prems(2) show ?case by simp
qed simp

section \<open>Example\<close>

lemma blank_ok: "heap_ok blank_patterns"
  by (simp add: heap_ok_def well_formed_def blank_patterns_def lists_of_def)

theorem observer_heap_safe_witness:
  "\<exists>m'. foldE run_api [NewSubject 1, NewObserver 2 ''o'', SetCallback 2 1 7, CreateMessage 1 ''hi'', WorkerTurn 1,
     RemoveFrom 2 1, DropObserver 2, DropSubject 1] blank_patterns = Inr m' \<and> heap_ok m'"
proof (rule observer_heap_safe [OF blank_ok])
  show "typed_program [NewSubject 1, NewObserver 2 ''o'', SetCallback 2 1 7, CreateMessage 1 ''hi'', WorkerTurn 1,
      RemoveFrom 2 1, DropObserver 2, DropSubject 1] blank_patterns"
    by (auto simp: unused_def lists_of_def Subject_def Observer_def put_subject_def put_observer_def blank_patterns_def
        set_callback_def attach_def create_message_def notify_def worker_turn_def observer_update_def lock_def
        remove_from_subject_def detach_def destroy_Observer_def remove_self_def split: if_splits)
      (simp split: sum.split)
qed

end
