(* ===== verification/Muduo_Delivery.thy ===== *)
theory Muduo_Delivery
  imports Muduo_Observer
begin

text \<open>
  \<open>design_pattern/observer.h\<close> with all its threads: the threads of a program, each with the calls it
  still has to make, against the worker thread of every subject. A step is one access to shared
  memory or one critical section of \<open>notification_mutex_\<close>; \<open>msg_mutex_\<close> is held over several steps and
  has its holder in the state. The observer list is the linked list that it is in the code: an
  iterator is the identity of a node and is dangling once that node has been erased.
  \<open>observers_mutex_\<close> is locked by the worker alone, so it never blocks anybody. First the machine, then
  that the operations of \<open>Muduo_Observer\<close> are runs of it, that messages keep their order in every
  program, and two ways in which a program crashes.
\<close>

section \<open>State\<close>

text \<open>An iterator of the list of observers.\<close>

datatype iter = At nat | End

text \<open>
  The worker: about to lock \<open>notification_mutex_\<close>, asleep in \<open>wait\<close>, with a message in hand, at the
  loop test of the walk, with the observer locked, inside \<open>update\<close>, before \<open>++it\<close>, returned.
\<close>

datatype worker_pc =
    WTop
  | WBlocked
  | WTaken string
  | WWalk string iter
  | WLocked string nat ptr
  | WInCall string nat ptr
  | WAdvance string nat ptr
  | WReturned

text \<open>
  A thread in \<open>create_message\<close>: before it, with \<open>msg_mutex_\<close>, with \<open>current_message_\<close> written, after
  \<open>notify\<close>; and in the destructor of a subject, before the flag is set and at \<open>join\<close>.
\<close>

datatype caller_pc = TReady | TLocked | TStored | TQueued | TDestroying | TJoining

text \<open>What a thread can do with subjects and observers, and \<open>std::thread::join\<close>.\<close>

datatype 'cb cmd =
    CreateMessage ptr string
  | SetCallback ptr ptr 'cb
  | RemoveSelf ptr
  | RemoveFrom ptr ptr
  | ReleaseObserver ptr
  | ReleaseSubject ptr
  | JoinThreads "nat list"

record 'cb thr =
  prog :: "'cb cmd list"
  tpc :: caller_pc

text \<open>\<open>pushed\<close> and \<open>taken\<close> are history: who queued which message, and the messages taken.\<close>

record csubject =
  nodes :: "(nat \<times> ptr) list"
  fresh_node :: nat
  cur_msg :: string
  msg_queue :: "string list"
  shut :: bool
  msg_mutex :: "nat option"
  wpc :: worker_pc
  pushed :: "(nat \<times> string) list"
  taken :: "string list"

datatype crash = UseAfterFree | EndIterator | SelfJoin

text \<open>\<open>ccalls\<close>: subject, observer, callback and message of every call of a user callback.\<close>

record 'cb cstate =
  sub :: "ptr \<Rightarrow> csubject option"
  obs :: "ptr \<Rightarrow> 'cb observer option"
  crefs :: "ptr \<Rightarrow> nat"
  thr :: "'cb thr list"
  ccalls :: "(ptr \<times> ptr \<times> 'cb \<times> string) list"
  crashed :: "crash option"

section \<open>Pieces of the steps\<close>

definition put_sub :: "ptr \<Rightarrow> csubject \<Rightarrow> 'cb cstate \<Rightarrow> 'cb cstate" where
  "put_sub s x c = c\<lparr>sub := (sub c)(s \<mapsto> x)\<rparr>"

definition put_obs :: "ptr \<Rightarrow> 'cb observer \<Rightarrow> 'cb cstate \<Rightarrow> 'cb cstate" where
  "put_obs ob y c = c\<lparr>obs := (obs c)(ob \<mapsto> y)\<rparr>"

definition set_refs :: "ptr \<Rightarrow> nat \<Rightarrow> 'cb cstate \<Rightarrow> 'cb cstate" where
  "set_refs p n c = c\<lparr>crefs := (crefs c)(p := n)\<rparr>"

definition crash_with :: "crash \<Rightarrow> 'cb cstate \<Rightarrow> 'cb cstate" where
  "crash_with e c = c\<lparr>crashed := Some e\<rparr>"

text \<open>A thread moves inside its command, or has finished it.\<close>

definition go :: "nat \<Rightarrow> caller_pc \<Rightarrow> 'cb cstate \<Rightarrow> 'cb cstate" where
  "go t p c = c\<lparr>thr := (thr c)[t := (thr c ! t)\<lparr>tpc := p\<rparr>]\<rparr>"

definition done_cmd :: "nat \<Rightarrow> 'cb cstate \<Rightarrow> 'cb cstate" where
  "done_cmd t c = c\<lparr>thr := (thr c)[t := \<lparr>prog = tl (prog (thr c ! t)), tpc = TReady\<rparr>]\<rparr>"

definition at_cmd :: "nat \<Rightarrow> 'cb cmd \<Rightarrow> caller_pc \<Rightarrow> 'cb cstate \<Rightarrow> bool" where
  "at_cmd t cm p c \<longleftrightarrow> t < length (thr c) \<and> (case prog (thr c ! t) of [] \<Rightarrow> False | x # _ \<Rightarrow> x = cm)
     \<and> tpc (thr c ! t) = p \<and> crashed c = None"

text \<open>\<open>begin()\<close> and \<open>std::next\<close>.\<close>

fun first_node :: "(nat \<times> ptr) list \<Rightarrow> iter" where
  "first_node [] = End"
| "first_node ((n, w) # xs) = At n"

fun next_node :: "nat \<Rightarrow> (nat \<times> ptr) list \<Rightarrow> iter" where
  "next_node n [] = End"
| "next_node n ((k, w) # xs) = (if k = n then first_node xs else next_node n xs)"

definition erase_node :: "nat \<Rightarrow> (nat \<times> ptr) list \<Rightarrow> (nat \<times> ptr) list" where
  "erase_node n xs = filter (\<lambda>(k, w). k \<noteq> n) xs"

text \<open>\<open>notify_one\<close> with the one worker as the only thread that waits.\<close>

fun notified :: "worker_pc \<Rightarrow> worker_pc" where
  "notified WBlocked = WTop"
| "notified p = p"

definition attach_node :: "ptr \<Rightarrow> csubject \<Rightarrow> csubject" where
  "attach_node ob x = x\<lparr>nodes := nodes x @ [(fresh_node x, ob)], fresh_node := fresh_node x + 1\<rparr>"

definition detach_node :: "ptr \<Rightarrow> ptr \<Rightarrow> 'cb cstate \<Rightarrow> 'cb cstate" where
  "detach_node s ob c = (case sub c s of None \<Rightarrow> c
     | Some x \<Rightarrow> if 0 < crefs c s
         then put_sub s (x\<lparr>nodes := erase_first (\<lambda>(k, w). 0 < crefs c w \<and> 0 < crefs c ob \<and> w = ob) (nodes x)\<rparr>) c
         else c)"

text \<open>A strong reference to an observer goes; with the last one the observer is destroyed, which
  detaches it from nothing (\<open>destructor_detaches_nothing\<close>).\<close>

definition release_observer :: "ptr \<Rightarrow> 'cb cstate \<Rightarrow> 'cb cstate" where
  "release_observer w c = (let c1 = set_refs w (crefs c w - 1) c in
     if crefs c w \<le> 1 then c1\<lparr>obs := (obs c1)(w := None)\<rparr> else c1)"

text \<open>The call of the user's callback in \<open>Observer::update\<close>.\<close>

definition record_call :: "ptr \<Rightarrow> ptr \<Rightarrow> string \<Rightarrow> 'cb observer \<Rightarrow> 'cb cstate \<Rightarrow> 'cb cstate" where
  "record_call s w m y c = (case map_of (callback_map y) s of
     None \<Rightarrow> c | Some cb \<Rightarrow> c\<lparr>ccalls := ccalls c @ [(s, w, cb, m)]\<rparr>)"

text \<open>The objects a command reaches through a pointer.\<close>

fun cmd_subject :: "'cb cmd \<Rightarrow> ptr option" where
  "cmd_subject (CreateMessage s m) = Some s"
| "cmd_subject (SetCallback ob s cb) = Some s"
| "cmd_subject (ReleaseSubject s) = Some s"
| "cmd_subject _ = None"

fun cmd_observer :: "'cb cmd \<Rightarrow> ptr option" where
  "cmd_observer (SetCallback ob s cb) = Some ob"
| "cmd_observer (RemoveSelf ob) = Some ob"
| "cmd_observer (RemoveFrom ob s) = Some ob"
| "cmd_observer (ReleaseObserver ob) = Some ob"
| "cmd_observer _ = None"

section \<open>Steps\<close>

datatype agent = Thread nat | Worker ptr | Spurious ptr

inductive moves :: "'cb cstate \<Rightarrow> agent \<Rightarrow> 'cb cstate \<Rightarrow> bool" where
  Dangling: "at_cmd t cm p c \<Longrightarrow> (case cmd_subject cm of None \<Rightarrow> False | Some s \<Rightarrow> sub c s = None) \<or>
      (case cmd_observer cm of None \<Rightarrow> False | Some ob \<Rightarrow> obs c ob = None) \<Longrightarrow>
    moves c (Thread t) (crash_with UseAfterFree c)"
| LockMsg: "at_cmd t (CreateMessage s m) TReady c \<Longrightarrow> sub c s = Some x \<Longrightarrow> msg_mutex x = None \<Longrightarrow>
    moves c (Thread t) (put_sub s (x\<lparr>msg_mutex := Some t\<rparr>) (go t TLocked c))"
| Store: "at_cmd t (CreateMessage s m) TLocked c \<Longrightarrow> sub c s = Some x \<Longrightarrow>
    moves c (Thread t) (put_sub s (x\<lparr>cur_msg := m\<rparr>) (go t TStored c))"
| Push: "at_cmd t (CreateMessage s m) TStored c \<Longrightarrow> sub c s = Some x \<Longrightarrow>
    moves c (Thread t) (put_sub s (x\<lparr>msg_queue := msg_queue x @ [cur_msg x], wpc := notified (wpc x),
      pushed := pushed x @ [(t, cur_msg x)]\<rparr>) (go t TQueued c))"
| UnlockMsg: "at_cmd t (CreateMessage s m) TQueued c \<Longrightarrow> sub c s = Some x \<Longrightarrow>
    moves c (Thread t) (put_sub s (x\<lparr>msg_mutex := None\<rparr>) (done_cmd t c))"
| SetCb: "at_cmd t (SetCallback ob s cb) TReady c \<Longrightarrow> sub c s = Some x \<Longrightarrow> obs c ob = Some y \<Longrightarrow>
    moves c (Thread t) (put_sub s (attach_node ob x)
      (put_obs ob (y\<lparr>callback_map := AList.update s cb (callback_map y)\<rparr>) (done_cmd t c)))"
| RemoveOne: "at_cmd t (RemoveSelf ob) TReady c \<Longrightarrow> obs c ob = Some y \<Longrightarrow> callback_map y = (s, cb) # r \<Longrightarrow>
    moves c (Thread t) (put_obs ob (y\<lparr>callback_map := r\<rparr>) (detach_node s ob c))"
| RemoveEnd: "at_cmd t (RemoveSelf ob) TReady c \<Longrightarrow> obs c ob = Some y \<Longrightarrow> callback_map y = [] \<Longrightarrow>
    moves c (Thread t) (done_cmd t c)"
| RemoveFromOne: "at_cmd t (RemoveFrom ob s) TReady c \<Longrightarrow> obs c ob = Some y \<Longrightarrow> map_of (callback_map y) s = Some cb \<Longrightarrow>
    moves c (Thread t) (put_obs ob (y\<lparr>callback_map := AList.delete s (callback_map y)\<rparr>)
      (detach_node s ob (done_cmd t c)))"
| RemoveFromEnd: "at_cmd t (RemoveFrom ob s) TReady c \<Longrightarrow> obs c ob = Some y \<Longrightarrow> map_of (callback_map y) s = None \<Longrightarrow>
    moves c (Thread t) (crash_with EndIterator c)"
| DropObserver: "at_cmd t (ReleaseObserver ob) TReady c \<Longrightarrow> obs c ob = Some y \<Longrightarrow>
    moves c (Thread t) (release_observer ob (done_cmd t c))"
| DropSubject: "at_cmd t (ReleaseSubject s) TReady c \<Longrightarrow> sub c s = Some x \<Longrightarrow>
    moves c (Thread t) (set_refs s (crefs c s - 1) (if crefs c s \<le> 1 then go t TDestroying c else done_cmd t c))"
| Shut: "at_cmd t (ReleaseSubject s) TDestroying c \<Longrightarrow> sub c s = Some x \<Longrightarrow>
    moves c (Thread t) (put_sub s (x\<lparr>shut := True, wpc := notified (wpc x)\<rparr>) (go t TJoining c))"
| JoinWorker: "at_cmd t (ReleaseSubject s) TJoining c \<Longrightarrow> sub c s = Some x \<Longrightarrow> wpc x = WReturned \<Longrightarrow>
    moves c (Thread t) ((done_cmd t c)\<lparr>sub := (sub c)(s := None)\<rparr>)"
| JoinAll: "at_cmd t (JoinThreads ts) TReady c \<Longrightarrow> list_all (\<lambda>i. i < length (thr c) \<and> prog (thr c ! i) = []) ts \<Longrightarrow>
    moves c (Thread t) (done_cmd t c)"
| Take: "crashed c = None \<Longrightarrow> sub c s = Some x \<Longrightarrow> wpc x = WTop \<Longrightarrow> msg_queue x = m # q \<Longrightarrow>
    moves c (Worker s) (put_sub s (x\<lparr>msg_queue := q, wpc := (if m = [] then WTop else WTaken m),
      taken := taken x @ [m]\<rparr>) c)"
| Sleep: "crashed c = None \<Longrightarrow> sub c s = Some x \<Longrightarrow> wpc x = WTop \<Longrightarrow> msg_queue x = [] \<Longrightarrow>
    moves c (Worker s) (put_sub s (x\<lparr>wpc := (if shut x then WReturned else WBlocked)\<rparr>) c)"
| WakeUp: "crashed c = None \<Longrightarrow> sub c s = Some x \<Longrightarrow> wpc x = WBlocked \<Longrightarrow>
    moves c (Spurious s) (put_sub s (x\<lparr>wpc := WTop\<rparr>) c)"
| Begin: "crashed c = None \<Longrightarrow> sub c s = Some x \<Longrightarrow> wpc x = WTaken m \<Longrightarrow>
    moves c (Worker s) (put_sub s (x\<lparr>wpc := WWalk m (first_node (nodes x))\<rparr>) c)"
| Finish: "crashed c = None \<Longrightarrow> sub c s = Some x \<Longrightarrow> wpc x = WWalk m End \<Longrightarrow>
    moves c (Worker s) (put_sub s (x\<lparr>wpc := WTop\<rparr>) c)"
| Deref: "crashed c = None \<Longrightarrow> sub c s = Some x \<Longrightarrow> wpc x = WWalk m (At n) \<Longrightarrow> map_of (nodes x) n = None \<Longrightarrow>
    moves c (Worker s) (crash_with UseAfterFree c)"
| Lock: "crashed c = None \<Longrightarrow> sub c s = Some x \<Longrightarrow> wpc x = WWalk m (At n) \<Longrightarrow> map_of (nodes x) n = Some w \<Longrightarrow>
    0 < crefs c w \<Longrightarrow>
    moves c (Worker s) (set_refs w (Suc (crefs c w)) (put_sub s (x\<lparr>wpc := WLocked m n w\<rparr>) c))"
| Prune: "crashed c = None \<Longrightarrow> sub c s = Some x \<Longrightarrow> wpc x = WWalk m (At n) \<Longrightarrow> map_of (nodes x) n = Some w \<Longrightarrow>
    crefs c w = 0 \<Longrightarrow>
    moves c (Worker s) (put_sub s (x\<lparr>wpc := WWalk m (next_node n (nodes x)), nodes := erase_node n (nodes x)\<rparr>) c)"
| Share: "crashed c = None \<Longrightarrow> sub c s = Some x \<Longrightarrow> wpc x = WLocked m n w \<Longrightarrow> 0 < crefs c s \<Longrightarrow>
    moves c (Worker s) (set_refs s (Suc (crefs c s)) (put_sub s (x\<lparr>wpc := WInCall m n w\<rparr>) c))"
| BadWeakPtr: "crashed c = None \<Longrightarrow> sub c s = Some x \<Longrightarrow> wpc x = WLocked m n w \<Longrightarrow> crefs c s = 0 \<Longrightarrow>
    moves c (Worker s) (put_sub s (x\<lparr>wpc := WAdvance m n w\<rparr>) c)"
| Update: "crashed c = None \<Longrightarrow> sub c s = Some x \<Longrightarrow> wpc x = WInCall m n w \<Longrightarrow> obs c w = Some y \<Longrightarrow> 1 < crefs c s \<Longrightarrow>
    moves c (Worker s) (set_refs s (crefs c s - 1) (put_sub s (x\<lparr>wpc := WAdvance m n w\<rparr>) (record_call s w m y c)))"
| UpdateFreed: "crashed c = None \<Longrightarrow> sub c s = Some x \<Longrightarrow> wpc x = WInCall m n w \<Longrightarrow> obs c w = None \<Longrightarrow>
    moves c (Worker s) (crash_with UseAfterFree c)"
| LastReference: "crashed c = None \<Longrightarrow> sub c s = Some x \<Longrightarrow> wpc x = WInCall m n w \<Longrightarrow> obs c w = Some y \<Longrightarrow> crefs c s \<le> 1 \<Longrightarrow>
    moves c (Worker s) (crash_with SelfJoin (record_call s w m y c))"
| Advance: "crashed c = None \<Longrightarrow> sub c s = Some x \<Longrightarrow> wpc x = WAdvance m n w \<Longrightarrow> map_of (nodes x) n \<noteq> None \<Longrightarrow>
    moves c (Worker s) (release_observer w (put_sub s (x\<lparr>wpc := WWalk m (next_node n (nodes x))\<rparr>) c))"
| AdvanceFreed: "crashed c = None \<Longrightarrow> sub c s = Some x \<Longrightarrow> wpc x = WAdvance m n w \<Longrightarrow> map_of (nodes x) n = None \<Longrightarrow>
    moves c (Worker s) (crash_with UseAfterFree c)"

inductive_cases moves_cases: "moves c a c'"


section \<open>The steps as a function\<close>

fun thread_next :: "nat \<Rightarrow> 'cb cmd \<Rightarrow> caller_pc \<Rightarrow> 'cb cstate \<Rightarrow> 'cb cstate option" where
  "thread_next t (CreateMessage s m) p c = (case sub c s of None \<Rightarrow> Some (crash_with UseAfterFree c)
     | Some x \<Rightarrow> (case p of
         TReady \<Rightarrow> if msg_mutex x = None then Some (put_sub s (x\<lparr>msg_mutex := Some t\<rparr>) (go t TLocked c)) else None
       | TLocked \<Rightarrow> Some (put_sub s (x\<lparr>cur_msg := m\<rparr>) (go t TStored c))
       | TStored \<Rightarrow> Some (put_sub s (x\<lparr>msg_queue := msg_queue x @ [cur_msg x], wpc := notified (wpc x),
           pushed := pushed x @ [(t, cur_msg x)]\<rparr>) (go t TQueued c))
       | TQueued \<Rightarrow> Some (put_sub s (x\<lparr>msg_mutex := None\<rparr>) (done_cmd t c))
       | _ \<Rightarrow> None))"
| "thread_next t (SetCallback ob s cb) p c = (case (sub c s, obs c ob) of
       (Some x, Some y) \<Rightarrow> if p = TReady then Some (put_sub s (attach_node ob x)
         (put_obs ob (y\<lparr>callback_map := AList.update s cb (callback_map y)\<rparr>) (done_cmd t c))) else None
     | _ \<Rightarrow> Some (crash_with UseAfterFree c))"
| "thread_next t (RemoveSelf ob) p c = (case obs c ob of None \<Rightarrow> Some (crash_with UseAfterFree c)
     | Some y \<Rightarrow> if p = TReady then (case callback_map y of [] \<Rightarrow> Some (done_cmd t c)
         | (s, cb) # r \<Rightarrow> Some (put_obs ob (y\<lparr>callback_map := r\<rparr>) (detach_node s ob c))) else None)"
| "thread_next t (RemoveFrom ob s) p c = (case obs c ob of None \<Rightarrow> Some (crash_with UseAfterFree c)
     | Some y \<Rightarrow> if p = TReady then (case map_of (callback_map y) s of None \<Rightarrow> Some (crash_with EndIterator c)
         | Some cb \<Rightarrow> Some (put_obs ob (y\<lparr>callback_map := AList.delete s (callback_map y)\<rparr>)
             (detach_node s ob (done_cmd t c)))) else None)"
| "thread_next t (ReleaseObserver ob) p c = (case obs c ob of None \<Rightarrow> Some (crash_with UseAfterFree c)
     | Some y \<Rightarrow> if p = TReady then Some (release_observer ob (done_cmd t c)) else None)"
| "thread_next t (ReleaseSubject s) p c = (case sub c s of None \<Rightarrow> Some (crash_with UseAfterFree c)
     | Some x \<Rightarrow> (case p of
         TReady \<Rightarrow> Some (set_refs s (crefs c s - 1) (if crefs c s \<le> 1 then go t TDestroying c else done_cmd t c))
       | TDestroying \<Rightarrow> Some (put_sub s (x\<lparr>shut := True, wpc := notified (wpc x)\<rparr>) (go t TJoining c))
       | TJoining \<Rightarrow> if wpc x = WReturned then Some ((done_cmd t c)\<lparr>sub := (sub c)(s := None)\<rparr>) else None
       | _ \<Rightarrow> None))"
| "thread_next t (JoinThreads ts) p c = (if p = TReady \<and> list_all (\<lambda>i. i < length (thr c) \<and> prog (thr c ! i) = []) ts
     then Some (done_cmd t c) else None)"

fun worker_next :: "ptr \<Rightarrow> csubject \<Rightarrow> 'cb cstate \<Rightarrow> 'cb cstate option" where
  "worker_next s x c = (case wpc x of
     WTop \<Rightarrow> (case msg_queue x of
         [] \<Rightarrow> Some (put_sub s (x\<lparr>wpc := (if shut x then WReturned else WBlocked)\<rparr>) c)
       | m # q \<Rightarrow> Some (put_sub s (x\<lparr>msg_queue := q, wpc := (if m = [] then WTop else WTaken m),
           taken := taken x @ [m]\<rparr>) c))
   | WTaken m \<Rightarrow> Some (put_sub s (x\<lparr>wpc := WWalk m (first_node (nodes x))\<rparr>) c)
   | WWalk m End \<Rightarrow> Some (put_sub s (x\<lparr>wpc := WTop\<rparr>) c)
   | WWalk m (At n) \<Rightarrow> (case map_of (nodes x) n of None \<Rightarrow> Some (crash_with UseAfterFree c)
       | Some w \<Rightarrow> if 0 < crefs c w then Some (set_refs w (Suc (crefs c w)) (put_sub s (x\<lparr>wpc := WLocked m n w\<rparr>) c))
           else Some (put_sub s (x\<lparr>wpc := WWalk m (next_node n (nodes x)), nodes := erase_node n (nodes x)\<rparr>) c))
   | WLocked m n w \<Rightarrow> if 0 < crefs c s
       then Some (set_refs s (Suc (crefs c s)) (put_sub s (x\<lparr>wpc := WInCall m n w\<rparr>) c))
       else Some (put_sub s (x\<lparr>wpc := WAdvance m n w\<rparr>) c)
   | WInCall m n w \<Rightarrow> (case obs c w of None \<Rightarrow> Some (crash_with UseAfterFree c)
       | Some y \<Rightarrow> if 1 < crefs c s
           then Some (set_refs s (crefs c s - 1) (put_sub s (x\<lparr>wpc := WAdvance m n w\<rparr>) (record_call s w m y c)))
           else Some (crash_with SelfJoin (record_call s w m y c)))
   | WAdvance m n w \<Rightarrow> if map_of (nodes x) n = None then Some (crash_with UseAfterFree c)
       else Some (release_observer w (put_sub s (x\<lparr>wpc := WWalk m (next_node n (nodes x))\<rparr>) c))
   | _ \<Rightarrow> None)"

fun move_next :: "'cb cstate \<Rightarrow> agent \<Rightarrow> 'cb cstate option" where
  "move_next c (Thread t) = (if crashed c = None \<and> t < length (thr c) then (case prog (thr c ! t) of [] \<Rightarrow> None
     | cm # _ \<Rightarrow> thread_next t cm (tpc (thr c ! t)) c) else None)"
| "move_next c (Worker s) = (if crashed c = None then (case sub c s of None \<Rightarrow> None | Some x \<Rightarrow> worker_next s x c) else None)"
| "move_next c (Spurious s) = (if crashed c = None then (case sub c s of None \<Rightarrow> None
     | Some x \<Rightarrow> if wpc x = WBlocked then Some (put_sub s (x\<lparr>wpc := WTop\<rparr>) c) else None) else None)"

lemma thread_next_moves:
  assumes "at_cmd t cm p c" and "thread_next t cm p c = Some c'"
  shows "moves c (Thread t) c'"
proof (cases cm)
  case (CreateMessage s m)
  with assms show ?thesis
    by (cases "sub c s"; cases p) (auto split: if_splits intro: moves.intros(2-5) moves.Dangling)
next
  case (SetCallback ob s cb)
  with assms show ?thesis
    by (cases "sub c s"; cases "obs c ob") (auto split: if_splits intro: SetCb moves.Dangling)
next
  case (RemoveSelf ob)
  with assms show ?thesis
    by (cases "obs c ob") (auto split: if_splits list.splits intro: RemoveOne RemoveEnd moves.Dangling)
next
  case (RemoveFrom ob s)
  with assms show ?thesis
    by (cases "obs c ob"; cases "map_of (callback_map (the (obs c ob))) s")
      (auto split: if_splits intro: RemoveFromOne RemoveFromEnd moves.Dangling)
next
  case (ReleaseObserver ob)
  with assms show ?thesis
    by (cases "obs c ob") (auto split: if_splits intro: DropObserver moves.Dangling)
next
  case (ReleaseSubject s)
  with assms show ?thesis
    by (cases "sub c s"; cases p)
      (auto split: if_splits intro: DropSubject Shut JoinWorker moves.Dangling dest: DropSubject)
next
  case (JoinThreads ts)
  with assms show ?thesis by (auto split: if_splits intro: JoinAll)
qed

lemma worker_next_moves:
  assumes "crashed c = None" and "sub c s = Some x" and "worker_next s x c = Some c'"
  shows "moves c (Worker s) c'"
proof (cases "wpc x")
  case (WWalk m it)
  with assms show ?thesis
    by (cases it) (auto split: option.splits if_splits intro: Finish Deref Lock Prune)
qed (use assms in \<open>auto split: option.splits list.splits if_splits
    intro: Begin Share BadWeakPtr Update [unfolded One_nat_def] UpdateFreed LastReference [unfolded One_nat_def] Advance AdvanceFreed
    dest: Take Sleep\<close>)

lemma move_next_moves: "move_next c a = Some c' \<Longrightarrow> moves c a c'"
  by (cases a) (auto simp: at_cmd_def split: if_splits list.splits option.splits
      intro: thread_next_moves worker_next_moves WakeUp)

lemma move_runs: "run_all move_next c as = Some c' \<Longrightarrow> runs moves c as c'"
  by (rule run_all_runs [where R = moves and nxt = move_next]) (rule move_next_moves)


section \<open>What a step leaves alone\<close>

lemmas move_defs = put_sub_def put_obs_def set_refs_def crash_with_def go_def done_cmd_def record_call_def
  release_observer_def detach_node_def attach_node_def Let_def

lemma put_sub_frame [simp]:
  "sub (put_sub s x c) = (sub c)(s \<mapsto> x)" "obs (put_sub s x c) = obs c" "crefs (put_sub s x c) = crefs c"
  "thr (put_sub s x c) = thr c" "ccalls (put_sub s x c) = ccalls c" "crashed (put_sub s x c) = crashed c"
  by (simp_all add: put_sub_def)

lemma put_obs_frame [simp]:
  "sub (put_obs ob y c) = sub c" "obs (put_obs ob y c) = (obs c)(ob \<mapsto> y)" "crefs (put_obs ob y c) = crefs c"
  "thr (put_obs ob y c) = thr c" "ccalls (put_obs ob y c) = ccalls c" "crashed (put_obs ob y c) = crashed c"
  by (simp_all add: put_obs_def)

lemma set_refs_frame [simp]:
  "sub (set_refs p n c) = sub c" "obs (set_refs p n c) = obs c" "crefs (set_refs p n c) = (crefs c)(p := n)"
  "thr (set_refs p n c) = thr c" "ccalls (set_refs p n c) = ccalls c" "crashed (set_refs p n c) = crashed c"
  by (simp_all add: set_refs_def)

lemma crash_with_frame [simp]:
  "sub (crash_with e c) = sub c" "obs (crash_with e c) = obs c" "crefs (crash_with e c) = crefs c"
  "thr (crash_with e c) = thr c" "ccalls (crash_with e c) = ccalls c" "crashed (crash_with e c) = Some e"
  by (simp_all add: crash_with_def)

lemma go_frame [simp]:
  "sub (go t p c) = sub c" "obs (go t p c) = obs c" "crefs (go t p c) = crefs c"
  "thr (go t p c) = (thr c)[t := (thr c ! t)\<lparr>tpc := p\<rparr>]" "ccalls (go t p c) = ccalls c" "crashed (go t p c) = crashed c"
  by (simp_all add: go_def)

lemma done_cmd_frame [simp]:
  "sub (done_cmd t c) = sub c" "obs (done_cmd t c) = obs c" "crefs (done_cmd t c) = crefs c"
  "thr (done_cmd t c) = (thr c)[t := \<lparr>prog = tl (prog (thr c ! t)), tpc = TReady\<rparr>]"
  "ccalls (done_cmd t c) = ccalls c" "crashed (done_cmd t c) = crashed c"
  by (simp_all add: done_cmd_def)

lemma record_call_frame [simp]:
  "sub (record_call s w m y c) = sub c" "obs (record_call s w m y c) = obs c"
  "crefs (record_call s w m y c) = crefs c" "thr (record_call s w m y c) = thr c"
  "crashed (record_call s w m y c) = crashed c"
  by (simp_all add: record_call_def split: option.split)

lemma release_observer_frame [simp]:
  "sub (release_observer w c) = sub c" "thr (release_observer w c) = thr c"
  "crefs (release_observer w c) = (crefs c)(w := crefs c w - 1)"
  "ccalls (release_observer w c) = ccalls c" "crashed (release_observer w c) = crashed c"
  by (simp_all add: release_observer_def Let_def)

lemma detach_node_frame [simp]:
  "obs (detach_node s ob c) = obs c" "crefs (detach_node s ob c) = crefs c" "thr (detach_node s ob c) = thr c"
  "ccalls (detach_node s ob c) = ccalls c" "crashed (detach_node s ob c) = crashed c"
  by (simp_all add: detach_node_def split: option.split)

lemma detach_node_sub:
  "sub (detach_node s ob c) r = Some x' \<Longrightarrow> \<exists>x ns. sub c r = Some x \<and> x' = x\<lparr>nodes := ns\<rparr>"
proof -
  have "x = x\<lparr>nodes := nodes x\<rparr>" for x by simp
  then show "sub (detach_node s ob c) r = Some x' \<Longrightarrow> \<exists>x ns. sub c r = Some x \<and> x' = x\<lparr>nodes := ns\<rparr>"
    unfolding detach_node_def by (auto split: option.splits if_splits; blast)
qed

section \<open>The queue of a subject\<close>

text \<open>The messages that a list of commands sends to a subject.\<close>

fun sent :: "ptr \<Rightarrow> 'cb cmd list \<Rightarrow> string list" where
  "sent s [] = []"
| "sent s (cm # cms) = (case cm of CreateMessage r m \<Rightarrow> (if r = s then [m] else []) | _ \<Rightarrow> []) @ sent s cms"

text \<open>A program before its first step: the threads with their commands, the workers at their start.\<close>

definition begins :: "'cb cmd list list \<Rightarrow> 'cb cstate \<Rightarrow> bool" where
  "begins ps c \<longleftrightarrow> crashed c = None \<and> ccalls c = [] \<and> thr c = map (\<lambda>p. \<lparr>prog = p, tpc = TReady\<rparr>) ps
     \<and> (\<forall>s x. sub c s = Some x \<longrightarrow> msg_queue x = [] \<and> msg_mutex x = None \<and> wpc x = WTop \<and> pushed x = []
          \<and> taken x = [] \<and> \<not> shut x \<and> distinct (map fst (nodes x)) \<and> (\<forall>n \<in> fst ` set (nodes x). n < fresh_node x))"

definition in_message :: "ptr \<Rightarrow> 'cb thr \<Rightarrow> bool" where
  "in_message s th \<longleftrightarrow> tpc th \<in> {TLocked, TStored, TQueued}
     \<and> (case prog th of CreateMessage r m # _ \<Rightarrow> r = s | _ \<Rightarrow> False)"

text \<open>The message that a thread has just written to \<open>current_message_\<close> of \<open>s\<close>.\<close>

definition stored_msg :: "ptr \<Rightarrow> 'cb thr \<Rightarrow> string option" where
  "stored_msg s th = (if tpc th = TStored then (case prog th of
     CreateMessage r m # _ \<Rightarrow> if r = s then Some m else None | _ \<Rightarrow> None) else None)"

definition unsent :: "'cb thr \<Rightarrow> 'cb cmd list" where
  "unsent th = (if tpc th = TQueued then tl (prog th) else prog th)"

definition by_thread :: "nat \<Rightarrow> (nat \<times> string) list \<Rightarrow> string list" where
  "by_thread t l = map snd (filter (\<lambda>(i, m). i = t) l)"

definition thread_ok :: "'cb cmd list \<Rightarrow> ptr \<Rightarrow> csubject \<Rightarrow> nat \<Rightarrow> 'cb thr \<Rightarrow> bool" where
  "thread_ok p s x t th \<longleftrightarrow> (msg_mutex x = Some t \<longleftrightarrow> in_message s th)
     \<and> (\<forall>m. stored_msg s th = Some m \<longrightarrow> cur_msg x = m)
     \<and> by_thread t (pushed x) @ sent s (unsent th) = sent s p"

definition queue_ok :: "'cb cmd list list \<Rightarrow> csubject \<Rightarrow> bool" where
  "queue_ok ps x \<longleftrightarrow> map snd (pushed x) = taken x @ msg_queue x \<and> (\<forall>i \<in> fst ` set (pushed x). i < length ps)"

definition queue_inv :: "'cb cmd list list \<Rightarrow> 'cb cstate \<Rightarrow> bool" where
  "queue_inv ps c \<longleftrightarrow> length (thr c) = length ps \<and> (\<forall>s x. sub c s = Some x \<longrightarrow>
     queue_ok ps x \<and> (\<forall>t. msg_mutex x = Some t \<longrightarrow> t < length ps)
     \<and> (\<forall>t < length ps. thread_ok (ps ! t) s x t (thr c ! t)))"

lemma by_thread_snoc [simp]: "by_thread t (l @ [(i, m)]) = by_thread t l @ (if i = t then [m] else [])"
  by (simp add: by_thread_def)

lemma begins_queue_inv: "begins ps c \<Longrightarrow> queue_inv ps c"
  by (auto simp: begins_def queue_inv_def queue_ok_def thread_ok_def in_message_def stored_msg_def unsent_def by_thread_def)

lemma thread_ok_cong:
  "msg_mutex x' = msg_mutex x \<Longrightarrow> cur_msg x' = cur_msg x \<Longrightarrow> pushed x' = pushed x
    \<Longrightarrow> thread_ok p s x' t th = thread_ok p s x t th"
  by (simp add: thread_ok_def)

text \<open>A step that leaves the threads, the mutex and the messages of every subject alone.\<close>

lemma queue_inv_frame:
  assumes "queue_inv ps c" and "thr c' = thr c"
    and "\<And>s x'. sub c' s = Some x' \<Longrightarrow> \<exists>x. sub c s = Some x \<and> msg_mutex x' = msg_mutex x \<and> cur_msg x' = cur_msg x
      \<and> pushed x' = pushed x \<and> taken x' @ msg_queue x' = taken x @ msg_queue x"
  shows "queue_inv ps c'"
  unfolding queue_inv_def
proof (intro conjI allI impI)
  show "length (thr c') = length ps" using assms(1,2) by (simp add: queue_inv_def)
next
  fix s x' assume "sub c' s = Some x'"
  from assms(3) [OF this] obtain x where x: "sub c s = Some x" "msg_mutex x' = msg_mutex x" "cur_msg x' = cur_msg x"
    "pushed x' = pushed x" "taken x' @ msg_queue x' = taken x @ msg_queue x" by blast
  with assms(1) have "queue_ok ps x" "\<forall>t. msg_mutex x = Some t \<longrightarrow> t < length ps"
    "\<forall>t < length ps. thread_ok (ps ! t) s x t (thr c ! t)" by (auto simp: queue_inv_def)
  then show "queue_ok ps x'"
    and "\<And>t. msg_mutex x' = Some t \<Longrightarrow> t < length ps"
    and "\<And>t. t < length ps \<Longrightarrow> thread_ok (ps ! t) s x' t (thr c' ! t)"
    using x(2,4,5) assms(2) by (simp_all add: thread_ok_cong [OF x(2-4)] queue_ok_def)
qed

text \<open>A step of thread \<open>t\<close>, which may also change the mutex, the message and the queue of subject \<open>s\<close>.\<close>

lemma queue_inv_thread:
  assumes "queue_inv ps c" and "t < length (thr c)" and "thr c' = (thr c)[t := th']"
    and "\<And>r y. r \<noteq> s \<Longrightarrow> sub c' r = Some y \<Longrightarrow> sub c r = Some y"
    and "\<And>r y. r \<noteq> s \<Longrightarrow> sub c r = Some y \<Longrightarrow> thread_ok (ps ! t) r y t (thr c ! t) \<Longrightarrow> thread_ok (ps ! t) r y t th'"
    and "\<And>y'. sub c' s = Some y' \<Longrightarrow> \<exists>y. sub c s = Some y
      \<and> (queue_ok ps y \<longrightarrow> queue_ok ps y')
      \<and> (msg_mutex y' = msg_mutex y \<or> msg_mutex y' = Some t \<or> msg_mutex y' = None)
      \<and> (thread_ok (ps ! t) s y t (thr c ! t) \<longrightarrow> thread_ok (ps ! t) s y' t th')
      \<and> (\<forall>i. i \<noteq> t \<and> i < length ps \<and> thread_ok (ps ! i) s y i (thr c ! i) \<longrightarrow> thread_ok (ps ! i) s y' i (thr c ! i))"
  shows "queue_inv ps c'"
proof -
  have len: "length (thr c) = length ps" using assms(1) by (simp add: queue_inv_def)
  have "queue_ok ps x' \<and> (\<forall>i. msg_mutex x' = Some i \<longrightarrow> i < length ps)
      \<and> (\<forall>i < length ps. thread_ok (ps ! i) r x' i (thr c' ! i))" if r: "sub c' r = Some x'" for r x'
  proof (cases "r = s")
    case True
    with r assms(6) obtain y where "sub c s = Some y"
      and y: "queue_ok ps y \<longrightarrow> queue_ok ps x'"
        "msg_mutex x' = msg_mutex y \<or> msg_mutex x' = Some t \<or> msg_mutex x' = None"
        "thread_ok (ps ! t) s y t (thr c ! t) \<longrightarrow> thread_ok (ps ! t) s x' t th'"
        "\<forall>i. i \<noteq> t \<and> i < length ps \<and> thread_ok (ps ! i) s y i (thr c ! i) \<longrightarrow> thread_ok (ps ! i) s x' i (thr c ! i)"
      by blast
    moreover from assms(1) this(1) have "queue_ok ps y" "\<forall>i. msg_mutex y = Some i \<longrightarrow> i < length ps"
      "\<forall>i < length ps. thread_ok (ps ! i) s y i (thr c ! i)" by (auto simp: queue_inv_def)
    ultimately show ?thesis using True assms(2,3) len by (auto simp: nth_list_update)
  next
    case False
    with r assms(4) have "sub c r = Some x'" by blast
    with assms(1) have "queue_ok ps x'" "\<forall>i. msg_mutex x' = Some i \<longrightarrow> i < length ps"
      "\<forall>i < length ps. thread_ok (ps ! i) r x' i (thr c ! i)" by (auto simp: queue_inv_def)
    with False assms(2,3,5) len \<open>sub c r = Some x'\<close> show ?thesis by (auto simp: nth_list_update)
  qed
  then show ?thesis using len assms(3) by (simp add: queue_inv_def)
qed

fun sends :: "'cb cmd \<Rightarrow> bool" where
  "sends (CreateMessage s m) = True"
| "sends _ = False"

lemma at_cmdD:
  assumes "at_cmd t cm p c"
  shows "t < length (thr c)" and "\<exists>r. thr c ! t = \<lparr>prog = cm # r, tpc = p\<rparr>" and "crashed c = None"
  using assms by (auto simp: at_cmd_def split: list.splits intro!: thr.equality)

text \<open>A command that sends nothing leaves the queue's account of its thread alone.\<close>

lemma thread_ok_quiet:
  assumes "\<not> sends cm" and "p \<noteq> TQueued"
  shows "thread_ok q s x t \<lparr>prog = r, tpc = TReady\<rparr> = thread_ok q s x t \<lparr>prog = cm # r, tpc = p\<rparr>"
    and "p' \<notin> {TLocked, TStored, TQueued} \<Longrightarrow>
      thread_ok q s x t \<lparr>prog = cm # r, tpc = p'\<rparr> = thread_ok q s x t \<lparr>prog = cm # r, tpc = p\<rparr>"
  using assms by (cases cm; auto simp: thread_ok_def in_message_def stored_msg_def unsent_def split: list.splits cmd.splits)+

lemma worker_queue_inv:
  assumes "queue_inv ps c" and "moves c a c'" and "case a of Thread t \<Rightarrow> False | _ \<Rightarrow> True"
  shows "queue_inv ps c'"
  using assms(2,3,1)
  by cases (rule queue_inv_frame, assumption, simp, force split: if_splits)+

lemma quiet_queue_inv:
  assumes "queue_inv ps c" and "at_cmd t cm p c" and "\<not> sends cm" and "p \<noteq> TQueued"
    and "thr c' = thr c \<or> thr c' = thr (done_cmd t c) \<or> (\<exists>p'. p' \<notin> {TLocked, TStored, TQueued} \<and> thr c' = thr (go t p' c))"
    and "\<And>s x'. sub c' s = Some x' \<Longrightarrow> \<exists>x. sub c s = Some x \<and> msg_mutex x' = msg_mutex x \<and> cur_msg x' = cur_msg x
      \<and> pushed x' = pushed x \<and> taken x' @ msg_queue x' = taken x @ msg_queue x"
  shows "queue_inv ps c'"
proof -
  obtain r where th: "thr c ! t = \<lparr>prog = cm # r, tpc = p\<rparr>" "t < length (thr c)" using at_cmdD [OF assms(2)] by auto
  have "queue_inv ps (c\<lparr>thr := (thr c)[t := th']\<rparr>)"
    if "\<And>s x. thread_ok (ps ! t) s x t th' = thread_ok (ps ! t) s x t (thr c ! t)" for th'
    using assms(1) th(2) that by (auto simp: queue_inv_def nth_list_update)
  from this [of "\<lparr>prog = r, tpc = TReady\<rparr>"] this [of "\<lparr>prog = cm # r, tpc = _\<rparr>"] assms(1,5) th thread_ok_quiet [OF assms(3,4)]
  have "queue_inv ps (c\<lparr>thr := thr c'\<rparr>)" by auto
  then show ?thesis by (rule queue_inv_frame) (use assms(6) in auto)
qed

text \<open>The four steps of \<open>create_message\<close>, as the change of the subject and of the thread.\<close>

lemma message_queue_inv:
  assumes "queue_inv ps c" and at: "at_cmd t (CreateMessage s m) p c" and x: "sub c s = Some x"
    and c': "thr c' = (thr c)[t := th']" "sub c' = (sub c)(s \<mapsto> x')"
    and step: "p = TReady \<and> msg_mutex x = None \<and> th' = (thr c ! t)\<lparr>tpc := TLocked\<rparr> \<and> x' = x\<lparr>msg_mutex := Some t\<rparr>
      \<or> p = TLocked \<and> th' = (thr c ! t)\<lparr>tpc := TStored\<rparr> \<and> x' = x\<lparr>cur_msg := m\<rparr>
      \<or> p = TStored \<and> th' = (thr c ! t)\<lparr>tpc := TQueued\<rparr> \<and> x' = x\<lparr>msg_queue := msg_queue x @ [cur_msg x],
          wpc := notified (wpc x), pushed := pushed x @ [(t, cur_msg x)]\<rparr>
      \<or> p = TQueued \<and> th' = \<lparr>prog = tl (prog (thr c ! t)), tpc = TReady\<rparr> \<and> x' = x\<lparr>msg_mutex := None\<rparr>"
  shows "queue_inv ps c'"
proof -
  obtain k where th: "t < length (thr c)" "thr c ! t = \<lparr>prog = CreateMessage s m # k, tpc = p\<rparr>"
    using at_cmdD [OF at] by auto
  have len: "length (thr c) = length ps" using assms(1) by (simp add: queue_inv_def)
  have ok: "thread_ok (ps ! i) s x i (thr c ! i)" if "i < length ps" for i
    using assms(1) x that by (auto simp: queue_inv_def)
  note unf = thread_ok_def in_message_def stored_msg_def unsent_def
  have mine: "thread_ok (ps ! t) s x' t th'"
    using ok [of t] th len step by (auto simp: unf)
  have "msg_mutex x = Some t" if "p \<noteq> TReady"
    using ok [of t] th len that step by (auto simp: unf)
  moreover have "stored_msg s (thr c ! i) = None" if "msg_mutex x \<noteq> Some i" "i < length ps" for i
    using ok [OF that(2)] that(1) by (auto simp: unf split: list.splits cmd.splits)
  ultimately have others: "thread_ok (ps ! i) s x' i (thr c ! i)" if "i \<noteq> t" "i < length ps" for i
    using ok [OF that(2)] that step by (auto simp: thread_ok_def)
  have "queue_ok ps x" using assms(1) x by (auto simp: queue_inv_def)
  then have fifo: "queue_ok ps x'" using step th len by (auto simp: queue_ok_def)
  show ?thesis
  proof (rule queue_inv_thread [OF assms(1) th(1) c'(1)])
    fix r y assume "r \<noteq> s" "thread_ok (ps ! t) r y t (thr c ! t)"
    then show "thread_ok (ps ! t) r y t th'"
      using step th by (auto simp: unf)
  next
    fix y' assume "sub c' s = Some y'"
    then have "y' = x'" using c'(2) by simp
    then show "\<exists>y. sub c s = Some y
      \<and> (queue_ok ps y \<longrightarrow> queue_ok ps y')
      \<and> (msg_mutex y' = msg_mutex y \<or> msg_mutex y' = Some t \<or> msg_mutex y' = None)
      \<and> (thread_ok (ps ! t) s y t (thr c ! t) \<longrightarrow> thread_ok (ps ! t) s y' t th')
      \<and> (\<forall>i. i \<noteq> t \<and> i < length ps \<and> thread_ok (ps ! i) s y i (thr c ! i) \<longrightarrow> thread_ok (ps ! i) s y' i (thr c ! i))"
      using x mine others fifo step by auto
  qed (use c' in auto)
qed

lemma queue_inv_step:
  assumes "queue_inv ps c" and "moves c a c'"
  shows "queue_inv ps c'"
  using assms(2)
proof cases
  case (Dangling t cm p)
  then show ?thesis using assms(1) by (intro queue_inv_frame [OF assms(1)]) auto
next
  case (LockMsg t s m x)
  then show ?thesis by (intro message_queue_inv [OF assms(1) LockMsg(3,4), where th' = "(thr c ! t)\<lparr>tpc := TLocked\<rparr>"]) auto
next
  case (Store t s m x)
  then show ?thesis by (intro message_queue_inv [OF assms(1) Store(3,4), where th' = "(thr c ! t)\<lparr>tpc := TStored\<rparr>"]) auto
next
  case (Push t s m x)
  then show ?thesis by (intro message_queue_inv [OF assms(1) Push(3,4), where th' = "(thr c ! t)\<lparr>tpc := TQueued\<rparr>"]) auto
next
  case (UnlockMsg t s m x)
  then show ?thesis
    by (intro message_queue_inv [OF assms(1) UnlockMsg(3,4), where th' = "\<lparr>prog = tl (prog (thr c ! t)), tpc = TReady\<rparr>"]) auto
next
  case (SetCb t ob s cb x y)
  then show ?thesis by (intro quiet_queue_inv [OF assms(1) SetCb(3)]) (auto simp: attach_node_def split: if_splits)
next
  case (RemoveOne t ob y s cb r)
  then show ?thesis
    by (intro quiet_queue_inv [OF assms(1) RemoveOne(3)]) (auto dest: detach_node_sub)
next
  case (RemoveFromOne t ob s y cb)
  then show ?thesis
    by (intro quiet_queue_inv [OF assms(1) RemoveFromOne(3)]) (auto dest: detach_node_sub)
next
  case (Shut t s x)
  then show ?thesis by (intro quiet_queue_inv [OF assms(1) Shut(3)]) (auto split: if_splits)
next
  case (JoinWorker t s x)
  then show ?thesis by (intro quiet_queue_inv [OF assms(1) JoinWorker(3)]) (auto split: if_splits)
next
  case (DropSubject t s x)
  then show ?thesis by (intro quiet_queue_inv [OF assms(1) DropSubject(3)]) (auto split: if_splits)
next
  case (RemoveEnd t ob y)
  then show ?thesis by (intro quiet_queue_inv [OF assms(1) RemoveEnd(3)]) auto
next
  case (RemoveFromEnd t ob s y)
  then show ?thesis by (intro quiet_queue_inv [OF assms(1) RemoveFromEnd(3)]) auto
next
  case (DropObserver t ob y)
  then show ?thesis by (intro quiet_queue_inv [OF assms(1) DropObserver(3)]) auto
next
  case (JoinAll t ts)
  then show ?thesis by (intro quiet_queue_inv [OF assms(1) JoinAll(3)]) auto
qed (use worker_queue_inv [OF assms] in auto)

lemma runs_queue_inv:
  assumes "begins ps c0" and "runs moves c0 as c"
  shows "queue_inv ps c"
  using assms(2) begins_queue_inv [OF assms(1)] queue_inv_step by (rule runs_invariant)

section \<open>The sequential operations are runs\<close>

text \<open>What the sequential operations see of a state.\<close>

definition seq_subject :: "csubject \<Rightarrow> subject" where
  "seq_subject x = \<lparr>observers = map snd (nodes x), current_message = cur_msg x, notification_queue = msg_queue x,
     shutdown_flag = shut x\<rparr>"

fun plain_call :: "ptr \<times> ptr \<times> 'cb \<times> string \<Rightarrow> 'cb \<times> string" where
  "plain_call (s, w, cb, m) = (cb, m)"

definition seq :: "'cb cstate \<Rightarrow> 'cb patterns" where
  "seq c = \<lparr>refs = crefs c, subject_at = (\<lambda>s. map_option seq_subject (sub c s)), observer_at = obs c,
     calls = map plain_call (ccalls c)\<rparr>"

text \<open>The call that observer \<open>w\<close> makes for a message of \<open>s\<close>.\<close>

definition call_entry :: "'cb cstate \<Rightarrow> ptr \<Rightarrow> string \<Rightarrow> ptr \<Rightarrow> (ptr \<times> ptr \<times> 'cb \<times> string) list" where
  "call_entry c s m w = (case obs c w of None \<Rightarrow> []
     | Some y \<Rightarrow> (case map_of (callback_map y) s of None \<Rightarrow> [] | Some cb \<Rightarrow> [(s, w, cb, m)]))"

lemma seq_simps [simp]:
  "refs (seq c) = crefs c" "subject_at (seq c) s = map_option seq_subject (sub c s)" "observer_at (seq c) = obs c"
  by (simp_all add: seq_def)

lemma seq_call: "call_of (seq c) s m w = map plain_call (call_entry c s m w)"
  by (simp add: call_of_def call_entry_def split: option.split)

lemma seq_call_fun: "call_of (seq c) s m = (\<lambda>w. map plain_call (call_entry c s m w))"
  by (rule ext) (rule seq_call)

lemma runs_worker_step:
  "runs moves c (replicate k (Worker s)) c1 \<Longrightarrow> moves c1 (Worker s) c2 \<Longrightarrow> runs moves c (replicate (Suc k) (Worker s)) c2"
  using runs_snoc [of moves c "replicate k (Worker s)" c1 "Worker s" c2] by (simp add: replicate_append_same)

lemma runs_worker_trans:
  "runs moves c (replicate k (Worker s)) c1 \<Longrightarrow> runs moves c1 (replicate j (Worker s)) c2
    \<Longrightarrow> runs moves c (replicate (k + j) (Worker s)) c2"
  using runs_trans [of moves c "replicate k (Worker s)" c1] by (simp add: replicate_add)

lemma next_node_split:
  assumes "distinct (map fst (pre @ (n, w) # rest))"
  shows "next_node n (pre @ (n, w) # rest) = first_node rest" and "map_of (pre @ (n, w) # rest) n = Some w"
    and "erase_node n (pre @ (n, w) # rest) = pre @ rest"
proof -
  have "n \<notin> fst ` set pre" "n \<notin> fst ` set rest" using assms by auto
  then have "filter (\<lambda>(k, w). k \<noteq> n) pre = pre" "filter (\<lambda>(k, w). k \<noteq> n) rest = rest" "map_of pre n = None"
    by (force simp: filter_id_conv map_of_eq_None_iff)+
  moreover have "next_node n (pre @ (n, w) # rest) = first_node rest" using \<open>n \<notin> fst ` set pre\<close>
    by (induction pre) auto
  ultimately show "next_node n (pre @ (n, w) # rest) = first_node rest"
    "map_of (pre @ (n, w) # rest) n = Some w" "erase_node n (pre @ (n, w) # rest) = pre @ rest"
    by (simp_all add: map_add_def erase_node_def)
qed

lemma advance_step:
  "crashed c = None \<Longrightarrow> sub c s = Some x \<Longrightarrow> wpc x = WAdvance m n w \<Longrightarrow> nodes x = ns \<Longrightarrow> map_of ns n \<noteq> None \<Longrightarrow>
    moves c (Worker s) (release_observer w (put_sub s (x\<lparr>wpc := WWalk m (next_node n ns)\<rparr>) c))"
  using moves.Advance [of c s x m n w] by simp

text \<open>The worker at the node of an observer: it is called when both it and the subject can be locked.\<close>

lemma visit_alive:
  assumes "crashed c = None" and "sub c s = Some x" and "wpc x = WWalk m (At n)" and "map_of (nodes x) n = Some w"
    and "0 < crefs c w" and "obs c w \<noteq> None" and "w \<noteq> s"
  shows "\<exists>k. runs moves c (replicate k (Worker s)) ((put_sub s (x\<lparr>wpc := WWalk m (next_node n (nodes x))\<rparr>) c)
    \<lparr>ccalls := ccalls c @ (if 0 < crefs c s then call_entry c s m w else [])\<rparr>)"
proof -
  let ?c1 = "set_refs w (Suc (crefs c w)) (put_sub s (x\<lparr>wpc := WLocked m n w\<rparr>) c)"
  obtain y where y: "obs c w = Some y" using assms(6) by auto
  have "moves c (Worker s) ?c1" by (rule Lock) (use assms in auto)
  then have r1: "runs moves c (replicate 1 (Worker s)) ?c1" by (simp add: runs_step)
  show ?thesis
  proof (cases "0 < crefs c s")
    case True
    let ?c2 = "set_refs s (Suc (crefs c s)) (put_sub s (x\<lparr>wpc := WInCall m n w\<rparr>) ?c1)"
    let ?c3 = "set_refs s (crefs c s) (put_sub s (x\<lparr>wpc := WAdvance m n w\<rparr>) (record_call s w m y ?c2))"
    have "moves ?c1 (Worker s) (set_refs s (Suc (crefs ?c1 s))
        (put_sub s (x\<lparr>wpc := WLocked m n w, wpc := WInCall m n w\<rparr>) ?c1))"
      by (rule Share) (use assms True in auto)
    then have s2: "moves ?c1 (Worker s) ?c2" using assms(7) by simp
    have "moves ?c2 (Worker s) (set_refs s (crefs ?c2 s - 1)
        (put_sub s (x\<lparr>wpc := WInCall m n w, wpc := WAdvance m n w\<rparr>) (record_call s w m y ?c2)))"
      by (rule Update) (use assms y True in auto)
    then have s3: "moves ?c2 (Worker s) ?c3" by simp
    have "moves ?c3 (Worker s) (release_observer w
        (put_sub s (x\<lparr>wpc := WAdvance m n w, wpc := WWalk m (next_node n (nodes x))\<rparr>) ?c3))"
      by (rule advance_step) (use assms in auto)
    moreover have "release_observer w (put_sub s (x\<lparr>wpc := WWalk m (next_node n (nodes x))\<rparr>) ?c3)
        = (put_sub s (x\<lparr>wpc := WWalk m (next_node n (nodes x))\<rparr>) c)\<lparr>ccalls := ccalls c @ call_entry c s m w\<rparr>"
      using assms(5,7) y
      by (auto simp: move_defs call_entry_def fun_eq_iff split: option.split intro!: cstate.equality)
    ultimately have s4: "moves ?c3 (Worker s)
        ((put_sub s (x\<lparr>wpc := WWalk m (next_node n (nodes x))\<rparr>) c)\<lparr>ccalls := ccalls c @ call_entry c s m w\<rparr>)"
      by simp
    from runs_worker_step [OF runs_worker_step [OF runs_worker_step [OF r1 s2] s3] s4] True show ?thesis
      by (intro exI [of _ "Suc (Suc (Suc 1))"]) simp
  next
    case False
    let ?c2 = "put_sub s (x\<lparr>wpc := WAdvance m n w\<rparr>) ?c1"
    have "moves ?c1 (Worker s) (put_sub s (x\<lparr>wpc := WLocked m n w, wpc := WAdvance m n w\<rparr>) ?c1)"
      by (rule BadWeakPtr) (use assms False in auto)
    then have s2: "moves ?c1 (Worker s) ?c2" by simp
    have "moves ?c2 (Worker s) (release_observer w
        (put_sub s (x\<lparr>wpc := WAdvance m n w, wpc := WWalk m (next_node n (nodes x))\<rparr>) ?c2))"
      by (rule advance_step) (use assms in auto)
    moreover have "release_observer w (put_sub s (x\<lparr>wpc := WWalk m (next_node n (nodes x))\<rparr>) ?c2)
        = (put_sub s (x\<lparr>wpc := WWalk m (next_node n (nodes x))\<rparr>) c)\<lparr>ccalls := ccalls c\<rparr>"
      using assms(5) by (auto simp: move_defs fun_eq_iff intro!: cstate.equality)
    ultimately have s3: "moves ?c2 (Worker s)
        ((put_sub s (x\<lparr>wpc := WWalk m (next_node n (nodes x))\<rparr>) c)\<lparr>ccalls := ccalls c\<rparr>)" by simp
    from runs_worker_step [OF runs_worker_step [OF r1 s2] s3] False show ?thesis
      by (intro exI [of _ "Suc (Suc 1)"]) simp
  qed
qed

text \<open>The rest of a walk that nobody disturbs.\<close>

definition walk_result :: "ptr \<Rightarrow> csubject \<Rightarrow> string \<Rightarrow> (nat \<times> ptr) list \<Rightarrow> (nat \<times> ptr) list \<Rightarrow> 'cb cstate \<Rightarrow> 'cb cstate" where
  "walk_result s x m pre rest c = (put_sub s (x\<lparr>wpc := WWalk m End,
      nodes := pre @ filter (\<lambda>(n, w). 0 < crefs c w) rest\<rparr>) c)
    \<lparr>ccalls := ccalls c @ (if 0 < crefs c s
       then concat (map (call_entry c s m) (filter (\<lambda>w. 0 < crefs c w) (map snd rest))) else [])\<rparr>"

lemma call_entry_cong: "obs c' = obs c \<Longrightarrow> call_entry c' = call_entry c"
  by (simp add: call_entry_def fun_eq_iff)

lemma walk_runs:
  assumes "crashed c = None" and "sub c s = Some x" and "wpc x = WWalk m (first_node rest)" and "nodes x = pre @ rest"
    and "distinct (map fst (nodes x))" and "\<forall>w \<in> snd ` set rest. (0 < crefs c w \<longrightarrow> obs c w \<noteq> None) \<and> w \<noteq> s"
  shows "\<exists>k. runs moves c (replicate k (Worker s)) (walk_result s x m pre rest c)"
  using assms
proof (induction rest arbitrary: c x pre)
  case Nil
  then have "walk_result s x m pre [] c = c"
    by (auto simp: walk_result_def put_sub_def fun_upd_idem intro!: csubject.equality)
  then show ?case by (intro exI [of _ 0]) (simp add: runs_Nil)
next
  case (Cons nw rest)
  obtain n w where nw: "nw = (n, w)" by (cases nw)
  have d: "distinct (map fst (pre @ (n, w) # rest))" using Cons.prems(4,5) nw by simp
  note split = next_node_split [OF d]
  have pc: "wpc x = WWalk m (At n)" "map_of (nodes x) n = Some w" "next_node n (nodes x) = first_node rest"
    using Cons.prems(3,4) nw split by simp_all
  show ?case
  proof (cases "0 < crefs c w")
    case True
    let ?x = "x\<lparr>wpc := WWalk m (first_node rest)\<rparr>"
    let ?c = "(put_sub s ?x c)\<lparr>ccalls := ccalls c @ (if 0 < crefs c s then call_entry c s m w else [])\<rparr>"
    from True Cons.prems nw have "obs c w \<noteq> None" "w \<noteq> s" by auto
    from visit_alive [OF Cons.prems(1,2) pc(1,2) True this] pc(3) obtain k where
      k: "runs moves c (replicate k (Worker s)) ?c" by auto
    have "\<exists>j. runs moves ?c (replicate j (Worker s)) (walk_result s ?x m (pre @ [(n, w)]) rest ?c)"
      by (rule Cons.IH) (use Cons.prems nw in auto)
    then obtain j where j: "runs moves ?c (replicate j (Worker s)) (walk_result s ?x m (pre @ [(n, w)]) rest ?c)" by blast
    have "call_entry ?c = call_entry c" by (rule call_entry_cong) simp
    then have "walk_result s ?x m (pre @ [(n, w)]) rest ?c = walk_result s x m pre (nw # rest) c"
      using True nw by (auto simp: walk_result_def put_sub_def)
    with runs_worker_trans [OF k j] show ?thesis by auto
  next
    case False
    let ?x = "x\<lparr>wpc := WWalk m (first_node rest), nodes := pre @ rest\<rparr>"
    let ?c = "put_sub s ?x c"
    have "moves c (Worker s) (put_sub s (x\<lparr>wpc := WWalk m (next_node n (nodes x)), nodes := erase_node n (nodes x)\<rparr>) c)"
      by (rule Prune) (use Cons.prems pc False in auto)
    then have k: "runs moves c (replicate 1 (Worker s)) ?c" using split(3) pc(3) Cons.prems(4) nw by (simp add: runs_step)
    have "\<exists>j. runs moves ?c (replicate j (Worker s)) (walk_result s ?x m pre rest ?c)"
      by (rule Cons.IH) (use Cons.prems nw in auto)
    then obtain j where j: "runs moves ?c (replicate j (Worker s)) (walk_result s ?x m pre rest ?c)" by blast
    have "call_entry ?c = call_entry c" by (rule call_entry_cong) simp
    then have "walk_result s ?x m pre rest ?c = walk_result s x m pre (nw # rest) c"
      using False nw by (auto simp: walk_result_def put_sub_def)
    with runs_worker_trans [OF k j] show ?thesis by (intro exI [of _ "1 + j"]) simp
  qed
qed

lemma map_filter_nodes: "map snd (filter (\<lambda>(n, w). P w) xs) = filter P (map snd xs)"
  by (induction xs) auto

text \<open>The whole turn on a message, from the top of the loop to the top of the loop.\<close>

lemma turn_runs:
  assumes "crashed c = None" and "sub c s = Some x" and "wpc x = WTop" and "msg_queue x = m # q"
    and "distinct (map fst (nodes x))" and "\<forall>w \<in> snd ` set (nodes x). (0 < crefs c w \<longrightarrow> obs c w \<noteq> None) \<and> w \<noteq> s"
  shows "\<exists>k c'. runs moves c (replicate k (Worker s)) c' \<and> c' = (put_sub s (x\<lparr>msg_queue := q, taken := taken x @ [m],
      nodes := (if m = [] then nodes x else filter (\<lambda>(n, w). 0 < crefs c w) (nodes x))\<rparr>) c)
    \<lparr>ccalls := ccalls c @ (if m \<noteq> [] \<and> 0 < crefs c s
       then concat (map (call_entry c s m) (filter (\<lambda>w. 0 < crefs c w) (map snd (nodes x)))) else [])\<rparr>"
proof -
  let ?x1 = "x\<lparr>msg_queue := q, wpc := (if m = [] then WTop else WTaken m), taken := taken x @ [m]\<rparr>"
  let ?c1 = "put_sub s ?x1 c"
  have "moves c (Worker s) ?c1" by (rule Take) (use assms in auto)
  then have r1: "runs moves c (replicate 1 (Worker s)) ?c1" by (simp add: runs_step)
  show ?thesis
  proof (cases "m = []")
    case True
    have "?c1 = (put_sub s (x\<lparr>msg_queue := q, taken := taken x @ [m], nodes := nodes x\<rparr>) c)\<lparr>ccalls := ccalls c\<rparr>"
      using assms(3) True by (cases x) (auto simp: put_sub_def)
    with True r1 show ?thesis by (intro exI [of _ "1::nat"] exI [of _ ?c1]) simp
  next
    case False
    let ?x2 = "?x1\<lparr>wpc := WWalk m (first_node (nodes x))\<rparr>"
    let ?c2 = "put_sub s ?x2 ?c1"
    have "moves ?c1 (Worker s) (put_sub s (?x1\<lparr>wpc := WWalk m (first_node (nodes ?x1))\<rparr>) ?c1)"
      by (rule Begin) (use assms False in auto)
    then have "moves ?c1 (Worker s) ?c2" by simp
    note r2 = runs_worker_step [OF r1 this]
    have "\<exists>k. runs moves ?c2 (replicate k (Worker s)) (walk_result s ?x2 m [] (nodes x) ?c2)"
      by (rule walk_runs) (use assms in auto)
    then obtain k where r3: "runs moves ?c2 (replicate k (Worker s)) (walk_result s ?x2 m [] (nodes x) ?c2)" by blast
    let ?c3 = "walk_result s ?x2 m [] (nodes x) ?c2"
    have "moves ?c3 (Worker s) (put_sub s ((?x2\<lparr>wpc := WWalk m End, nodes := filter (\<lambda>(n, w). 0 < crefs c w) (nodes x)\<rparr>)\<lparr>wpc := WTop\<rparr>) ?c3)"
      by (rule Finish) (use assms in \<open>auto simp: walk_result_def\<close>)
    note r4 = runs_worker_step [OF runs_worker_trans [OF r2 r3] this]
    have "call_entry ?c2 = call_entry c" by (rule call_entry_cong) simp
    then have "put_sub s ((?x2\<lparr>wpc := WWalk m End, nodes := filter (\<lambda>(n, w). 0 < crefs c w) (nodes x)\<rparr>)\<lparr>wpc := WTop\<rparr>) ?c3
      = (put_sub s (x\<lparr>msg_queue := q, taken := taken x @ [m], nodes := filter (\<lambda>(n, w). 0 < crefs c w) (nodes x)\<rparr>) c)
        \<lparr>ccalls := ccalls c @ (if 0 < crefs c s
          then concat (map (call_entry c s m) (filter (\<lambda>w. 0 < crefs c w) (map snd (nodes x)))) else [])\<rparr>"
      using assms(3) by (cases x) (auto simp: walk_result_def put_sub_def)
    with False r4 show ?thesis
      by (intro exI [of _ "Suc (Suc 1 + k)"] exI conjI [OF _ refl]) simp
  qed
qed

text \<open>\<open>create_message\<close> of a thread that nobody disturbs.\<close>

lemma message_runs:
  assumes "at_cmd t (CreateMessage s m) TReady c" and "sub c s = Some x" and "msg_mutex x = None"
  shows "runs moves c [Thread t, Thread t, Thread t, Thread t] (put_sub s (x\<lparr>cur_msg := m,
    msg_queue := msg_queue x @ [m], wpc := notified (wpc x), pushed := pushed x @ [(t, m)]\<rparr>) (done_cmd t c))"
proof -
  let ?x1 = "x\<lparr>msg_mutex := Some t\<rparr>" and ?x2 = "x\<lparr>msg_mutex := Some t, cur_msg := m\<rparr>"
  let ?x3 = "?x2\<lparr>msg_queue := msg_queue x @ [m], wpc := notified (wpc x), pushed := pushed x @ [(t, m)]\<rparr>"
  let ?c1 = "put_sub s ?x1 (go t TLocked c)" and ?c2 = "put_sub s ?x2 (go t TStored c)" and ?c3 = "put_sub s ?x3 (go t TQueued c)"
  obtain r where t: "t < length (thr c)" "thr c ! t = \<lparr>prog = CreateMessage s m # r, tpc = TReady\<rparr>" "crashed c = None"
    using at_cmdD [OF assms(1)] by auto
  have 1: "moves c (Thread t) ?c1" by (rule LockMsg) (use assms in auto)
  have "moves ?c1 (Thread t) (put_sub s (?x1\<lparr>cur_msg := m\<rparr>) (go t TStored ?c1))"
    by (rule Store) (use t in \<open>auto simp: at_cmd_def\<close>)
  moreover have "put_sub s (?x1\<lparr>cur_msg := m\<rparr>) (go t TStored ?c1) = ?c2"
    using t by (simp add: put_sub_def go_def)
  ultimately have 2: "moves ?c1 (Thread t) ?c2" by simp
  have "moves ?c2 (Thread t) (put_sub s (?x2\<lparr>msg_queue := msg_queue ?x2 @ [cur_msg ?x2], wpc := notified (wpc ?x2),
      pushed := pushed ?x2 @ [(t, cur_msg ?x2)]\<rparr>) (go t TQueued ?c2))"
    by (rule Push) (use t in \<open>auto simp: at_cmd_def\<close>)
  moreover have "put_sub s (?x2\<lparr>msg_queue := msg_queue ?x2 @ [cur_msg ?x2], wpc := notified (wpc ?x2),
      pushed := pushed ?x2 @ [(t, cur_msg ?x2)]\<rparr>) (go t TQueued ?c2) = ?c3"
    using t by (simp add: put_sub_def go_def)
  ultimately have 3: "moves ?c2 (Thread t) ?c3" by simp
  have "moves ?c3 (Thread t) (put_sub s (?x3\<lparr>msg_mutex := None\<rparr>) (done_cmd t ?c3))"
    by (rule UnlockMsg) (use t in \<open>auto simp: at_cmd_def\<close>)
  moreover have "put_sub s (?x3\<lparr>msg_mutex := None\<rparr>) (done_cmd t ?c3) = put_sub s (x\<lparr>cur_msg := m,
      msg_queue := msg_queue x @ [m], wpc := notified (wpc x), pushed := pushed x @ [(t, m)]\<rparr>) (done_cmd t c)"
    using t assms(3) by (cases x) (simp add: put_sub_def go_def done_cmd_def)
  ultimately have 4: "moves ?c3 (Thread t) (put_sub s (x\<lparr>cur_msg := m,
      msg_queue := msg_queue x @ [m], wpc := notified (wpc x), pushed := pushed x @ [(t, m)]\<rparr>) (done_cmd t c))" by simp
  from runs_trans [OF runs_two [where R = moves, OF 1 2] runs_two [where R = moves, OF 3 4]] show ?thesis by simp
qed

text \<open>What the queue's account says of a reachable state.\<close>

lemma runs_queue:
  assumes "begins ps c0" and "runs moves c0 as c" and "sub c s = Some x"
  shows "map snd (pushed x) = taken x @ msg_queue x" and "i \<in> fst ` set (pushed x) \<Longrightarrow> i < length ps"
    and "length (thr c) = length ps" and "i < length ps \<Longrightarrow> thread_ok (ps ! i) s x i (thr c ! i)"
proof -
  have "queue_inv ps c" using assms(1,2) by (rule runs_queue_inv)
  with assms(3) have "queue_ok ps x" "\<And>i. i < length ps \<Longrightarrow> thread_ok (ps ! i) s x i (thr c ! i)" "length (thr c) = length ps"
    by (simp_all add: queue_inv_def)
  then show "map snd (pushed x) = taken x @ msg_queue x" "i \<in> fst ` set (pushed x) \<Longrightarrow> i < length ps"
    "length (thr c) = length ps" "i < length ps \<Longrightarrow> thread_ok (ps ! i) s x i (thr c ! i)"
    by (auto simp: queue_ok_def)
qed

lemma runs_sent:
  assumes "begins ps c0" and "runs moves c0 as c" and "sub c s = Some x" and "i < length ps"
  shows "sent s (ps ! i) = by_thread i (pushed x) @ sent s (unsent (thr c ! i))"
    and "prog (thr c ! i) = [] \<Longrightarrow> unsent (thr c ! i) = []"
  using runs_queue(4) [OF assms] by (auto simp: thread_ok_def unsent_def)

section \<open>Properties\<close>

text \<open>The sequential \<open>create_message\<close> is a run of the machine: a thread that nobody disturbs locks the
  mutex, writes the message, queues it and unlocks, and the state it reaches is the one the
  sequential operation gives.\<close>

theorem create_message_is_a_run:
  assumes "at_cmd t (CreateMessage s m) TReady c" and "s \<noteq> 0" and "sub c s = Some x" and "msg_mutex x = None"
  shows "\<exists>c'. runs moves c [Thread t, Thread t, Thread t, Thread t] c' \<and> create_message s m (seq c) = Inr (seq c')
    \<and> thr c' = thr (done_cmd t c)"
proof -
  let ?c' = "put_sub s (x\<lparr>cur_msg := m, msg_queue := msg_queue x @ [m], wpc := notified (wpc x),
    pushed := pushed x @ [(t, m)]\<rparr>) (done_cmd t c)"
  have "create_message s m (seq c) = Inr (seq ?c')"
    using assms(2,3) by (simp add: create_message_def notify_def put_subject_def seq_def seq_subject_def fun_eq_iff)
  with message_runs [OF assms(1,3,4)] show ?thesis by (intro exI [of _ ?c']) simp
qed

text \<open>C17: The sequential turn of the worker is a run of the machine: when nobody else moves, the steps of
  the worker of \<open>s\<close> from the top of its loop, through a walk over the linked list with its iterator,
  reference counts and pruning, lead back to the top of the loop and to the state that the
  sequential \<open>worker_turn\<close> gives.\<close>

theorem worker_turn_is_a_run:
  assumes "crashed c = None" and "s \<noteq> 0" and "sub c s = Some x" and "wpc x = WTop" and "msg_queue x = m # q"
    and "distinct (map fst (nodes x))"
    and "\<forall>w \<in> snd ` set (nodes x). (0 < crefs c w \<longrightarrow> w \<noteq> 0 \<and> obs c w \<noteq> None) \<and> w \<noteq> s"
  shows "\<exists>k c'. runs moves c (replicate k (Worker s)) c' \<and> worker_turn s (seq c) = Inr (Handled, seq c')
    \<and> map_option wpc (sub c' s) = Some WTop"
proof -
  let ?c' = "(put_sub s (x\<lparr>msg_queue := q, taken := taken x @ [m],
      nodes := (if m = [] then nodes x else filter (\<lambda>(n, w). 0 < crefs c w) (nodes x))\<rparr>) c)
    \<lparr>ccalls := ccalls c @ (if m \<noteq> [] \<and> 0 < crefs c s
       then concat (map (call_entry c s m) (filter (\<lambda>w. 0 < crefs c w) (map snd (nodes x)))) else [])\<rparr>"
  have "\<exists>k c'. runs moves c (replicate k (Worker s)) c' \<and> c' = ?c'"
    by (rule turn_runs) (use assms in auto)
  then obtain k where k: "runs moves c (replicate k (Worker s)) ?c'" by blast
  have live: "live w (seq c) = (0 < crefs c w)" for w by (simp add: live_def)
  have calls: "calls_for (seq c) s ws m = map plain_call (if m \<noteq> [] \<and> 0 < crefs c s
      then concat (map (call_entry c s m) (filter (\<lambda>w. 0 < crefs c w) ws)) else [])" for ws
    by (simp add: seq_call_fun calls_for_def live map_concat comp_def)
  have "observers_exist (observers (seq_subject x)) (seq c)"
    using assms(7) by (auto simp: observers_exist_def live seq_subject_def)
  from worker_turn_eq [OF assms(2) _ this, of m q] assms(3,5)
  have "worker_turn s (seq c) = Inr (Handled, (put_subject s ((seq_subject x)\<lparr>notification_queue := q,
      observers := (if m = [] then map snd (nodes x) else filter (\<lambda>w. 0 < crefs c w) (map snd (nodes x)))\<rparr>) (seq c))
      \<lparr>calls := calls (seq c) @ calls_for (seq c) s (map snd (nodes x)) m\<rparr>)"
    by (simp add: seq_subject_def live)
  also have "(put_subject s ((seq_subject x)\<lparr>notification_queue := q,
      observers := (if m = [] then map snd (nodes x) else filter (\<lambda>w. 0 < crefs c w) (map snd (nodes x)))\<rparr>) (seq c))
      \<lparr>calls := calls (seq c) @ calls_for (seq c) s (map snd (nodes x)) m\<rparr> = seq ?c'"
    using assms(3) by (simp add: seq_def put_subject_def seq_subject_def calls [unfolded seq_def] map_filter_nodes fun_eq_iff)
  finally show ?thesis using k assms(4) by (intro exI [of _ k] exI [of _ ?c'] conjI) simp_all
qed

text \<open>C16: Messages are neither lost, nor made up, nor mixed: in every state that a program of any number
  of threads can reach, at most one thread is inside \<open>create_message\<close> of a subject; what was queued
  is what the worker has taken followed by what is still queued, in this order; it was queued by
  threads of the program; and each thread has queued a beginning of the messages of its program,
  in its order, which is all of them once it has ended.\<close>

theorem messages_in_order:
  assumes "begins ps c0" and "runs moves c0 as c" and "sub c s = Some x"
  shows "map snd (pushed x) = taken x @ msg_queue x \<and> (\<forall>i \<in> fst ` set (pushed x). i < length ps)
    \<and> (\<forall>i < length ps. \<exists>later. sent s (ps ! i) = by_thread i (pushed x) @ later
        \<and> (prog (thr c ! i) = [] \<longrightarrow> later = []))
    \<and> (\<forall>i < length ps. \<forall>j < length ps. in_message s (thr c ! i) \<and> in_message s (thr c ! j) \<longrightarrow> i = j)"
proof -
  note q = runs_queue [OF assms] and r = runs_sent [OF assms]
  have "\<exists>later. sent s (ps ! i) = by_thread i (pushed x) @ later \<and> (prog (thr c ! i) = [] \<longrightarrow> later = [])"
    if "i < length ps" for i
    using r [OF that] by (intro exI [of _ "sent s (unsent (thr c ! i))"]) simp
  moreover have "i = j" if "i < length ps" "j < length ps" "in_message s (thr c ! i)" "in_message s (thr c ! j)" for i j
    using q(4) [OF that(1)] q(4) [OF that(2)] that(3,4) by (simp add: thread_ok_def)
  ultimately show ?thesis using q(1,2) by blast
qed


section \<open>What other programs can run into\<close>

text \<open>An observer that leaves while it is being notified crashes the worker: \<open>detach\<close> takes no lock, so
  when \<open>remove_self\<close> of the observer at whose node the worker stands runs between the call of its
  callback and \<open>++it\<close>, the node is freed under the iterator.\<close>

theorem detach_during_walk_dangles:
  assumes "sub c s = Some x" and "wpc x = WAdvance m n w" and "nodes x = pre @ (n, w) # post"
    and "distinct (map fst (nodes x))" and "w \<notin> snd ` set pre" and "at_cmd t (RemoveSelf w) TReady c"
    and "obs c w = Some y" and "callback_map y = (s, cb) # r" and "0 < crefs c s" and "0 < crefs c w"
  shows "\<exists>c'. runs moves c [Thread t, Worker s] c' \<and> crashed c' = Some UseAfterFree"
proof -
  have er: "erase_first (\<lambda>(k, v). 0 < crefs c v \<and> 0 < crefs c w \<and> v = w) (nodes x) = pre @ post"
    using assms(5,10) unfolding assms(3) by (induction pre) auto
  let ?c1 = "put_obs w (y\<lparr>callback_map := r\<rparr>) (detach_node s w c)"
  have "moves c (Thread t) ?c1" using assms(6-8) by (rule RemoveOne)
  moreover have "crashed ?c1 = None" "sub ?c1 s = Some (x\<lparr>nodes := pre @ post\<rparr>)"
    using assms(1,9) at_cmdD(3) [OF assms(6)] er by (simp_all add: detach_node_def)
  moreover have "n \<notin> fst ` set (pre @ post)" using assms(4) unfolding assms(3) by auto
  then have "map_of (pre @ post) n = None" by (simp only: map_of_eq_None_iff not_False_eq_True)
  ultimately have "moves ?c1 (Worker s) (crash_with UseAfterFree ?c1)"
    using assms(2) by (intro AdvanceFreed [where x = "x\<lparr>nodes := pre @ post\<rparr>"]) auto
  with runs_two [where R = moves, OF \<open>moves c (Thread t) ?c1\<close> this] show ?thesis by auto
qed

text \<open>A subject can be destroyed by its own worker: when the last reference held outside goes while a
  callback runs, the reference that \<open>shared_from_this()\<close> made for the call is the last one, and the
  destructor that runs after the call joins the thread it runs in.\<close>

theorem worker_joins_itself:
  assumes "sub c s = Some x" and "wpc x = WInCall m n w" and "obs c w = Some y"
    and "at_cmd t (ReleaseSubject s) TReady c" and "crefs c s = 2"
  shows "\<exists>c'. runs moves c [Thread t, Worker s] c' \<and> crashed c' = Some SelfJoin"
proof -
  let ?c1 = "set_refs s 1 (done_cmd t c)"
  have "moves c (Thread t) ?c1" using DropSubject [OF assms(4,1)] assms(5) by simp
  moreover have "moves ?c1 (Worker s) (crash_with SelfJoin (record_call s w m y ?c1))"
    by (rule LastReference) (use assms at_cmdD(3) [OF assms(4)] in auto)
  ultimately show ?thesis using runs_two [where R = moves] by (metis crash_with_frame(6))
qed

section \<open>Examples\<close>

text \<open>The state with which threads start, on the heap that the sequential operations have built.\<close>

definition with_threads :: "'cb cmd list list \<Rightarrow> 'cb patterns \<Rightarrow> 'cb cstate" where
  "with_threads ps m = \<lparr>sub = (\<lambda>s. map_option (\<lambda>sb. \<lparr>nodes = zip [0..<length (observers sb)] (observers sb),
       fresh_node = length (observers sb), cur_msg = current_message sb, msg_queue = notification_queue sb,
       shut = shutdown_flag sb, msg_mutex = None, wpc = WTop, pushed = [], taken = []\<rparr>) (subject_at m s)),
     obs = observer_at m, crefs = refs m, thr = map (\<lambda>p. \<lparr>prog = p, tpc = TReady\<rparr>) ps, ccalls = [], crashed = None\<rparr>"

lemma seq_with_threads: "calls m = [] \<Longrightarrow> seq (with_threads ps m) = m"
proof -
  have sur: "\<lparr>observers = observers x, current_message = current_message x, notification_queue = notification_queue x,
      shutdown_flag = shutdown_flag x\<rparr> = x" for x by simp
  show "calls m = [] \<Longrightarrow> seq (with_threads ps m) = m"
    by (cases m) (simp add: sur seq_def with_threads_def seq_subject_def fun_eq_iff option.map_comp comp_def option.map_ident)
qed

lemma begins_with_threads:
  assumes "\<And>s sb. subject_at m s = Some sb \<Longrightarrow> notification_queue sb = [] \<and> \<not> shutdown_flag sb"
  shows "begins ps (with_threads ps m)"
  using assms by (auto simp: begins_def with_threads_def dest!: set_zip_leftD)

text \<open>Subject 1 with observer 2, whose callback for it is 7.\<close>

definition small_start :: "nat cmd list list \<Rightarrow> nat cstate" where
  "small_start ps = with_threads ps \<lparr>refs = (\<lambda>_. 0)(1 := 1, 2 := 1),
     subject_at = [1 \<mapsto> \<lparr>observers = [2], current_message = [], notification_queue = [], shutdown_flag = False\<rparr>],
     observer_at = [2 \<mapsto> \<lparr>callback_map = [(1, 7)], ob_name = ''o''\<rparr>], calls = []\<rparr>"

definition small_program :: "nat cmd list list" where
  "small_program = [[CreateMessage 1 ''hi'']]"

lemma small_begins: "begins small_program (small_start small_program)"
  unfolding small_start_def by (rule begins_with_threads) (auto split: if_splits)

text \<open>The whole run of that program.\<close>

lemma small_run:
  "\<exists>c x. runs moves (small_start small_program) (replicate 4 (Thread 0) @ replicate 8 (Worker 1)) c
    \<and> sub c 1 = Some x \<and> (\<forall>s. sub c s \<noteq> None \<longrightarrow> s = 1) \<and> wpc x = WBlocked \<and> msg_queue x = [] \<and> pushed x = [(0, ''hi'')] \<and> thr c = [\<lparr>prog = [], tpc = TReady\<rparr>]"
proof -
  have "\<exists>c. run_all move_next (small_start small_program) (replicate 4 (Thread 0) @ replicate 8 (Worker 1)) = Some c
    \<and> (\<exists>x. sub c 1 = Some x \<and> (\<forall>s. sub c s \<noteq> None \<longrightarrow> s = 1) \<and> wpc x = WBlocked \<and> msg_queue x = [] \<and> pushed x = [(0, ''hi'')]
      \<and> thr c = [\<lparr>prog = [], tpc = TReady\<rparr>])"
    by (simp add: eval_nat_numeral small_start_def small_program_def with_threads_def move_defs)
  then show ?thesis using move_runs by blast
qed

theorem messages_in_order_witness:
  "\<exists>c x. runs moves (small_start small_program) (replicate 4 (Thread 0) @ replicate 8 (Worker 1)) c \<and> sub c 1 = Some x
    \<and> taken x @ msg_queue x = [''hi''] \<and> by_thread 0 (pushed x) = [''hi'']"
proof -
  obtain c x where c: "runs moves (small_start small_program) (replicate 4 (Thread 0) @ replicate 8 (Worker 1)) c"
    "sub c 1 = Some x" "pushed x = [(0, ''hi'')]" "thr c = [\<lparr>prog = [], tpc = TReady\<rparr>]" using small_run by blast
  from messages_in_order [OF small_begins c(1,2)] c(3,4) have "taken x @ msg_queue x = [''hi'']" "by_thread 0 (pushed x) = [''hi'']"
    by (auto simp: small_program_def)
  with c(1,2) show ?thesis by blast
qed

theorem create_message_is_a_run_witness:
  "\<exists>c'. runs moves (small_start small_program) [Thread 0, Thread 0, Thread 0, Thread 0] c'
    \<and> create_message 1 ''hi'' (seq (small_start small_program)) = Inr (seq c')"
proof -
  have "\<exists>x. sub (small_start small_program) 1 = Some x \<and> msg_mutex x = None"
    by (simp add: small_start_def with_threads_def)
  then obtain x where "sub (small_start small_program) 1 = Some x" "msg_mutex x = None" by blast
  from create_message_is_a_run [OF _ _ this, of 0 "''hi''"] show ?thesis
    by (auto simp: at_cmd_def small_start_def small_program_def with_threads_def)
qed

text \<open>The same heap with a message in the queue, and with the worker in the middle of its walk.\<close>

definition small_subject :: "worker_pc \<Rightarrow> string list \<Rightarrow> csubject" where
  "small_subject p q = \<lparr>nodes = [(0, 2)], fresh_node = 1, cur_msg = ''hi'', msg_queue = q, shut = False,
     msg_mutex = None, wpc = p, pushed = [], taken = []\<rparr>"

definition small_state :: "worker_pc \<Rightarrow> string list \<Rightarrow> nat \<Rightarrow> nat cmd list list \<Rightarrow> nat cstate" where
  "small_state p q k ps = \<lparr>sub = [1 \<mapsto> small_subject p q], obs = [2 \<mapsto> \<lparr>callback_map = [(1, 7)], ob_name = ''o''\<rparr>],
     crefs = (\<lambda>_. 0)(1 := k, 2 := 2), thr = map (\<lambda>p. \<lparr>prog = p, tpc = TReady\<rparr>) ps, ccalls = [], crashed = None\<rparr>"

lemma small_simps [simp]:
  "crashed (small_state p q k ps) = None" "sub (small_state p q k ps) (Suc 0) = Some (small_subject p q)"
  "obs (small_state p q k ps) 2 = Some \<lparr>callback_map = [(1, 7)], ob_name = ''o''\<rparr>"
  "crefs (small_state p q k ps) (Suc 0) = k" "crefs (small_state p q k ps) 2 = 2"
  "at_cmd 0 cm TReady (small_state p q k [[cm]])"
  "wpc (small_subject p q) = p" "msg_queue (small_subject p q) = q" "nodes (small_subject p q) = [(0, 2)]"
  by (simp_all add: small_state_def small_subject_def at_cmd_def)

theorem worker_turn_is_a_run_witness:
  "\<exists>k c'. runs moves (small_state WTop [''hi''] 1 []) (replicate k (Worker 1)) c'
    \<and> worker_turn 1 (seq (small_state WTop [''hi''] 1 [])) = Inr (Handled, seq c')"
  using worker_turn_is_a_run [of "small_state WTop [''hi''] 1 []" 1 "small_subject WTop [''hi'']" "''hi''" "[]"]
  by fastforce

theorem detach_during_walk_dangles_witness:
  "\<exists>c'. runs moves (small_state (WAdvance ''hi'' 0 2) [] 1 [[RemoveSelf 2]]) [Thread 0, Worker 1] c' \<and> crashed c' = Some UseAfterFree"
  using detach_during_walk_dangles [of "small_state (WAdvance ''hi'' 0 2) [] 1 [[RemoveSelf 2]]" 1
      "small_subject (WAdvance ''hi'' 0 2) []" "''hi''" 0 2 "[]" "[]" 0 "\<lparr>callback_map = [(1, 7)], ob_name = ''o''\<rparr>" 7 "[]"]
  by simp

theorem worker_joins_itself_witness:
  "\<exists>c'. runs moves (small_state (WInCall ''hi'' 0 2) [] 2 [[ReleaseSubject 1]]) [Thread 0, Worker 1] c' \<and> crashed c' = Some SelfJoin"
  using worker_joins_itself [of "small_state (WInCall ''hi'' 0 2) [] 2 [[ReleaseSubject 1]]" 1
      "small_subject (WInCall ''hi'' 0 2) []" "''hi''" 0 2 "\<lparr>callback_map = [(1, 7)], ob_name = ''o''\<rparr>" 0]
  by simp


end
