(* ===== verification/Muduo_Chat.thy ===== *)
theory Muduo_Chat
  imports Muduo_Delivery
begin

text \<open>
  Programs of threads that send messages to subjects and join each other, on the machine of
  \<open>Muduo_Delivery\<close>: no run of such a program uses anything freed, every message is delivered to
  every live observer in order, and every run ends.
\<close>

section \<open>Programs that only send messages\<close>

text \<open>The nodes from an iterator on.\<close>

fun from_iter :: "iter \<Rightarrow> (nat \<times> ptr) list \<Rightarrow> (nat \<times> ptr) list" where
  "from_iter End xs = []"
| "from_iter (At n) xs = dropWhile (\<lambda>(k, w). k \<noteq> n) xs"

text \<open>The observers a worker has still to visit for the message in hand, and that message.\<close>

fun ahead :: "worker_pc \<Rightarrow> (nat \<times> ptr) list \<Rightarrow> (nat \<times> ptr) list" where
  "ahead (WTaken m) xs = xs"
| "ahead (WWalk m it) xs = from_iter it xs"
| "ahead (WLocked m n w) xs = from_iter (At n) xs"
| "ahead (WInCall m n w) xs = from_iter (At n) xs"
| "ahead (WAdvance m n w) xs = from_iter (next_node n xs) xs"
| "ahead _ xs = []"

fun in_hand :: "worker_pc \<Rightarrow> string" where
  "in_hand (WTaken m) = m"
| "in_hand (WWalk m it) = m"
| "in_hand (WLocked m n w) = m"
| "in_hand (WInCall m n w) = m"
| "in_hand (WAdvance m n w) = m"
| "in_hand _ = []"

text \<open>Where a worker can be in a list: at a node that is there, and at the observer of that node.\<close>

fun placed :: "(ptr \<Rightarrow> bool) \<Rightarrow> worker_pc \<Rightarrow> (nat \<times> ptr) list \<Rightarrow> bool" where
  "placed A (WWalk m (At n)) xs = (map_of xs n \<noteq> None)"
| "placed A (WLocked m n w) xs = (map_of xs n = Some w \<and> A w)"
| "placed A (WInCall m n w) xs = (map_of xs n = Some w \<and> A w)"
| "placed A (WAdvance m n w) xs = (map_of xs n = Some w \<and> A w)"
| "placed A _ xs = True"

text \<open>\<open>A\<close>: the observer is alive; \<open>E\<close>: the calls an observer makes for a message; \<open>L\<close>: the observers.\<close>

definition walk_ok :: "(ptr \<Rightarrow> bool) \<Rightarrow> (string \<Rightarrow> ptr \<Rightarrow> 'e list) \<Rightarrow> ptr list \<Rightarrow> csubject \<Rightarrow> 'e list \<Rightarrow> bool" where
  "walk_ok A E L x l \<longleftrightarrow> distinct (map fst (nodes x)) \<and> filter A (map snd (nodes x)) = L \<and> \<not> shut x
     \<and> placed A (wpc x) (nodes x) \<and> wpc x \<noteq> WReturned \<and> (wpc x = WBlocked \<longrightarrow> msg_queue x = [])
     \<and> (ahead (wpc x) (nodes x) \<noteq> [] \<longrightarrow> in_hand (wpc x) \<noteq> [])
     \<and> l @ concat (map (E (in_hand (wpc x))) (filter A (map snd (ahead (wpc x) (nodes x)))))
       = concat (map (\<lambda>m. concat (map (E m) L)) (filter (\<lambda>m. m \<noteq> []) (taken x)))"

lemma from_iter_at:
  assumes "distinct (map fst (pre @ (n, w) # rest))"
  shows "from_iter (At n) (pre @ (n, w) # rest) = (n, w) # rest"
proof -
  have "n \<notin> fst ` set pre" using assms by auto
  then have "dropWhile (\<lambda>(k, w). k \<noteq> n) pre = []" by (force simp: dropWhile_eq_Nil_conv)
  then show ?thesis by (simp add: dropWhile_append3 dropWhile_eq_Nil_conv)
qed

lemma from_iter_next:
  assumes "distinct (map fst (pre @ rest))"
  shows "from_iter (first_node rest) (pre @ rest) = rest"
proof (cases rest)
  case (Cons nw r)
  then show ?thesis using from_iter_at [of pre "fst nw" "snd nw" r] assms by (cases nw) simp
qed simp

lemma at_node:
  assumes "distinct (map fst xs)" and "map_of xs n = Some w"
  obtains pre rest where "xs = pre @ (n, w) # rest" and "from_iter (At n) xs = (n, w) # rest"
    and "next_node n xs = first_node rest" and "from_iter (first_node rest) xs = rest"
    and "erase_node n xs = pre @ rest" and "from_iter (first_node rest) (pre @ rest) = rest"
proof -
  from map_of_SomeD [OF assms(2)] obtain pre rest where xs: "xs = pre @ (n, w) # rest" by (auto dest: split_list)
  with assms(1) have d: "distinct (map fst (pre @ (n, w) # rest))" by simp
  then have "distinct (map fst ((pre @ [(n, w)]) @ rest))" "distinct (map fst (pre @ rest))" by auto
  from that [OF xs] from_iter_at [OF d] next_node_split [OF d] from_iter_next [OF this(1)] from_iter_next [OF this(2)]
  show ?thesis using xs by simp
qed

lemma ahead_notified [simp]: "ahead (notified p) xs = ahead p xs" "in_hand (notified p) = in_hand p"
  "placed A (notified p) xs = placed A p xs" "notified p \<noteq> WBlocked" "notified p = WReturned \<longleftrightarrow> p = WReturned"
  by (cases p; simp)+

lemma walk_ok_push:
  "walk_ok A E L x l \<Longrightarrow> walk_ok A E L (x\<lparr>msg_queue := q, wpc := notified (wpc x), pushed := ps\<rparr>) l"
  by (simp add: walk_ok_def)

lemma walk_ok_take:
  "walk_ok A E L x l \<Longrightarrow> wpc x = WTop \<Longrightarrow>
    walk_ok A E L (x\<lparr>msg_queue := q, wpc := (if m = [] then WTop else WTaken m), taken := taken x @ [m]\<rparr>) l"
  by (auto simp: walk_ok_def)

lemma walk_ok_idle:
  "walk_ok A E L x l \<Longrightarrow> wpc x \<in> {WTop, WBlocked, WWalk m End} \<Longrightarrow> p \<in> {WTop, WBlocked} \<Longrightarrow>
    (p = WBlocked \<longrightarrow> msg_queue x = []) \<Longrightarrow> walk_ok A E L (x\<lparr>wpc := p\<rparr>) l"
  by (auto simp: walk_ok_def)

lemma walk_ok_begin:
  assumes "walk_ok A E L x l" and "wpc x = WTaken m"
  shows "walk_ok A E L (x\<lparr>wpc := WWalk m (first_node (nodes x))\<rparr>) l"
proof -
  have d: "distinct (map fst (nodes x))" using assms(1) by (simp add: walk_ok_def)
  have "placed A (WWalk m (first_node (nodes x))) (nodes x)" by (cases "nodes x") auto
  with assms from_iter_next [of "[]" "nodes x"] d show ?thesis by (auto simp: walk_ok_def)
qed

lemma walk_ok_at:
  assumes "walk_ok A E L x l" and "wpc x = WWalk m (At n)" and "map_of (nodes x) n = Some w" and "A w"
  shows "walk_ok A E L (x\<lparr>wpc := WLocked m n w\<rparr>) l"
  using assms by (simp add: walk_ok_def)

lemma walk_ok_prune:
  assumes "walk_ok A E L x l" and "wpc x = WWalk m (At n)" and "map_of (nodes x) n = Some w" and "\<not> A w"
  shows "walk_ok A E L (x\<lparr>wpc := WWalk m (next_node n (nodes x)), nodes := erase_node n (nodes x)\<rparr>) l"
proof -
  have d: "distinct (map fst (nodes x))" using assms(1) by (simp add: walk_ok_def)
  from at_node [OF d assms(3)] obtain pre rest where
    n: "nodes x = pre @ (n, w) # rest" "from_iter (At n) (nodes x) = (n, w) # rest" "next_node n (nodes x) = first_node rest"
      "erase_node n (nodes x) = pre @ rest" "from_iter (first_node rest) (pre @ rest) = rest" by blast
  have "placed A (WWalk m (first_node rest)) (pre @ rest)"
    by (cases rest) (auto simp: map_of_eq_None_iff map_add_def split: option.split)
  with assms n d show ?thesis by (auto simp: walk_ok_def)
qed

lemma walk_ok_inside:
  assumes "walk_ok A E L x l" and "wpc x = WLocked m n w"
  shows "walk_ok A E L (x\<lparr>wpc := WInCall m n w\<rparr>) l"
  using assms by (simp add: walk_ok_def)

lemma walk_ok_called:
  assumes "walk_ok A E L x l" and "wpc x = WInCall m n w"
  shows "walk_ok A E L (x\<lparr>wpc := WAdvance m n w\<rparr>) (l @ E m w)"
proof -
  have d: "distinct (map fst (nodes x))" "map_of (nodes x) n = Some w" "A w" using assms by (simp_all add: walk_ok_def)
  from at_node [OF d(1,2)] obtain rest where
    "from_iter (At n) (nodes x) = (n, w) # rest" "next_node n (nodes x) = first_node rest"
    "from_iter (first_node rest) (nodes x) = rest" by blast
  with assms d(3) show ?thesis by (auto simp: walk_ok_def)
qed

lemma walk_ok_advance:
  assumes "walk_ok A E L x l" and "wpc x = WAdvance m n w"
  shows "walk_ok A E L (x\<lparr>wpc := WWalk m (next_node n (nodes x))\<rparr>) l"
proof -
  have d: "distinct (map fst (nodes x))" "map_of (nodes x) n = Some w" using assms by (simp_all add: walk_ok_def)
  from at_node [OF d] obtain pre rest where
    n: "nodes x = pre @ (n, w) # rest" "next_node n (nodes x) = first_node rest" by metis
  have "placed A (WWalk m (first_node rest)) (pre @ (n, w) # rest)"
    by (cases rest) (auto simp: map_of_eq_None_iff map_add_def split: option.split)
  with assms n show ?thesis by (auto simp: walk_ok_def)
qed


text \<open>Commands that send a message or wait for other threads; \<open>D\<close> is the set of subjects.\<close>

fun chats :: "ptr set \<Rightarrow> 'cb cmd \<Rightarrow> bool" where
  "chats D (CreateMessage s m) = (s \<in> D)"
| "chats D (JoinThreads ts) = True"
| "chats D _ = False"

definition chatting :: "ptr set \<Rightarrow> 'cb thr \<Rightarrow> bool" where
  "chatting D th \<longleftrightarrow> list_all (chats D) (prog th) \<and> tpc th \<in> {TReady, TLocked, TStored, TQueued}
     \<and> (tpc th \<noteq> TReady \<longrightarrow> (case prog th of CreateMessage s m # _ \<Rightarrow> True | _ \<Rightarrow> False))"

text \<open>A program of such commands in which every subject is shared and every live observer exists.\<close>

definition chat :: "'cb cmd list list \<Rightarrow> 'cb cstate \<Rightarrow> bool" where
  "chat ps c \<longleftrightarrow> begins ps c \<and> finite (dom (sub c)) \<and> list_all (list_all (chats (dom (sub c)))) ps
     \<and> (\<forall>s x. sub c s = Some x \<longrightarrow> 0 < crefs c s
          \<and> (\<forall>w \<in> snd ` set (nodes x). (0 < crefs c w \<longrightarrow> obs c w \<noteq> None) \<and> sub c w = None))"

text \<open>The references that the worker of \<open>s\<close> holds to \<open>p\<close>.\<close>

fun held :: "ptr \<Rightarrow> ptr \<Rightarrow> worker_pc \<Rightarrow> nat" where
  "held p s (WLocked m n w) = (if w = p then 1 else 0)"
| "held p s (WInCall m n w) = (if w = p then 1 else 0) + (if s = p then 1 else 0)"
| "held p s (WAdvance m n w) = (if w = p then 1 else 0)"
| "held p s _ = 0"

definition held_by :: "ptr \<Rightarrow> 'cb cstate \<Rightarrow> ptr \<Rightarrow> nat" where
  "held_by p c s = (case sub c s of None \<Rightarrow> 0 | Some x \<Rightarrow> held p s (wpc x))"

definition listeners :: "'cb cstate \<Rightarrow> ptr \<Rightarrow> ptr list" where
  "listeners c s = (case sub c s of None \<Rightarrow> [] | Some x \<Rightarrow> filter (\<lambda>w. 0 < crefs c w) (map snd (nodes x)))"

definition calls_of :: "ptr \<Rightarrow> (ptr \<times> ptr \<times> 'cb \<times> string) list \<Rightarrow> (ptr \<times> ptr \<times> 'cb \<times> string) list" where
  "calls_of s l = filter (\<lambda>(r, e). r = s) l"

definition chat_inv :: "'cb cstate \<Rightarrow> 'cb cstate \<Rightarrow> bool" where
  "chat_inv c0 c \<longleftrightarrow> crashed c = None \<and> dom (sub c) = dom (sub c0) \<and> obs c = obs c0
     \<and> list_all (chatting (dom (sub c0))) (thr c)
     \<and> (\<forall>p. crefs c p = crefs c0 p + (\<Sum>s \<in> dom (sub c0). held_by p c s))
     \<and> (\<forall>s x. sub c s = Some x \<longrightarrow> set (nodes x) \<subseteq> set (nodes (the (sub c0 s)))
          \<and> walk_ok (\<lambda>w. 0 < crefs c0 w) (call_entry c0 s) (listeners c0 s) x (calls_of s (ccalls c)))"

lemma chat_inv_start:
  assumes "chat ps c0"
  shows "chat_inv c0 c0"
proof -
  have b: "begins ps c0" using assms by (simp add: chat_def)
  have "list_all (chatting (dom (sub c0))) (thr c0)"
    using assms b by (auto simp: chat_def begins_def chatting_def list_all_iff)
  moreover have "held_by p c0 s = 0" for p s
    using b by (auto simp: held_by_def begins_def split: option.split)
  moreover have "walk_ok (\<lambda>w. 0 < crefs c0 w) (call_entry c0 s) (listeners c0 s) x (calls_of s (ccalls c0))"
    if "sub c0 s = Some x" for s x
    using b that by (auto simp: walk_ok_def begins_def listeners_def calls_of_def)
  ultimately show ?thesis using b by (auto simp: chat_inv_def begins_def)
qed

lemma held_sum:
  assumes "finite D" and "s \<in> D" and "sub c s = Some x" and "sub c' = (sub c)(s \<mapsto> x')"
  shows "(\<Sum>r \<in> D. held_by p c' r) + held p s (wpc x) = (\<Sum>r \<in> D. held_by p c r) + held p s (wpc x')"
proof -
  have "(\<Sum>r \<in> D - {s}. held_by p c' r) = (\<Sum>r \<in> D - {s}. held_by p c r)"
    by (rule sum.cong) (auto simp: held_by_def assms(4))
  then show ?thesis
    using sum.remove [OF assms(1,2), of "held_by p c'"] sum.remove [OF assms(1,2), of "held_by p c"] assms(3,4)
    by (simp add: held_by_def)
qed

lemma held_le:
  assumes "chat_inv c0 c" and "finite (dom (sub c0))" and "sub c s = Some x"
  shows "crefs c0 p + held p s (wpc x) \<le> crefs c p"
proof -
  have "s \<in> dom (sub c0)" using assms(1,3) by (auto simp: chat_inv_def)
  from member_le_sum [OF this _ assms(2), of "held_by p c"] assms(1,3) show ?thesis
    by (simp add: chat_inv_def held_by_def)
qed

text \<open>A step that changes subject \<open>s\<close>, the references its worker holds and its calls.\<close>

lemma chat_inv_sub:
  assumes "chat_inv c0 c" and "finite (dom (sub c0))" and "sub c s = Some x" and "sub c' = (sub c)(s \<mapsto> x')"
    and "crashed c' = None" and "obs c' = obs c" and "list_all (chatting (dom (sub c0))) (thr c')"
    and "\<And>p. crefs c' p + held p s (wpc x) = crefs c p + held p s (wpc x')"
    and "set (nodes x') \<subseteq> set (nodes x)" and "ccalls c' = ccalls c @ l" and "\<forall>e \<in> set l. fst e = s"
    and "walk_ok (\<lambda>w. 0 < crefs c0 w) (call_entry c0 s) (listeners c0 s) x (calls_of s (ccalls c)) \<Longrightarrow>
      walk_ok (\<lambda>w. 0 < crefs c0 w) (call_entry c0 s) (listeners c0 s) x' (calls_of s (ccalls c) @ l)"
  shows "chat_inv c0 c'"
proof -
  note inv = assms(1) [unfolded chat_inv_def]
  have D: "s \<in> dom (sub c0)" using inv assms(3) by auto
  have calls: "calls_of r (ccalls c') = calls_of r (ccalls c) @ (if r = s then l else [])" for r
    using assms(10,11) by (auto simp: calls_of_def filter_empty_conv filter_id_conv split: prod.splits)
  have "crefs c' p = crefs c0 p + (\<Sum>r \<in> dom (sub c0). held_by p c' r)" for p
    using held_sum [OF assms(2) D assms(3,4), of p] assms(8) [of p] inv by simp
  moreover have "dom (sub c') = dom (sub c0)" using inv assms(4) D by auto
  moreover have "set (nodes x') \<subseteq> set (nodes (the (sub c0 s)))" using inv assms(3,9) by blast
  ultimately show ?thesis using inv assms(3-7,9,12) calls
    unfolding chat_inv_def by auto
qed

lemma chat_inv_walk:
  assumes "chat_inv c0 c" and "sub c s = Some x"
  shows "walk_ok (\<lambda>w. 0 < crefs c0 w) (call_entry c0 s) (listeners c0 s) x (calls_of s (ccalls c))"
    and "set (nodes x) \<subseteq> set (nodes (the (sub c0 s)))"
  using assms by (auto simp: chat_inv_def)

text \<open>The worker never meets a freed node, a freed observer or a last reference.\<close>

lemma chat_worker_safe:
  assumes "chat_inv c0 c" and "chat ps c0" and "sub c s = Some x"
  shows "wpc x = WWalk m (At n) \<Longrightarrow> map_of (nodes x) n \<noteq> None"
    and "wpc x = WInCall m n w \<or> wpc x = WAdvance m n w \<Longrightarrow>
      map_of (nodes x) n \<noteq> None \<and> obs c w = obs c0 w \<and> obs c w \<noteq> None \<and> 0 < crefs c0 s"
proof -
  note w = chat_inv_walk [OF assms(1,3)]
  show "wpc x = WWalk m (At n) \<Longrightarrow> map_of (nodes x) n \<noteq> None"
    using w by (auto simp: walk_ok_def simp del: not_None_eq)
  assume pc: "wpc x = WInCall m n w \<or> wpc x = WAdvance m n w"
  with w(1) have n: "map_of (nodes x) n = Some w" "0 < crefs c0 w" by (auto simp: walk_ok_def)
  obtain x0 where x0: "sub c0 s = Some x0" using assms(1,3) by (fastforce simp: chat_inv_def)
  with w(2) map_of_SomeD [OF n(1)] have "w \<in> snd ` set (nodes x0)" by force
  with assms(2) x0 n(2) have "obs c0 w \<noteq> None" "0 < crefs c0 s" by (auto simp: chat_def)
  then show "map_of (nodes x) n \<noteq> None \<and> obs c w = obs c0 w \<and> obs c w \<noteq> None \<and> 0 < crefs c0 s"
    using n(1) assms(1) by (simp add: chat_inv_def)
qed

lemma chat_worker:
  assumes "chat_inv c0 c" and "chat ps c0" and "moves c a c'" and a: "a = Worker s \<or> a = Spurious s"
  shows "chat_inv c0 c'"
proof -
  have fin: "finite (dom (sub c0))" using assms(2) by (simp add: chat_def)
  have thr: "list_all (chatting (dom (sub c0))) (thr c)" using assms(1) by (simp add: chat_inv_def)
  note sub = chat_inv_sub [OF assms(1) fin, where c' = c' and s = s and x' = "the (sub c' s)"]
  note safe = chat_worker_safe [OF assms(1,2)] and le = held_le [OF assms(1) fin]
  have alive: "0 < crefs c w \<longleftrightarrow> 0 < crefs c0 w" if "sub c s' = Some x" "w \<in> snd ` set (nodes x)" for s' x w
  proof -
    from chat_inv_walk(2) [OF assms(1) that(1)] that(2) have "w \<in> snd ` set (nodes (the (sub c0 s')))" by auto
    moreover have "s' \<in> dom (sub c0)" using assms(1) that(1) by (auto simp: chat_inv_def)
    ultimately have "sub c0 w = None" using assms(2) by (fastforce simp: chat_def)
    have "held_by w c r = 0 \<or> 0 < crefs c0 w" if "r \<in> dom (sub c0)" for r
    proof -
      have "r \<in> dom (sub c)" using that assms(1) by (simp add: chat_inv_def)
      then obtain y where y: "sub c r = Some y" by auto
      moreover have "r \<noteq> w" using that \<open>sub c0 w = None\<close> by auto
      ultimately show ?thesis using chat_inv_walk(1) [OF assms(1) y]
        by (cases "wpc y") (auto simp: walk_ok_def held_by_def)
    qed
    moreover have "crefs c w = crefs c0 w + (\<Sum>r \<in> dom (sub c0). held_by w c r)"
      using assms(1) by (simp add: chat_inv_def)
    ultimately show ?thesis by (metis add_gr_0 not_gr_zero sum.neutral)
  qed
  show ?thesis using assms(3)
  proof cases
    case (Take r x m q)
    then show ?thesis by (intro sub [where x = x and l = "[]"]) (use a in \<open>auto simp: thr walk_ok_take\<close>)
  next
    case (Sleep r x)
    then have "\<not> shut x" using chat_inv_walk(1) [OF assms(1) Sleep(4)] by (simp add: walk_ok_def)
    with Sleep show ?thesis by (intro sub [where x = x and l = "[]"]) (use a in \<open>auto simp: thr intro: walk_ok_idle\<close>)
  next
    case (WakeUp r x)
    then show ?thesis by (intro sub [where x = x and l = "[]"]) (use a in \<open>auto simp: thr intro: walk_ok_idle\<close>)
  next
    case (Begin r x m)
    then show ?thesis by (intro sub [where x = x and l = "[]"]) (use a in \<open>auto simp: thr walk_ok_begin\<close>)
  next
    case (Finish r x m)
    then show ?thesis by (intro sub [where x = x and l = "[]"]) (use a in \<open>auto simp: thr intro: walk_ok_idle\<close>)
  next
    case (Lock r x m n w)
    then have "0 < crefs c0 w" using alive [OF Lock(4)] by (force dest: map_of_SomeD)
    with Lock show ?thesis by (intro sub [where x = x and l = "[]"]) (use a in \<open>auto simp: thr walk_ok_at\<close>)
  next
    case (Prune r x m n w)
    then have "\<not> 0 < crefs c0 w" using alive [OF Prune(4)] by (force dest: map_of_SomeD)
    with Prune show ?thesis
      by (intro sub [where x = x and l = "[]"]) (use a in \<open>auto simp: thr erase_node_def dest: walk_ok_prune [unfolded erase_node_def]\<close>)
  next
    case (Share r x m n w)
    then show ?thesis by (intro sub [where x = x and l = "[]"]) (use a in \<open>auto simp: thr walk_ok_inside\<close>)
  next
    case (BadWeakPtr r x m n w)
    obtain x0 where "sub c0 r = Some x0" using assms(1) BadWeakPtr(4) by (fastforce simp: chat_inv_def)
    then have "0 < crefs c r" using le [OF BadWeakPtr(4), of r] assms(2) by (force simp: chat_def)
    with BadWeakPtr show ?thesis by simp
  next
    case (Update r x m n w y)
    then have "obs c0 w = Some y" using safe(2) [OF Update(4), of m n w] by auto
    then have call: "call_entry c0 r m w = (case map_of (callback_map y) r of None \<Rightarrow> [] | Some cb \<Rightarrow> [(r, w, cb, m)])"
      by (simp add: call_entry_def)
    have "ccalls (record_call r w m y c) = ccalls c @ call_entry c0 r m w" "\<forall>e \<in> set (call_entry c0 r m w). fst e = r"
      by (auto simp: record_call_def call split: option.splits)
    with Update show ?thesis
      by (intro sub [where x = x and l = "call_entry c0 r m w"]) (use a in \<open>auto simp: thr walk_ok_called\<close>)
  next
    case (Advance r x m n w)
    have "1 < crefs c w" using le [OF Advance(4), of w] Advance chat_inv_walk(1) [OF assms(1) Advance(4)]
      by (simp add: walk_ok_def)
    with Advance show ?thesis
      by (intro sub [where x = x and l = "[]"]) (use a in \<open>auto simp: thr release_observer_def walk_ok_advance Let_def\<close>)
  next
    case (UpdateFreed r x m n w)
    then show ?thesis using safe(2) [OF UpdateFreed(4), of m n w] by auto
  next
    case (LastReference r x m n w y)
    then show ?thesis using safe(2) [OF LastReference(4), of m n w] le [OF LastReference(4), of r] by auto
  next
    case (AdvanceFreed r x m n w)
    then show ?thesis using safe(2) [OF AdvanceFreed(4), of m n w] by auto
  qed (use a safe in \<open>auto simp: chat_inv_def\<close>)
qed

lemma chatting_move:
  assumes "list_all (chatting D) ths" and "t < length ths" and "chatting D th"
  shows "list_all (chatting D) (ths[t := th])"
  using assms by (auto simp: list_all_length nth_list_update)

lemma chat_cmd:
  assumes "chat_inv c0 c" and "at_cmd t cm p c"
  shows "thr c ! t = \<lparr>prog = cm # r, tpc = p\<rparr> \<Longrightarrow> chatting (dom (sub c0)) \<lparr>prog = cm # r, tpc = p\<rparr>"
    and "chats (dom (sub c0)) cm"
proof -
  have "chatting (dom (sub c0)) (thr c ! t)"
    using assms by (auto simp: chat_inv_def list_all_length at_cmd_def)
  then show "thr c ! t = \<lparr>prog = cm # r, tpc = p\<rparr> \<Longrightarrow> chatting (dom (sub c0)) \<lparr>prog = cm # r, tpc = p\<rparr>"
    and "chats (dom (sub c0)) cm" using at_cmdD(2) [OF assms(2)] by (auto simp: chatting_def)
qed

lemma chat_thread:
  assumes "chat_inv c0 c" and "chat ps c0" and "moves c (Thread t) c'"
  shows "chat_inv c0 c'"
proof -
  have fin: "finite (dom (sub c0))" and dom: "dom (sub c) = dom (sub c0)"
    using assms(1,2) by (simp_all add: chat_def chat_inv_def)
  have thr: "list_all (chatting (dom (sub c0))) (thr c)" using assms(1) by (simp add: chat_inv_def)
  note here = chat_cmd(1) [OF assms(1)] and chats = chat_cmd(2) [OF assms(1)]
  have thr_go: "list_all (chatting (dom (sub c0))) (thr (go t p' c))"
    if "at_cmd t (CreateMessage s m) p c" "p' \<in> {TLocked, TStored, TQueued}" for s m p p'
    using at_cmdD [OF that(1)] here [OF that(1)] that(2) by (auto intro!: chatting_move thr simp: chatting_def)
  have thr_done: "list_all (chatting (dom (sub c0))) (thr (done_cmd t c))" if "at_cmd t cm p c" for cm p
    using at_cmdD [OF that] here [OF that] by (auto intro!: chatting_move thr simp: chatting_def)
  show ?thesis using assms(3)
  proof cases
    case (Dangling cm p)
    then show ?thesis using chats [OF Dangling(2)] dom by (cases cm) auto
  next
    case (LockMsg s m x)
    show ?thesis by (rule chat_inv_sub [OF assms(1) fin LockMsg(3), where l = "[]" and x' = "x\<lparr>msg_mutex := Some t\<rparr>"])
      (use LockMsg thr_go at_cmdD(3) in \<open>auto simp: walk_ok_def\<close>)
  next
    case (Store s m x)
    show ?thesis by (rule chat_inv_sub [OF assms(1) fin Store(3), where l = "[]" and x' = "x\<lparr>cur_msg := m\<rparr>"])
      (use Store thr_go at_cmdD(3) in \<open>auto simp: walk_ok_def\<close>)
  next
    case (Push s m x)
    have "held p s (notified (wpc x)) = held p s (wpc x)" for p by (cases "wpc x") auto
    then show ?thesis
      by (intro chat_inv_sub [OF assms(1) fin Push(3), where l = "[]" and x' = "x\<lparr>msg_queue := msg_queue x @ [cur_msg x],
          wpc := notified (wpc x), pushed := pushed x @ [(t, cur_msg x)]\<rparr>"])
        (use Push thr_go at_cmdD(3) in \<open>auto intro: walk_ok_push\<close>)
  next
    case (UnlockMsg s m x)
    show ?thesis by (rule chat_inv_sub [OF assms(1) fin UnlockMsg(3), where l = "[]" and x' = "x\<lparr>msg_mutex := None\<rparr>"])
      (use UnlockMsg thr_done at_cmdD(3) in \<open>auto simp: walk_ok_def\<close>)
  next
    case (JoinAll ts)
    then show ?thesis using assms(1) thr_done [OF JoinAll(2)] by (auto simp: chat_inv_def held_by_def)
  qed (use chats in force)+
qed

lemma chat_step:
  assumes "chat_inv c0 c" and "chat ps c0" and "moves c a c'"
  shows "chat_inv c0 c'"
  using assms by (cases a) (auto intro: chat_thread chat_worker)

lemma runs_chat_inv:
  assumes "chat ps c0" and "runs moves c0 as c"
  shows "chat_inv c0 c"
  using assms(2) chat_inv_start [OF assms(1)] chat_step [OF _ assms(1)] by (rule runs_invariant)


section \<open>Such programs come to rest\<close>

definition at_rest :: "'cb cstate \<Rightarrow> bool" where
  "at_rest c \<longleftrightarrow> (\<forall>th \<in> set (thr c). prog th = []) \<and> (\<forall>x \<in> ran (sub c). wpc x = WBlocked \<and> msg_queue x = [])"

text \<open>A thread joins only threads with a higher number.\<close>

definition joins_up :: "'cb cmd list list \<Rightarrow> bool" where
  "joins_up ps \<longleftrightarrow> (\<forall>i < length ps. \<forall>cm \<in> set (ps ! i). case cm of JoinThreads ts \<Rightarrow> \<forall>j \<in> set ts. i < j \<and> j < length ps
     | _ \<Rightarrow> True)"

fun spurious :: "agent \<Rightarrow> bool" where
  "spurious (Spurious s) = True"
| "spurious _ = False"

text \<open>What is left of a program.\<close>

definition progs_inv :: "'cb cmd list list \<Rightarrow> 'cb cstate \<Rightarrow> bool" where
  "progs_inv ps c \<longleftrightarrow> length (thr c) = length ps \<and> (\<forall>i < length ps. set (prog (thr c ! i)) \<subseteq> set (ps ! i))"

lemma set_tl: "x \<in> set (tl xs) \<Longrightarrow> x \<in> set xs"
  by (cases xs) auto

lemma progs_step:
  assumes "progs_inv ps c" and "moves c a c'"
  shows "progs_inv ps c'"
proof -
  have "length (thr c') = length (thr c) \<and> (\<forall>i < length (thr c). set (prog (thr c' ! i)) \<subseteq> set (prog (thr c ! i)))"
    using assms(2) by cases (auto simp: at_cmd_def nth_list_update dest: set_tl split: if_splits)
  with assms(1) show ?thesis by (fastforce simp: progs_inv_def)
qed

lemma runs_progs_inv:
  assumes "begins ps c0" and "runs moves c0 as c"
  shows "progs_inv ps c"
proof -
  have "progs_inv ps c0" using assms(1) by (auto simp: begins_def progs_inv_def)
  with assms(2) show ?thesis using progs_step by (rule runs_invariant)
qed

lemma worker_moves:
  assumes "crashed c = None" and "sub c s = Some x" and "wpc x \<notin> {WBlocked, WReturned}"
  shows "\<exists>c'. moves c (Worker s) c'"
proof (cases "wpc x")
  case WTop
  then show ?thesis by (cases "msg_queue x") (use assms in \<open>auto intro: Take Sleep\<close>)
next
  case (WWalk m it)
  then show ?thesis
  proof (cases it)
    case (At n)
    with WWalk assms Deref [of c s x m n] Lock [of c s x m n] Prune [of c s x m n] show ?thesis
      by (cases "map_of (nodes x) n"; cases "crefs c (the (map_of (nodes x) n))") auto
  qed (use assms in \<open>auto intro: Finish\<close>)
next
  case (WLocked m n w)
  with assms Share [of c s x m n w] BadWeakPtr [of c s x m n w] show ?thesis by (cases "crefs c s") auto
next
  case (WInCall m n w)
  with assms UpdateFreed [of c s x m n w] Update [of c s x m n w] LastReference [of c s x m n w] show ?thesis
    by (cases "obs c w"; cases "1 < crefs c s") (auto simp: not_less)
next
  case (WAdvance m n w)
  with assms Advance [of c s x m n w] AdvanceFreed [of c s x m n w] show ?thesis by (cases "map_of (nodes x) n") auto
qed (use assms in \<open>auto intro: Begin\<close>)

lemma chat_progress:
  assumes "chat ps c0" and "joins_up ps" and "runs moves c0 as c" and "\<not> at_rest c"
  shows "\<exists>a c'. moves c a c' \<and> \<not> spurious a"
proof -
  have b: "begins ps c0" using assms(1) by (simp add: chat_def)
  have inv: "chat_inv c0 c" "queue_inv ps c" "progs_inv ps c"
    using runs_chat_inv [OF assms(1,3)] runs_queue_inv [OF b assms(3)] runs_progs_inv [OF b assms(3)] .
  then have ok: "crashed c = None" and len: "length (thr c) = length ps" by (simp_all add: chat_inv_def queue_inv_def)
  show ?thesis
  proof (cases "\<exists>s x. sub c s = Some x \<and> wpc x \<notin> {WBlocked, WReturned}")
    case True
    then show ?thesis using worker_moves [OF ok] by (metis spurious.simps(3))
  next
    case False
    have "wpc x = WBlocked \<and> msg_queue x = []" if "sub c s = Some x" for s x
      using False that chat_inv_walk(1) [OF inv(1) that] by (auto simp: walk_ok_def)
    with assms(4) have "\<exists>i. i < length ps \<and> prog (thr c ! i) \<noteq> []"
      by (auto simp: at_rest_def ran_def in_set_conv_nth len)
    then obtain t where t: "t < length ps" "prog (thr c ! t) \<noteq> []"
      and last: "\<And>i. t < i \<Longrightarrow> i < length ps \<Longrightarrow> prog (thr c ! i) = []"
      using ex_has_greatest_nat [of "\<lambda>i. i < length ps \<and> prog (thr c ! i) \<noteq> []" _ id "length ps"]
      by (metis id_apply leD less_imp_le_nat)
    obtain cm r where cm: "prog (thr c ! t) = cm # r" using t(2) by (cases "prog (thr c ! t)") auto
    have th: "chatting (dom (sub c0)) (thr c ! i)" if "i < length ps" for i
      using inv(1) that len by (auto simp: chat_inv_def list_all_length)
    have inside: "\<exists>c'. moves c (Thread i) c'" if i: "i < length ps" "in_message s (thr c ! i)" "sub c s = Some x" for i s x
    proof -
      from i obtain m where "at_cmd i (CreateMessage s m) (tpc (thr c ! i)) c" "tpc (thr c ! i) \<in> {TLocked, TStored, TQueued}"
        by (auto simp: in_message_def at_cmd_def ok len split: list.splits cmd.splits)
      then show ?thesis using i(3) Store [of i s m c x] Push [of i s m c x] UnlockMsg [of i s m c x] by auto
    qed
    have "\<exists>i c'. moves c (Thread i) c'"
    proof (cases cm)
      case (CreateMessage s m)
      with th [OF t(1)] cm have "s \<in> dom (sub c)" using inv(1) by (auto simp: chatting_def chat_inv_def)
      then obtain x where x: "sub c s = Some x" by auto
      show ?thesis
      proof (cases "tpc (thr c ! t) = TReady")
        case True
        then have at: "at_cmd t (CreateMessage s m) TReady c" using cm CreateMessage t(1) len ok by (simp add: at_cmd_def)
        show ?thesis
        proof (cases "msg_mutex x")
          case None
          with at x show ?thesis by (auto intro: LockMsg)
        next
          case (Some j)
          with inv(2) x have "j < length ps" "in_message s (thr c ! j)" by (auto simp: queue_inv_def thread_ok_def)
          with inside x show ?thesis by blast
        qed
      next
        case False
        then have "in_message s (thr c ! t)" using th [OF t(1)] cm CreateMessage by (auto simp: in_message_def chatting_def)
        with inside t(1) x show ?thesis by blast
      qed
    next
      case (JoinThreads ts)
      have "cm \<in> set (ps ! t)" using inv(3) t(1) cm by (auto simp: progs_inv_def)
      with assms(2) t(1) JoinThreads have "\<forall>j \<in> set ts. t < j \<and> j < length ps" by (fastforce simp: joins_up_def)
      then have "list_all (\<lambda>i. i < length (thr c) \<and> prog (thr c ! i) = []) ts" using last len by (auto simp: list_all_iff)
      moreover have "at_cmd t (JoinThreads ts) TReady c"
        using th [OF t(1)] cm JoinThreads t(1) len ok by (auto simp: at_cmd_def chatting_def)
      ultimately show ?thesis by (blast intro: JoinAll)
    qed (use th [OF t(1)] cm in \<open>auto simp: chatting_def\<close>)
    then show ?thesis by (metis spurious.simps(2))
  qed
qed

text \<open>Steps still to be made: for a message in the queue of \<open>s\<close>, by a worker, by a thread.\<close>

definition msg_cost :: "'cb cstate \<Rightarrow> ptr \<Rightarrow> nat" where
  "msg_cost c0 s = 4 * length (nodes (the (sub c0 s))) + 3"

fun pc_cost :: "worker_pc \<Rightarrow> nat \<Rightarrow> nat" where
  "pc_cost WTop k = 1"
| "pc_cost WBlocked k = 0"
| "pc_cost (WTaken m) k = 4 * k + 3"
| "pc_cost (WWalk m it) k = 4 * k + 2"
| "pc_cost (WLocked m n w) k = 4 * k + 1"
| "pc_cost (WInCall m n w) k = 4 * k"
| "pc_cost (WAdvance m n w) k = 4 * k + 3"
| "pc_cost WReturned k = 0"

definition worker_cost :: "'cb cstate \<Rightarrow> ptr \<Rightarrow> csubject \<Rightarrow> nat" where
  "worker_cost c0 s x = length (msg_queue x) * msg_cost c0 s + pc_cost (wpc x) (length (ahead (wpc x) (nodes x)))"

fun cmd_cost :: "'cb cstate \<Rightarrow> 'cb cmd \<Rightarrow> nat" where
  "cmd_cost c0 (CreateMessage s m) = msg_cost c0 s + 5"
| "cmd_cost c0 _ = 1"

definition thread_cost :: "'cb cstate \<Rightarrow> 'cb thr \<Rightarrow> nat" where
  "thread_cost c0 th = sum_list (map (cmd_cost c0) (prog th)) - (case prog th of
     CreateMessage s m # _ \<Rightarrow> (case tpc th of TLocked \<Rightarrow> 1 | TStored \<Rightarrow> 2 | TQueued \<Rightarrow> msg_cost c0 s + 4 | _ \<Rightarrow> 0) | _ \<Rightarrow> 0)"

definition cost_of :: "'cb cstate \<Rightarrow> 'cb cstate \<Rightarrow> ptr \<Rightarrow> nat" where
  "cost_of c0 c s = (case sub c s of None \<Rightarrow> 0 | Some x \<Rightarrow> worker_cost c0 s x)"

definition work :: "'cb cstate \<Rightarrow> 'cb cstate \<Rightarrow> nat" where
  "work c0 c = sum_list (map (thread_cost c0) (thr c)) + (\<Sum>s \<in> dom (sub c0). cost_of c0 c s)"

lemma cost_sum:
  assumes "finite D" and "s \<in> D" and "sub c s = Some x" and "sub c' = (sub c)(s \<mapsto> x')"
  shows "(\<Sum>r \<in> D. cost_of c0 c' r) + worker_cost c0 s x = (\<Sum>r \<in> D. cost_of c0 c r) + worker_cost c0 s x'"
proof -
  have "(\<Sum>r \<in> D - {s}. cost_of c0 c' r) = (\<Sum>r \<in> D - {s}. cost_of c0 c r)"
    by (rule sum.cong) (auto simp: cost_of_def assms(4))
  then show ?thesis
    using sum.remove [OF assms(1,2), of "cost_of c0 c'"] sum.remove [OF assms(1,2), of "cost_of c0 c"] assms(3,4)
    by (simp add: cost_of_def)
qed

lemma thread_sum:
  assumes "t < length ths"
  shows "sum_list (map f (ths[t := th])) + f (ths ! t) = sum_list (map f ths) + (f th :: nat)"
proof -
  have "f (ths ! t) \<le> sum_list (map f ths)" using assms by (intro member_le_sum_list) simp_all
  moreover have "sum_list (map f (ths[t := th])) = sum_list (map f ths) + f th - f (ths ! t)"
    using sum_list_update [of t "map f ths" "f th"] assms by (simp add: map_update)
  ultimately show ?thesis by simp
qed

text \<open>A step of the worker of \<open>s\<close> that lowers its cost, and a step of a thread that lowers its own
  cost by more than it raises that of the worker.\<close>

lemma work_worker:
  assumes "chat_inv c0 c" and "finite (dom (sub c0))" and "sub c s = Some x" and "sub c' = (sub c)(s \<mapsto> x')"
    and "thr c' = thr c" and "worker_cost c0 s x' + k \<le> worker_cost c0 s x + j"
  shows "work c0 c' + k \<le> work c0 c + j"
proof -
  have "s \<in> dom (sub c0)" using assms(1,3) by (auto simp: chat_inv_def)
  from cost_sum [OF assms(2) this assms(3,4), of c0] assms(5,6) show ?thesis by (simp add: work_def)
qed

lemma work_thread:
  assumes "chat_inv c0 c" and "finite (dom (sub c0))" and "sub c s = Some x" and "sub c' = (sub c)(s \<mapsto> x')"
    and "t < length (thr c)" and "thr c' = (thr c)[t := th]"
    and "thread_cost c0 th + worker_cost c0 s x' < thread_cost c0 (thr c ! t) + worker_cost c0 s x"
  shows "work c0 c' < work c0 c"
proof -
  have "s \<in> dom (sub c0)" using assms(1,3) by (auto simp: chat_inv_def)
  from cost_sum [OF assms(2) this assms(3,4), of c0] thread_sum [OF assms(5), of "thread_cost c0" th] assms(6,7)
  show ?thesis by (simp add: work_def)
qed

lemma nodes_bound:
  assumes "chat_inv c0 c" and "sub c s = Some x"
  shows "4 * length (nodes x) + 3 \<le> msg_cost c0 s"
proof -
  have "set (nodes x) \<subseteq> set (nodes (the (sub c0 s)))" "distinct (nodes x)"
    using chat_inv_walk [OF assms] by (auto simp: walk_ok_def distinct_map)
  then have "length (nodes x) \<le> length (nodes (the (sub c0 s)))"
    by (metis List.finite_set card_length card_mono distinct_card order_trans)
  then show ?thesis by (simp add: msg_cost_def)
qed

lemma length_ahead: "length (ahead p xs) \<le> length xs"
proof -
  have "length (from_iter it xs) \<le> length xs" for it by (cases it) (simp_all add: length_dropWhile_le)
  then show ?thesis by (cases p) (simp_all add: length_dropWhile_le)
qed

text \<open>The cost at a node, and past it.\<close>

lemma ahead_at:
  assumes "walk_ok A E L x l" and "map_of (nodes x) n = Some w"
  shows "length (from_iter (At n) (nodes x)) = Suc (length (from_iter (next_node n (nodes x)) (nodes x)))"
    and "length (from_iter (next_node n (nodes x)) (erase_node n (nodes x))) = length (from_iter (next_node n (nodes x)) (nodes x))"
proof -
  have "distinct (map fst (nodes x))" using assms(1) by (simp add: walk_ok_def)
  from at_node [OF this assms(2)] obtain pre rest where
    "from_iter (At n) (nodes x) = (n, w) # rest" "next_node n (nodes x) = first_node rest"
    "from_iter (first_node rest) (nodes x) = rest" "erase_node n (nodes x) = pre @ rest"
    "from_iter (first_node rest) (pre @ rest) = rest" by blast
  then show "length (from_iter (At n) (nodes x)) = Suc (length (from_iter (next_node n (nodes x)) (nodes x)))"
    "length (from_iter (next_node n (nodes x)) (erase_node n (nodes x))) = length (from_iter (next_node n (nodes x)) (nodes x))"
    by simp_all
qed

lemma work_worker_step:
  assumes "chat_inv c0 c" and "chat ps c0" and "moves c a c'" and a: "a = Worker s \<or> a = Spurious s"
  shows "work c0 c' + 1 \<le> work c0 c + (if spurious a then 2 else 0)"
proof -
  have fin: "finite (dom (sub c0))" using assms(2) by (simp add: chat_def)
  note wk = work_worker [OF assms(1) fin, where s = s and x' = "the (sub c' s)"]
  note bound = nodes_bound [OF assms(1)] and walk = chat_inv_walk(1) [OF assms(1)]
  have ok: "crashed c' = None" using chat_step [OF assms(1-3)] by (simp add: chat_inv_def)
  show ?thesis using assms(3)
  proof cases
    case (Take r x m q)
    with bound [OF Take(4)] a show ?thesis by (intro wk) (auto simp: worker_cost_def)
  next
    case (Sleep r x)
    with a show ?thesis by (intro wk) (auto simp: worker_cost_def)
  next
    case (WakeUp r x)
    with a show ?thesis by (intro wk) (auto simp: worker_cost_def)
  next
    case (Begin r x m)
    with a length_ahead [of "WWalk m (first_node (nodes x))" "nodes x"] show ?thesis
      by (intro wk) (auto simp: worker_cost_def)
  next
    case (Finish r x m)
    with a show ?thesis by (intro wk) (auto simp: worker_cost_def)
  next
    case (Lock r x m n w)
    with a show ?thesis by (intro wk) (auto simp: worker_cost_def)
  next
    case (Prune r x m n w)
    with a ahead_at [OF walk [OF Prune(4)] Prune(6)] show ?thesis by (intro wk) (auto simp: worker_cost_def)
  next
    case (Share r x m n w)
    with a show ?thesis by (intro wk) (auto simp: worker_cost_def)
  next
    case (BadWeakPtr r x m n w)
    then have "map_of (nodes x) n = Some w" using walk [OF BadWeakPtr(4)] by (simp add: walk_ok_def)
    with BadWeakPtr a ahead_at [OF walk [OF BadWeakPtr(4)] this] show ?thesis by (intro wk) (auto simp: worker_cost_def)
  next
    case (Update r x m n w y)
    then have "map_of (nodes x) n = Some w" using walk [OF Update(4)] by (simp add: walk_ok_def)
    with Update a ahead_at [OF walk [OF Update(4)] this] show ?thesis by (intro wk) (auto simp: worker_cost_def)
  next
    case (Advance r x m n w)
    with a show ?thesis by (intro wk) (auto simp: worker_cost_def)
  qed (use a ok in auto)
qed

lemma work_thread_step:
  assumes "chat_inv c0 c" and "chat ps c0" and "moves c (Thread t) c'"
  shows "work c0 c' < work c0 c"
proof -
  have fin: "finite (dom (sub c0))" using assms(2) by (simp add: chat_def)
  have ok: "crashed c' = None" using chat_step [OF assms] by (simp add: chat_inv_def)
  note chats = chat_cmd(2) [OF assms(1)]
  have here: "work c0 c' < work c0 c" if "at_cmd t (CreateMessage s m) p c" "sub c s = Some x"
    "sub c' = (sub c)(s \<mapsto> x')" "thr c' = (thr c)[t := th]"
    "thread_cost c0 th + worker_cost c0 s x' < thread_cost c0 (thr c ! t) + worker_cost c0 s x" for s m p x x' th
    by (rule work_thread [OF assms(1) fin that(2,3) _ that(4,5)]) (use that(1) in \<open>simp add: at_cmd_def\<close>)
  show ?thesis using assms(3)
  proof cases
    case (LockMsg s m x)
    with at_cmdD [OF LockMsg(2)] show ?thesis
      by (intro here [OF LockMsg(2,3)]) (auto simp: worker_cost_def thread_cost_def)
  next
    case (Store s m x)
    with at_cmdD [OF Store(2)] show ?thesis
      by (intro here [OF Store(2,3)]) (auto simp: worker_cost_def thread_cost_def)
  next
    case (Push s m x)
    have "pc_cost (notified p) k \<le> pc_cost p k + 1" for p k by (cases p) auto
    from this [of "wpc x" "length (ahead (wpc x) (nodes x))"] Push at_cmdD [OF Push(2)] show ?thesis
      by (intro here [OF Push(2,3)]) (auto simp: worker_cost_def thread_cost_def)
  next
    case (UnlockMsg s m x)
    with at_cmdD [OF UnlockMsg(2)] show ?thesis
      by (intro here [OF UnlockMsg(2,3)]) (auto simp: worker_cost_def thread_cost_def)
  next
    case (JoinAll ts)
    from at_cmdD [OF JoinAll(2)] obtain r where t: "t < length (thr c)" "thr c ! t = \<lparr>prog = JoinThreads ts # r, tpc = TReady\<rparr>"
      by auto
    have "thread_cost c0 \<lparr>prog = r, tpc = TReady\<rparr> < thread_cost c0 (thr c ! t)"
      using t(2) by (simp add: thread_cost_def split: list.split cmd.split)
    with thread_sum [OF t(1), of "thread_cost c0" "\<lparr>prog = r, tpc = TReady\<rparr>"] JoinAll t show ?thesis
      by (simp add: work_def cost_of_def)
  qed (use chats ok in force)+
qed

text \<open>Every step but a spurious wake-up uses up work.\<close>

lemma work_runs:
  assumes "runs moves c0 as c" and "chat ps c0"
  shows "work c0 c + length as \<le> work c0 c0 + 2 * length (filter spurious as)"
  using assms
proof (induction rule: runs.induct)
  case (runs_snoc c0 as c' a c'')
  have "work c0 c'' + 1 \<le> work c0 c' + (if spurious a then 2 else 0)"
    using work_worker_step [OF runs_chat_inv [OF runs_snoc.prems runs_snoc.hyps(1)] runs_snoc.prems runs_snoc.hyps(2)]
      work_thread_step [OF runs_chat_inv [OF runs_snoc.prems runs_snoc.hyps(1)] runs_snoc.prems] runs_snoc.hyps(2)
    by (cases a) fastforce+
  with runs_snoc.IH [OF runs_snoc.prems] show ?case by auto
qed simp


section \<open>Properties of such programs\<close>

text \<open>The two halves of delivery: at rest the queue has been taken, and the calls are those of the
  messages taken.\<close>

lemma rest_taken:
  assumes "begins ps c0" and "runs moves c0 as c" and "at_rest c" and "sub c s = Some x"
  shows "taken x = map snd (pushed x)" and "wpc x = WBlocked" and "i < length ps \<Longrightarrow> by_thread i (pushed x) = sent s (ps ! i)"
proof -
  note q = runs_queue [OF assms(1,2,4)] and r = runs_sent [OF assms(1,2,4)]
  show idle: "wpc x = WBlocked" using assms(3,4) by (auto simp: at_rest_def ran_def)
  have "msg_queue x = []" using assms(3,4) by (auto simp: at_rest_def ran_def)
  with q(1) show "taken x = map snd (pushed x)" by simp
  have "prog (thr c ! i) = []" if "i < length ps" for i using assms(3) that q(3) by (simp add: at_rest_def)
  with r show "i < length ps \<Longrightarrow> by_thread i (pushed x) = sent s (ps ! i)" by simp
qed

lemma rest_calls:
  assumes "chat ps c0" and "runs moves c0 as c" and "at_rest c" and "sub c s = Some x"
  shows "calls_of s (ccalls c) = concat (map (\<lambda>m. concat (map (call_entry c0 s m) (listeners c0 s)))
    (filter (\<lambda>m. m \<noteq> []) (map snd (pushed x))))"
proof -
  have "begins ps c0" using assms(1) by (simp add: chat_def)
  note rest = rest_taken [OF this assms(2-4)]
  show ?thesis using chat_inv_walk(1) [OF runs_chat_inv [OF assms(1,2)] assms(4)] rest by (simp add: walk_ok_def)
qed

text \<open>C14: Every message is delivered. In a program whose threads send messages and join each other, at rest
  every thread has had all its messages queued for every subject, in its order; and the callbacks
  called for a subject are, for each message queued that is not empty, in the order of the queue,
  those of all observers that were alive, in the order in which they attached. On the way nothing
  freed was used.\<close>

theorem every_message_delivered:
  assumes "chat ps c0" and "runs moves c0 as c"
  shows "crashed c = None \<and> (at_rest c \<longrightarrow> (\<forall>s x. sub c s = Some x \<longrightarrow>
      (\<forall>i < length ps. by_thread i (pushed x) = sent s (ps ! i))
      \<and> calls_of s (ccalls c) = concat (map (\<lambda>m. concat (map (call_entry c0 s m) (listeners c0 s)))
          (filter (\<lambda>m. m \<noteq> []) (map snd (pushed x))))))"
  using runs_chat_inv [OF assms] rest_taken(3) [OF _ assms(2)] rest_calls [OF assms] assms(1)
  by (simp add: chat_inv_def chat_def)

text \<open>C15: Such a program comes to rest, if no thread joins itself in a circle: as long as it is not at
  rest some thread or worker can move, none waits for a mutex or a notification for ever; and
  every run has at most as many steps as its messages and observers account for, plus two for
  every spurious wake-up.\<close>

theorem chat_comes_to_rest:
  assumes "chat ps c0" and "joins_up ps" and "runs moves c0 as c"
  shows "(at_rest c \<or> (\<exists>a c'. moves c a c' \<and> \<not> spurious a))
    \<and> length as \<le> work c0 c0 + 2 * length (filter spurious as)"
  using chat_progress [OF assms] work_runs [OF assms(3,1)] by auto

section \<open>Example\<close>

lemma small_chat: "chat small_program (small_start small_program)" "joins_up small_program"
proof -
  let ?c = "small_start small_program"
  note small_begins
  moreover have "dom (sub ?c) = {1}" by (auto simp: small_start_def with_threads_def split: if_splits)
  ultimately show "chat small_program ?c"
    by (auto simp: chat_def small_program_def small_start_def with_threads_def split: if_splits)
qed (simp add: joins_up_def small_program_def)

theorem every_message_delivered_witness:
  "\<exists>c. runs moves (small_start small_program) (replicate 4 (Thread 0) @ replicate 8 (Worker 1)) c
    \<and> calls_of 1 (ccalls c) = [(1, 2, 7, ''hi'')]"
proof -
  obtain c x where c: "runs moves (small_start small_program) (replicate 4 (Thread 0) @ replicate 8 (Worker 1)) c"
    "sub c 1 = Some x" "\<forall>s. sub c s \<noteq> None \<longrightarrow> s = 1" "wpc x = WBlocked" "msg_queue x = []" "pushed x = [(0, ''hi'')]"
    "thr c = [\<lparr>prog = [], tpc = TReady\<rparr>]" using small_run by blast
  then have "at_rest c" by (fastforce simp: at_rest_def ran_def)
  with every_message_delivered [OF small_chat(1) c(1)] c(2,6)
  have "calls_of 1 (ccalls c) = concat (map (call_entry (small_start small_program) 1 ''hi'') (listeners (small_start small_program) 1))"
    by simp
  also have "\<dots> = [(1, 2, 7, ''hi'')]"
    by (simp add: listeners_def call_entry_def small_start_def with_threads_def)
  finally show ?thesis using c(1) by blast
qed

theorem chat_comes_to_rest_witness:
  "\<exists>c a c'. runs moves (small_start small_program) [Thread 0, Thread 0, Thread 0, Thread 0] c \<and> moves c a c' \<and> \<not> spurious a
    \<and> (4 :: nat) \<le> work (small_start small_program) (small_start small_program)"
proof -
  have at: "at_cmd 0 (CreateMessage 1 ''hi'') TReady (small_start small_program)"
    by (simp add: at_cmd_def small_start_def small_program_def with_threads_def)
  have sub: "\<exists>x. sub (small_start small_program) 1 = Some x \<and> msg_mutex x = None \<and> wpc x = WTop"
    by (simp add: small_start_def with_threads_def)
  then obtain x where x: "sub (small_start small_program) 1 = Some x" "msg_mutex x = None" "wpc x = WTop" by blast
  note r = message_runs [OF at x(1,2)]
  have "\<not> at_rest (put_sub 1 (x\<lparr>cur_msg := ''hi'', msg_queue := msg_queue x @ [''hi''], wpc := notified (wpc x),
      pushed := pushed x @ [(0, ''hi'')]\<rparr>) (done_cmd 0 (small_start small_program)))"
    using x(3) by (auto simp: at_rest_def ran_def)
  with chat_comes_to_rest [OF small_chat r] r show ?thesis by auto
qed

end
