(* ===== verification/Muduo_Demo.thy ===== *)
theory Muduo_Demo
  imports Muduo_Chat
begin

text \<open>
  \<open>design_pattern/main.cpp\<close>: two subjects, five observers with a callback for each of them, three threads
  that send three messages each to the first subject, and a thread, created after the first message of
  the main thread, that takes the last observer away. The sleeps only make some interleavings likely; every interleaving is a run here.
  A callback is the number of its subject and that of its observer, as it prints them.
\<close>

section \<open>The program\<close>

text \<open>What \<open>printf\<close> writes in a callback.\<close>

definition callback_line :: "(nat \<times> nat) \<times> string \<Rightarrow> string" where
  "callback_line c = (case c of ((k, i), msg) \<Rightarrow>
     ''subject['' @ dec_nat k @ ''], observer['' @ dec_nat i @ ''], msg['' @ msg @ '']'' @ [CHR 0x0A])"

definition create_observer :: "ptr \<Rightarrow> ptr \<Rightarrow> nat \<Rightarrow> (nat \<times> nat) patterns \<Rightarrow> (nat \<times> nat) patterns result" where
  "create_observer s o2 i m = bindE (set_callback (11 + i) s (1, i) (Observer (11 + i) (''Observer-'' @ dec_nat (i + 1)) m))
     (set_callback (11 + i) o2 (2, i))"

definition test_heap :: "(nat \<times> nat) patterns result" where
  "test_heap = foldE (create_observer 1 2) [0..<5] (Subject 2 (Subject 1
     \<lparr>refs = (\<lambda>_. 0), subject_at = Map.empty, observer_at = Map.empty, calls = []\<rparr>))"

text \<open>The lambda of a sender holds a copy of the pointer to the subject until its thread ends.\<close>

definition sender :: "nat \<Rightarrow> (nat \<times> nat) cmd list" where
  "sender i = map (\<lambda>j. CreateMessage 1 (''Thread-'' @ dec_nat (i + 1) @ '' Message-'' @ dec_nat (j + 1))) [0..<3]"

definition remover :: "(nat \<times> nat) cmd list" where
  "remover = [RemoveSelf 15, ReleaseObserver 15]"

definition main_messages :: "(nat \<times> nat) cmd list" where
  "main_messages = [CreateMessage 2 ''MainThread Message-0'', CreateMessage 2 ''MainThread Message-1'']"

text \<open>After the messages: \<open>join\<close>, the last message, and the local variables go out of scope.\<close>

definition main_thread :: "(nat \<times> nat) cmd list" where
  "main_thread = main_messages @ [JoinThreads [1, 2, 3, 4], CreateMessage 1 ''final message'',
     ReleaseObserver 11, ReleaseObserver 12, ReleaseObserver 13, ReleaseObserver 14, ReleaseSubject 2, ReleaseSubject 1]"

text \<open>The threads at the time of the first message of the main thread: itself and the senders.\<close>

definition test_concurrent_observers :: "(nat \<times> nat) cmd list list" where
  "test_concurrent_observers = main_thread # map (\<lambda>i. sender i @ [ReleaseSubject 1]) [0..<3]"

definition share :: "ptr \<Rightarrow> nat \<Rightarrow> 'cb patterns \<Rightarrow> 'cb patterns" where
  "share p k m = m\<lparr>refs := (refs m)(p := refs m p + k)\<rparr>"

definition test_start :: "(nat \<times> nat) cstate result" where
  "test_start = bindE test_heap (\<lambda>m. Inr (with_threads test_concurrent_observers (share 1 3 m)))"

text \<open>The remover is created when the call that queues \<open>MainThread Message-0\<close> has returned. A run of the
  program is a run up to there, the creation, and a run of all threads.\<close>

definition create_thread :: "'cb cmd list \<Rightarrow> 'cb cstate \<Rightarrow> 'cb cstate" where
  "create_thread p c = c\<lparr>thr := thr c @ [\<lparr>prog = p, tpc = TReady\<rparr>]\<rparr>"

definition first_message_sent :: "(nat \<times> nat) cstate \<Rightarrow> bool" where
  "first_message_sent c \<longleftrightarrow> (case thr c of [] \<Rightarrow> False | th # _ \<Rightarrow> prog th = tl main_thread \<and> tpc th = TReady)"

definition test_run :: "agent list \<Rightarrow> agent list \<Rightarrow> (nat \<times> nat) cstate \<Rightarrow> bool" where
  "test_run as bs c \<longleftrightarrow> (\<exists>c0 c1. test_start = Inr c0 \<and> runs moves c0 as c1 \<and> first_message_sent c1
     \<and> runs moves (create_thread remover c1) bs c)"

section \<open>Its start\<close>

lemma upts: "[0..<5] = [0, 1, 2, 3, 4 :: nat]" "[0..<3] = [0, 1, 2 :: nat]"
  by (simp_all add: upt_rec)

definition five_listeners :: subject where
  "five_listeners = \<lparr>observers = [11, 12, 13, 14, 15], current_message = [], notification_queue = [], shutdown_flag = False\<rparr>"

definition demo_observer :: "nat \<Rightarrow> (nat \<times> nat) observer" where
  "demo_observer i = \<lparr>callback_map = [(1, (1, i)), (2, (2, i))], ob_name = ''Observer-'' @ dec_nat (i + 1)\<rparr>"

definition demo_heap :: "(nat \<times> nat) patterns" where
  "demo_heap = \<lparr>refs = (\<lambda>p. if p \<in> {1, 2, 11, 12, 13, 14, 15} then 1 else 0),
     subject_at = [1 \<mapsto> five_listeners, 2 \<mapsto> five_listeners],
     observer_at = (\<lambda>p. if p \<in> {11, 12, 13, 14, 15} then Some (demo_observer (p - 11)) else None), calls = []\<rparr>"

lemma test_heap_eq: "test_heap = Inr demo_heap"
  by (simp add: test_heap_def upts create_observer_def set_callback_def attach_def Observer_def Subject_def
      put_subject_def put_observer_def demo_heap_def five_listeners_def demo_observer_def fun_eq_iff)

section \<open>Properties\<close>

text \<open>The same program without the thread that takes an observer away, up to its last message.\<close>

definition test_messages :: "(nat \<times> nat) cmd list list" where
  "test_messages = (main_messages @ [JoinThreads [1, 2, 3], CreateMessage 1 ''final message'']) # map sender [0..<3]"

lemma test_heap_chats: "chat test_messages (with_threads test_messages demo_heap)"
proof -
  let ?c = "with_threads test_messages demo_heap"
  have "begins test_messages ?c"
    by (rule begins_with_threads) (auto simp: demo_heap_def five_listeners_def split: if_splits)
  moreover have "dom (sub ?c) = {1, 2}"
    by (auto simp: with_threads_def demo_heap_def split: if_splits)
  moreover have "list_all (list_all (chats {1, 2})) test_messages"
    by (simp add: test_messages_def main_messages_def sender_def upts list_all_iff)
  moreover have "0 < crefs ?c s \<and> (\<forall>w \<in> snd ` set (nodes x). (0 < crefs ?c w \<longrightarrow> obs ?c w \<noteq> None) \<and> sub ?c w = None)"
    if "sub ?c s = Some x" for s x
    using that by (auto simp: with_threads_def demo_heap_def five_listeners_def split: if_splits)
  ultimately show ?thesis unfolding chat_def by (metis finite.simps)
qed

lemma test_messages_joins: "joins_up test_messages"
  by (auto simp: joins_up_def test_messages_def main_messages_def sender_def upts nth_Cons split: nat.splits)

text \<open>A schedule of the program: the main thread queues its first message, the first sender queues one, the
  worker of the first subject notifies four observers and has the fifth in hand when the remover takes it
  off the list; the worker then advances an iterator whose node is gone.\<close>

definition crash_schedule :: "agent list" where
  "crash_schedule = replicate 4 (Thread 1) @ replicate (2 + 4 * 4 + 1) (Worker 1) @ [Thread 4] @ replicate 3 (Worker 1)"


text \<open>Without the remover, every run of the messages ends after at most 339 steps, spurious wake-ups and
  the steps they cost apart; then each sender has had its three messages queued in order, and every
  message was printed by the callbacks of all five observers, in the order of the observers.\<close>

theorem test_messages_delivered:
  assumes "runs moves (with_threads test_messages demo_heap) as c"
  shows "crashed c = None \<and> length as \<le> 339 + 2 * length (filter spurious as)
    \<and> (at_rest c \<longrightarrow> (\<forall>x. sub c 1 = Some x \<longrightarrow>
        (\<forall>i < 3. by_thread (Suc i) (pushed x) = sent 1 (sender i))
        \<and> map (callback_line \<circ> plain_call) (calls_of 1 (ccalls c))
          = concat (map (\<lambda>m. map (\<lambda>i. callback_line ((1, i), m)) [0..<5]) (filter (\<lambda>m. m \<noteq> []) (map snd (pushed x))))))"
proof -
  let ?c0 = "with_threads test_messages demo_heap"
  have work: "work ?c0 ?c0 = 339"
  proof -
    have "dom (sub ?c0) = {1, 2}" by (auto simp: with_threads_def demo_heap_def split: if_splits)
    then show ?thesis
      by (simp add: work_def cost_of_def worker_cost_def msg_cost_def thread_cost_def with_threads_def demo_heap_def
          five_listeners_def test_messages_def main_messages_def sender_def upts)
  qed
  have listeners: "listeners ?c0 1 = map (\<lambda>i. 11 + i) [0..<5]"
    by (simp add: listeners_def with_threads_def demo_heap_def five_listeners_def upts)
  have "call_entry ?c0 1 m (11 + i) = [(1, 11 + i, (1, i), m)]" if "i < 5" for m i
    using that by (simp add: call_entry_def with_threads_def demo_heap_def demo_observer_def less_Suc_eq eval_nat_numeral)
  from this [of 0] this [of 1] this [of 2] this [of 3] this [of 4]
  have "map (callback_line \<circ> plain_call) (concat (map (call_entry ?c0 1 m) (listeners ?c0 1)))
      = map (\<lambda>i. callback_line ((1, i), m)) [0..<5]" for m
    unfolding listeners upts by simp
  then have "map (callback_line \<circ> plain_call) (concat (map (\<lambda>m. concat (map (call_entry ?c0 1 m) (listeners ?c0 1))) ms))
      = concat (map (\<lambda>m. map (\<lambda>i. callback_line ((1, i), m)) [0..<5]) ms)" for ms
    by (induction ms) simp_all
  moreover have "length test_messages = 4" "\<And>i. i < 3 \<Longrightarrow> test_messages ! Suc i = sender i"
    by (simp_all add: test_messages_def)
  moreover have "begins test_messages ?c0" using test_heap_chats by (simp add: chat_def)
  note taken = rest_taken(3) [OF this assms]
  ultimately show ?thesis
    using runs_chat_inv [OF test_heap_chats assms] taken rest_calls [OF test_heap_chats assms]
      work_runs [OF assms test_heap_chats] work
    by (simp add: chat_inv_def)
qed

end
