(* ===== verification/Muduo_Footprint.thy ===== *)
theory Muduo_Footprint
  imports Muduo_TcpServer
begin

text \<open>
  What the operations of a connection leave alone. \<open>foot\<close> is for operations that work on one
  connection and its poller, \<open>core_same\<close> for those that no connection and no poller notices; with
  them the pollers of the other loops keep their invariant.
\<close>

section \<open>What an operation of one connection leaves alone\<close>

definition chan_fixed :: "'u closure channel \<Rightarrow> ptr \<times> int \<times> 'u closure option \<times> 'u closure option \<times> 'u closure option" where
  "chan_fixed ch = (ch_loop ch, ch_fd ch, channel.closeCallBack ch, errorCallBack ch, readCallBack ch)"

definition conn_fixed :: "'u tcpconn \<Rightarrow> ptr \<times> string \<times> int \<times> ptr \<times> 'u option \<times> 'u option \<times> 'u option" where
  "conn_fixed cn = (cn_loop cn, cn_name cn, sock_fd cn, cn_channel cn, connectionCallback cn, messageCallback cn, closeCallback cn)"

definition poller_fixed :: "int \<Rightarrow> poller \<Rightarrow> ptr \<times> int \<times> (int \<Rightarrow> ptr option)" where
  "poller_fixed fd po = (po_owner po, po_epfd po, (po_channels po)(fd := None))"

text \<open>Connection \<open>c\<close>, channel \<open>w\<close> on descriptor \<open>fd\<close>, poller \<open>p\<close>.\<close>

definition touch :: "ptr \<Rightarrow> ptr \<Rightarrow> ptr \<Rightarrow> int \<Rightarrow> ('u, 'z) net_scheme \<Rightarrow> ('u, 'z) net_scheme \<Rightarrow> bool" where
  "touch p c w fd m m' \<longleftrightarrow> (\<forall>k. k \<noteq> c \<longrightarrow> conn_at m' k = conn_at m k) \<and> (\<forall>a. a \<noteq> w \<longrightarrow> chan_at m' a = chan_at m a)
     \<and> map_option conn_fixed (conn_at m' c) = map_option conn_fixed (conn_at m c)
     \<and> map_option chan_fixed (chan_at m' w) = map_option chan_fixed (chan_at m w)
     \<and> (\<forall>q. q \<noteq> p \<longrightarrow> poller_at m' q = poller_at m q)
     \<and> map_option (poller_fixed fd) (poller_at m' p) = map_option (poller_fixed fd) (poller_at m p)
     \<and> (\<forall>e. map_option po_epfd (poller_at m p) \<noteq> Some e \<longrightarrow> interest e (trace m') = interest e (trace m))"

definition foot :: "ptr \<Rightarrow> ptr \<Rightarrow> ptr \<Rightarrow> int \<Rightarrow> ('u, 'z) net_scheme \<Rightarrow> ('u, 'z) net_scheme \<Rightarrow> bool" where
  "foot p c w fd m m' \<longleftrightarrow> touch p c w fd m m' \<and> loop_at m' = loop_at m \<and> cur_tid m' = cur_tid m \<and> net.more m' = net.more m
     \<and> map_option ch_revents (chan_at m' w) = map_option ch_revents (chan_at m w)"

lemma foot_refl [simp]: "foot p c w fd m m"
  by (simp add: foot_def touch_def)

lemma poller_fixed_epfd:
  assumes "map_option (poller_fixed fd) x = map_option (poller_fixed fd) y"
  shows "map_option po_epfd x = map_option po_epfd y" "map_option po_owner x = map_option po_owner y"
  using assms by (cases x; cases y; simp add: poller_fixed_def)+

lemma foot_trans: "foot p c w fd m m' \<Longrightarrow> foot p c w fd m' m'' \<Longrightarrow> foot p c w fd m m''"
  using poller_fixed_epfd [of fd "poller_at m' p" "poller_at m p"] by (simp add: foot_def touch_def)

lemma foot_put_chan:
  "chan_at m w = Some ch \<Longrightarrow> chan_fixed ch' = chan_fixed ch \<Longrightarrow> ch_revents ch' = ch_revents ch \<Longrightarrow> foot p c w fd m (put_chan w ch' m)"
  by (simp add: foot_def touch_def)

lemma foot_put_conn:
  "conn_at m c = Some cn \<Longrightarrow> conn_fixed cn' = conn_fixed cn \<Longrightarrow> foot p c w fd m (put_conn c cn' m)"
  by (simp add: foot_def touch_def)

lemma foot_put_poller:
  "poller_at m p = Some po \<Longrightarrow> poller_fixed fd po' = poller_fixed fd po \<Longrightarrow> foot p c w fd m (put_poller p po' m)"
  by (simp add: foot_def touch_def)

lemma foot_log:
  assumes "case call of SysEpollCtl e opn fd' ev \<Rightarrow> \<exists>po. poller_at m p = Some po \<and> po_epfd po = e | _ \<Rightarrow> True"
  shows "foot p c w fd m (log_sys call r m)"
  using assms by (cases call) (auto simp: foot_def touch_def)

lemma foot_update:
  assumes "update K p opn w m = Inr m'"
  shows "foot p c w fd m m'"
proof -
  from assms obtain ch po where "load w (chan_at m) = Inr ch" "load p (poller_at m) = Inr po"
    by (auto simp: update_def halts)
  then have "poller_at m p = Some po" "\<exists>call r. m' = log_sys call r m \<and> (\<exists>opn ev. call = SysEpollCtl (po_epfd po) opn (ch_fd ch) ev)"
    using assms by (auto simp: update_def do_sys_log Let_def load_def split: if_splits option.splits)
  then show ?thesis by (auto intro!: foot_log)
qed

lemma foot_set_index: "set_index i w m = Inr m' \<Longrightarrow> foot p c w fd m m'"
  by (auto simp: set_index_def halts load_def chan_fixed_def split: if_splits option.splits intro!: foot_put_chan)

lemma foot_updateChannel:
  assumes "updateChannel K p w m = Inr m'" and "chan_at m w = Some ch"
  shows "foot p c w (ch_fd ch) m m'"
proof -
  have put: "foot p c w (ch_fd ch) m (put_poller p (po\<lparr>po_channels := (po_channels po)(ch_fd ch \<mapsto> w)\<rparr>) m)"
    if "poller_at m p = Some po" for po
    using that by (rule foot_put_poller) (simp add: poller_fixed_def)
  show ?thesis
    using assms by (auto simp: updateChannel_def Let_def halts split: if_splits
        intro: foot_trans [OF foot_set_index foot_update] foot_trans [OF foot_update foot_set_index] foot_update
          foot_trans [OF put foot_trans [OF foot_set_index foot_update]])
qed

lemma foot_change_events:
  assumes "change_events f K w m = Inr m'" and "chan_at m w = Some ch" and "ch_fd ch = fd"
    and "loop_at m (ch_loop ch) = Some el" and "el_poller el = p"
  shows "foot p c w fd m m'"
proof -
  let ?m = "put_chan w (ch\<lparr>ch_events := f (ch_events ch)\<rparr>) m"
  have "updateChannel K p w ?m = Inr m'"
    using assms by (auto simp: change_events_def channel_update_def loop_updateChannel_def halts)
  then have "foot p c w fd ?m m'" using foot_updateChannel [of K p w ?m m' "ch\<lparr>ch_events := f (ch_events ch)\<rparr>" c] assms(3) by simp
  moreover have "foot p c w fd m ?m" using assms(2) by (rule foot_put_chan) (simp_all add: chan_fixed_def)
  ultimately show ?thesis by (rule foot_trans [rotated])
qed

lemma foot_channel_remove:
  assumes "channel_remove K w m = Inr m'" and "chan_at m w = Some ch" and "ch_fd ch = fd"
    and "loop_at m (ch_loop ch) = Some el" and "el_poller el = p"
  shows "foot p c w fd m m'"
proof -
  from assms obtain po where po: "poller_at m p = Some po"
    "bindE (if ch_index ch = kAdd then update K p EPOLL_CTL_DEL w (put_poller p (po\<lparr>po_channels := (po_channels po)(fd := None)\<rparr>) m)
       else Inr (put_poller p (po\<lparr>po_channels := (po_channels po)(fd := None)\<rparr>) m)) (set_index kNew w) = Inr m'"
    by (auto simp: channel_remove_def loop_removeChannel_def removeChannel_def Let_def halts)
  let ?m = "put_poller p (po\<lparr>po_channels := (po_channels po)(fd := None)\<rparr>) m"
  have "foot p c w fd m ?m" using po(1) by (rule foot_put_poller) (simp add: poller_fixed_def)
  moreover have "foot p c w fd ?m m'"
    using po(2) by (auto simp: halts split: if_splits intro: foot_trans [OF foot_update foot_set_index] foot_set_index)
  ultimately show ?thesis by (rule foot_trans)
qed

section \<open>Steps that no poller and no connection notices\<close>

definition core_same :: "('u, 'z) net_scheme \<Rightarrow> ('u, 'z) net_scheme \<Rightarrow> bool" where
  "core_same m m' \<longleftrightarrow> conn_at m' = conn_at m \<and> chan_at m' = chan_at m \<and> poller_at m' = poller_at m
     \<and> (\<forall>e. interest e (trace m') = interest e (trace m)) \<and> history_conforms (trace m') = history_conforms (trace m)"

lemma core_refl [simp]: "core_same m m"
  by (simp add: core_same_def)

lemma core_trans: "core_same m m' \<Longrightarrow> core_same m' m'' \<Longrightarrow> core_same m m''"
  by (simp add: core_same_def)

lemma core_put_loop [simp]: "core_same m (put_loop l el m') = core_same m m'"
  by (simp add: core_same_def)

lemma core_calls [simp]:
  "core_same m (log_sys (SysWrite fd d n) r m') = core_same m m'"
  "core_same m (log_sys (SysShutdownWrite fd) r m') = core_same m m'"
  "core_same m (log_sys (SysAccept fd len) r m') = core_same m m'"
  "core_same m (log_sys (SysRecv fd k) r m') = core_same m m'"
  "core_same m (log_sys (SysGetsockoptError fd) r m') = core_same m m'"
  "core_same m (log_sys (SysGetsockname fd) r m') = core_same m m'"
  "core_same m (log_sys (SysSetsockopt fd opt v) r m') = core_same m m'"
  by (simp_all add: core_same_def)

lemma touch_trans: "touch p c w fd m m' \<Longrightarrow> touch p c w fd m' m'' \<Longrightarrow> touch p c w fd m m''"
  using poller_fixed_epfd [of fd "poller_at m' p" "poller_at m p"] by (simp add: touch_def)

lemma core_touch: "core_same m m' \<Longrightarrow> touch p c w fd m m'"
  by (simp add: core_same_def touch_def)

lemma core_poller: "core_same m m' \<Longrightarrow> poller_inv p m' = poller_inv p m"
  by (simp add: core_same_def poller_inv_def registry_ok_def)

lemma core_usable: "core_same m m' \<Longrightarrow> usable p w m' = usable p w m"
  by (simp add: core_same_def usable_def)

section \<open>Pollers\<close>

lemma watched_index:
  assumes "poller_inv p m" and "usable p w m" and "chan_at m w = Some ch"
  shows "watched p m w = (if ch_index ch = kAdd then Some (ch_events ch) else None)"
  using assms(1,2)
proof (rule usable_obtain)
  fix po ch0
  assume "poller_at m p = Some po" "chan_at m w = Some ch0" "ch_loop ch0 = po_owner po"
    "registry_ok po (chan_at m) (trace m)" "free_for po (ch_fd ch0) w"
  then show ?thesis using registry_view(2) [of po m p w ch0] assms(3) by simp
qed

text \<open>Another poller does not notice.\<close>

lemma poller_inv_foreign:
  assumes "poller_inv q m" and "poller_at m' q = poller_at m q" and "poller_at m q = Some po"
    and "interest (po_epfd po) (trace m') = interest (po_epfd po) (trace m)" and "history_conforms (trace m')"
    and "\<And>a. a \<noteq> w \<Longrightarrow> chan_at m' a = chan_at m a"
    and "\<And>ch. chan_at m w = Some ch \<Longrightarrow> ch_loop ch \<noteq> po_owner po" "\<And>ch. chan_at m' w = Some ch \<Longrightarrow> ch_loop ch \<noteq> po_owner po"
  shows "poller_inv q m'"
proof -
  from assms(1,3) have ok: "registry_ok po (chan_at m) (trace m)" "q \<noteq> 0" by (auto simp: poller_inv_def)
  then have chans: "channels_ok po (chan_at m)" by (simp add: registry_ok_def)
  have notw: "po_channels po fd \<noteq> Some w" for fd
    using assms(7) by (metis channels_ok_entry [OF chans])
  have "channels_ok po (chan_at m')"
    unfolding channels_ok_def
  proof (intro conjI allI impI)
    fix a ch assume a: "chan_at m' a = Some ch" "ch_loop ch = po_owner po"
    then have "a \<noteq> w" using assms(8) by blast
    with a assms(6) have "chan_at m a = Some ch" by simp
    from channels_okD [OF chans this a(2)]
    show "a \<noteq> 0" "ch_index ch \<in> {kNew, kAdd, kDelete}" "ch_index ch \<noteq> kNew \<longleftrightarrow> po_channels po (ch_fd ch) = Some a" by auto
  next
    fix fd a assume "po_channels po fd = Some a"
    with notw assms(6) show "\<exists>ch. chan_at m' a = Some ch \<and> ch_fd ch = fd \<and> ch_loop ch = po_owner po"
      by (metis channels_ok_entry [OF chans])
  qed
  moreover have "expected po (chan_at m') fd = expected po (chan_at m) fd" for fd
  proof (cases "po_channels po fd")
    case (Some a)
    with notw have "a \<noteq> w" by blast
    with Some assms(6) show ?thesis by (simp add: expected_def)
  qed (simp add: expected_def)
  then have "expected po (chan_at m') = expected po (chan_at m)" by (rule ext)
  ultimately show ?thesis using ok assms(2-5) by (simp add: poller_inv_def registry_ok_def)
qed

text \<open>A channel that is not watched goes, and one that is new comes.\<close>

lemma poller_inv_drop:
  assumes "poller_inv p m" and "poller_at m p = Some po" and "chan_at m w = Some ch"
    and "ch_loop ch \<noteq> po_owner po \<or> ch_index ch = kNew"
    and "chan_at m' = (chan_at m)(w := None)" and "poller_at m' p = Some po"
    and "interest (po_epfd po) (trace m') = interest (po_epfd po) (trace m)" and "history_conforms (trace m')"
  shows "poller_inv p m'"
proof -
  from assms(1,2) have ok: "registry_ok po (chan_at m) (trace m)" "p \<noteq> 0" by (auto simp: poller_inv_def)
  then have chans: "channels_ok po (chan_at m)" by (simp add: registry_ok_def)
  have notw: "po_channels po fd \<noteq> Some w" for fd
  proof
    assume e: "po_channels po fd = Some w"
    from channels_ok_entry [OF chans this] assms(3) have "ch_fd ch = fd" "ch_loop ch = po_owner po" by auto
    with channels_okD(3) [OF chans assms(3)] e assms(4) show False by auto
  qed
  have "channels_ok po (chan_at m')"
    unfolding channels_ok_def
  proof (intro conjI allI impI)
    fix a x assume "chan_at m' a = Some x" "ch_loop x = po_owner po"
    then have a: "chan_at m a = Some x" "ch_loop x = po_owner po" using assms(5) by (auto split: if_splits)
    from channels_okD [OF chans a]
    show "a \<noteq> 0" "ch_index x \<in> {kNew, kAdd, kDelete}" "ch_index x \<noteq> kNew \<longleftrightarrow> po_channels po (ch_fd x) = Some a" by auto
  next
    fix fd a assume a: "po_channels po fd = Some a"
    with notw have "a \<noteq> w" by blast
    with channels_ok_entry [OF chans a] assms(5)
    show "\<exists>ch. chan_at m' a = Some ch \<and> ch_fd ch = fd \<and> ch_loop ch = po_owner po" by (metis fun_upd_other)
  qed
  moreover have "expected po (chan_at m') fd = expected po (chan_at m) fd" for fd
    using notw [of fd] assms(5) by (auto simp: expected_def split: option.split)
  then have "expected po (chan_at m') = expected po (chan_at m)" by (rule ext)
  ultimately show ?thesis using ok assms(6-8) by (simp add: poller_inv_def registry_ok_def)
qed

lemma poller_inv_fresh:
  assumes inv: "poller_inv q m" and w: "w \<noteq> 0" "chan_at m w = None" and ch: "ch_index ch = kNew"
    and fd: "\<forall>a x. chan_at m a = Some x \<longrightarrow> ch_fd x \<noteq> ch_fd ch"
  shows "poller_inv q (put_chan w ch m)"
    and "poller_at m q = Some po \<Longrightarrow> po_owner po = ch_loop ch \<Longrightarrow> usable q w (put_chan w ch m)"
    and "usable q v m \<Longrightarrow> usable q v (put_chan w ch m)"
proof -
  from inv obtain qo where qo: "poller_at m q = Some qo" "registry_ok qo (chan_at m) (trace m)" by (auto simp: poller_inv_def)
  then have "channels_ok qo (chan_at m)" by (simp add: registry_ok_def)
  then have free: "po_channels qo (ch_fd ch) = None"
    using fd by (metis channels_ok_entry not_Some_eq)
  show "poller_inv q (put_chan w ch m)"
  proof (cases "ch_loop ch = po_owner qo")
    case True
    from poller_inv_new_chan(1) [OF inv qo(1) w ch free True] show ?thesis .
  next
    case False
    then show ?thesis using inv qo w by (intro poller_inv_foreign [OF inv _ qo(1), where w = w]) (auto simp: registry_ok_def)
  qed
  show "usable q w (put_chan w ch m)" if "poller_at m q = Some po" "po_owner po = ch_loop ch"
    using poller_inv_new_chan(2) [OF inv qo(1) w ch free] that qo(1) by simp
  show "usable q v (put_chan w ch m)" if "usable q v m"
  proof -
    from that w(2) have "v \<noteq> w" by (auto simp: usable_def)
    with that show ?thesis by (auto simp: usable_def)
  qed
qed

end
