(* ===== verification/Muduo_Session.thy ===== *)
theory Muduo_Session
  imports Muduo_Footprint
begin

text \<open>
  A server with all its threads: the loop of the server, the loops of its pool, and the connections
  that go from one to the other. Every operation is the one of \<open>Muduo_TcpServer\<close> and
  \<open>Muduo_TcpConnection\<close>; new here is who runs it when, and which \<open>shared_ptr\<close> keeps a connection
  alive.
\<close>

section \<open>State and events\<close>

text \<open>A loop in \<open>doPendingFunctors\<close>: the functors it has still to call and those it has called; the
  latter, with the pointers bound in them, go when the vector goes.\<close>

record 'v session = "'v world" +
  todo :: "ptr \<Rightarrow> 'v app closure list"
  finished :: "ptr \<Rightarrow> 'v app closure list"

text \<open>
  What happens to a server: a connection is accepted (\<open>c\<close> and \<open>w\<close> are the addresses of the new
  objects), \<open>epoll_wait\<close> reports a connection (the bytes are what \<open>readFd\<close> has on its stack), the
  user sends a string at address \<open>sp\<close> in the thread of the connection, a thread calls \<open>shutdown\<close>, and
  the steps of \<open>doPendingFunctors\<close> in a loop.
\<close>

datatype event =
    Accept u32 sockaddr_in ptr ptr
  | Ready u32 "byte list" ptr
  | Send ptr "byte list" ptr
  | Shutdown int ptr
  | Swap ptr
  | RunOne ptr
  | Return ptr
  | Release ptr

text \<open>The connection a closure is about, and the one it has a \<open>shared_ptr\<close> to.\<close>

fun target :: "'v app closure \<Rightarrow> ptr option" where
  "target (ConnEstablished c) = Some c"
| "target (ConnDestroyed c) = Some c"
| "target (ShutdownInLoop c) = Some c"
| "target (OtherClosure (RemoveConnectionInLoop s c)) = Some c"
| "target _ = None"

fun owner :: "'v app closure \<Rightarrow> ptr option" where
  "owner (ConnEstablished c) = Some c"
| "owner (ConnDestroyed c) = Some c"
| "owner (OtherClosure (RemoveConnectionInLoop s c)) = Some c"
| "owner _ = None"

definition server_loops :: "'v tcpserver \<Rightarrow> ptr list" where
  "server_loops sv = sv_loop sv # tp_loops (sv_threadPool sv)"

definition conn_held :: "ptr \<Rightarrow> ptr \<Rightarrow> 'v session \<Rightarrow> bool" where
  "conn_held s c m \<longleftrightarrow> (case server_at m s of None \<Rightarrow> False | Some sv \<Rightarrow>
     list_ex (\<lambda>l. list_ex (\<lambda>f. owner f = Some c) (todo m l @ finished m l @ pending_of l m)) (server_loops sv)
     \<or> (case conn_at m c of None \<Rightarrow> False | Some cn \<Rightarrow> sv_connections sv (cn_name cn) = Some c))"

text \<open>A step in the thread of loop \<open>l\<close>.\<close>

definition in_loop :: "ptr \<Rightarrow> ('v app closure eventloop \<Rightarrow> 'v session \<Rightarrow> 'v session result) \<Rightarrow> 'v session \<Rightarrow> 'v session result" where
  "in_loop l f m = bindE (load l (loop_at m)) (\<lambda>el. f el (m\<lparr>cur_tid := threadId el\<rparr>))"

fun perform :: "kernel \<Rightarrow> ('v app user_call \<Rightarrow> 'v session \<Rightarrow> 'v session result) \<Rightarrow> ptr \<Rightarrow> event
    \<Rightarrow> 'v session \<Rightarrow> 'v session result" where
  "perform K V s (Accept len peer0 c w) m = bindE (load s (server_at m)) (\<lambda>sv.
     in_loop (sv_loop sv) (\<lambda>el. accept_one K V len peer0 c w s) m)"
| "perform K V s (Ready r extra c) m = bindE (load c (conn_at m)) (\<lambda>cn.
     in_loop (cn_loop cn) (\<lambda>el m0. bindE (set_revents r (cn_channel cn) m0)
       (handleEvent alive (run_closure K extra (app_call K V)) (cn_channel cn) 0)) m)"
| "perform K V s (Send sp d c) m = bindE (load c (conn_at m)) (\<lambda>cn. in_loop (cn_loop cn) (\<lambda>el. send_string K c sp d) m)"
| "perform K V s (Shutdown t c) m = shutdown K c (m\<lparr>cur_tid := t\<rparr>)"
| "perform K V s (Swap l) m = in_loop l (\<lambda>el m0.
     Inr ((put_loop l (el\<lparr>callingPendingFunctors := True, pendingFunctors := []\<rparr>) m0)
       \<lparr>todo := (todo m0)(l := pendingFunctors el)\<rparr>)) m"
| "perform K V s (RunOne l) m = (case todo m l of [] \<Rightarrow> Inr m
     | f # fs \<Rightarrow> in_loop l (\<lambda>el m0. run_closure K [] (app_call K V) f 0
         (m0\<lparr>todo := (todo m0)(l := fs), finished := (finished m0)(l := finished m0 l @ [f])\<rparr>)) m)"
| "perform K V s (Return l) m = in_loop l (\<lambda>el m0. Inr (put_loop l (el\<lparr>callingPendingFunctors := False\<rparr>) m0)) m"
| "perform K V s (Release l) m = (case finished m l of [] \<Rightarrow> Inr m
     | f # fs \<Rightarrow> in_loop l (\<lambda>el m0. let m1 = m0\<lparr>finished := (finished m0)(l := fs)\<rparr> in
         case owner f of None \<Rightarrow> Inr m1
         | Some c \<Rightarrow> if conn_held s c m1 then Inr m1 else destroy_TcpConnection K c m1) m)"

text \<open>When an event can happen. \<open>accept\<close> fails or returns a descriptor that is not in use, and \<open>epoll_wait\<close>
  reports a descriptor that is watched, with no event but those asked for, errors and hang-ups; the
  input buffer has room for what is read. \<open>send\<close> asks for a connected connection, and there is room in
  the output buffer.\<close>

definition between :: "ptr \<Rightarrow> 'v session \<Rightarrow> bool" where
  "between l m \<longleftrightarrow> todo m l = [] \<and> finished m l = []
     \<and> (case loop_at m l of None \<Rightarrow> False | Some el \<Rightarrow> \<not> callingPendingFunctors el)"

definition calling :: "ptr \<Rightarrow> 'v session \<Rightarrow> bool" where
  "calling l m \<longleftrightarrow> (case loop_at m l of None \<Rightarrow> False | Some el \<Rightarrow> callingPendingFunctors el)"

definition unused_fd :: "int \<Rightarrow> 'v session \<Rightarrow> bool" where
  "unused_fd fd m \<longleftrightarrow> (\<forall>w ch. chan_at m w = Some ch \<longrightarrow> ch_fd ch \<noteq> fd)
     \<and> (\<forall>l el. loop_at m l = Some el \<longrightarrow> weakupFd el \<noteq> fd)"

fun may :: "kernel \<Rightarrow> ptr \<Rightarrow> event \<Rightarrow> 'v session \<Rightarrow> bool" where
  "may K s (Accept len peer0 c w) m = (c \<noteq> 0 \<and> w \<noteq> 0 \<and> conn_at m c = None \<and> chan_at m w = None
     \<and> (case server_at m s of None \<Rightarrow> False | Some sv \<Rightarrow> between (sv_loop sv) m \<and> sv_nextConnId sv < 2 ^ 31
         \<and> (let r = K (trace m) (SysAccept (ac_fd (sv_acceptor sv)) len) in 0 < sr_rv r \<longrightarrow> unused_fd (sr_rv r) m)))"
| "may K s (Ready r extra c) m = (case conn_at m c of None \<Rightarrow> False | Some cn \<Rightarrow> between (cn_loop cn) m
     \<and> (case loop_at m (cn_loop cn) of None \<Rightarrow> False | Some el \<Rightarrow>
          (case watched (el_poller el) m (cn_channel cn) of None \<Rightarrow> False
           | Some ev \<Rightarrow> r AND NOT (ev OR EPOLLERR OR EPOLLHUP) = 0))
     \<and> length extra = extraBuffer_size \<and> length (buf_data (inputBuffer cn)) + 2 \<le> vec_max_size)"
| "may K s (Send sp d c) m = (case conn_at m c of None \<Rightarrow> False | Some cn \<Rightarrow> cn_state cn = kConnected \<and> sp \<noteq> 0
     \<and> highWaterMarkCallback cn = None \<and> length d < 2 ^ 31 \<and> buf_used (outputBuffer cn) + length d \<le> vec_max_size)"
| "may K s (Shutdown t c) m = (conn_at m c \<noteq> None)"
| "may K s (Swap l) m = ((case server_at m s of None \<Rightarrow> False | Some sv \<Rightarrow> l \<in> set (server_loops sv)) \<and> between l m)"
| "may K s (RunOne l) m = ((case server_at m s of None \<Rightarrow> False | Some sv \<Rightarrow> l \<in> set (server_loops sv)) \<and> todo m l \<noteq> [])"
| "may K s (Return l) m = ((case server_at m s of None \<Rightarrow> False | Some sv \<Rightarrow> l \<in> set (server_loops sv)) \<and> todo m l = [] \<and> calling l m)"
| "may K s (Release l) m = ((case server_at m s of None \<Rightarrow> False | Some sv \<Rightarrow> l \<in> set (server_loops sv))
     \<and> todo m l = [] \<and> \<not> calling l m \<and> finished m l \<noteq> [])"

definition session_step :: "kernel \<Rightarrow> ('v app user_call \<Rightarrow> 'v session \<Rightarrow> 'v session result) \<Rightarrow> ptr
    \<Rightarrow> 'v session \<Rightarrow> event \<Rightarrow> 'v session \<Rightarrow> bool" where
  "session_step K V s m a m' \<longleftrightarrow> may K s a m \<and> perform K V s a m = Inr m'"

section \<open>The invariant\<close>

text \<open>What stays the same: the loops with their threads, pollers and descriptors, and the server.\<close>

record env =
  e_loops :: "ptr list"
  e_thread :: "ptr \<Rightarrow> int"
  e_poller :: "ptr \<Rightarrow> ptr"
  e_epfd :: "ptr \<Rightarrow> int"
  e_wake :: "ptr \<Rightarrow> int"
  e_server :: ptr
  e_base :: ptr

definition env_ok :: "env \<Rightarrow> bool" where
  "env_ok E \<longleftrightarrow> inj_on (e_thread E) (set (e_loops E)) \<and> inj_on (e_poller E) (set (e_loops E))
     \<and> inj_on (e_epfd E) (set (e_loops E)) \<and> e_base E \<in> set (e_loops E) \<and> e_server E \<noteq> 0 \<and> 0 \<notin> set (e_loops E)"

definition loop_fixed :: "'cb eventloop \<Rightarrow> int \<times> ptr \<times> int" where
  "loop_fixed el = (threadId el, el_poller el, weakupFd el)"

definition poller_ok :: "env \<Rightarrow> ptr \<Rightarrow> ('cb, 'z) machine_scheme \<Rightarrow> bool" where
  "poller_ok E l m \<longleftrightarrow> (\<exists>po. poller_at m (e_poller E l) = Some po \<and> po_owner po = l \<and> po_epfd po = e_epfd E l)
     \<and> poller_inv (e_poller E l) m"

definition loop_ok :: "env \<Rightarrow> ptr \<Rightarrow> ('cb, 'z) reactor_scheme \<Rightarrow> bool" where
  "loop_ok E l m \<longleftrightarrow> map_option loop_fixed (loop_at m l) = Some (e_thread E l, e_poller E l, e_wake E l) \<and> poller_ok E l m"

definition queue_of :: "'v session \<Rightarrow> ptr \<Rightarrow> 'v app closure list" where
  "queue_of m l = todo m l @ pending_of l m"

definition at_conn :: "ptr \<Rightarrow> 'v app closure list \<Rightarrow> 'v app closure list" where
  "at_conn c q = filter (\<lambda>f. target f = Some c) q"

text \<open>The stages of a connection: accepted; established; closed in its own loop but still in the table of
  the server; out of the table; out of the poller. With each stage what is queued about the
  connection in loop \<open>l\<close>: \<open>s\<close> is the server, \<open>b\<close> its loop, \<open>io\<close> the loop of the connection.\<close>

datatype stage = Connecting | Open | Closing | Removed | Dead

fun expect :: "stage \<Rightarrow> ptr \<Rightarrow> ptr \<Rightarrow> ptr \<Rightarrow> nat \<Rightarrow> ptr \<Rightarrow> ptr \<Rightarrow> 'v app closure list" where
  "expect Connecting s b io k c l = (if l = io then [ConnEstablished c] else [])"
| "expect Open s b io k c l = (if l = io then replicate k (ShutdownInLoop c) else [])"
| "expect Closing s b io k c l = (if l = io then replicate k (ShutdownInLoop c)
     else if l = b then [OtherClosure (RemoveConnectionInLoop s c)] else [])"
| "expect Removed s b io k c l = (if l = io then replicate k (ShutdownInLoop c) @ [ConnDestroyed c] else [])"
| "expect Dead s b io k c l = []"

text \<open>\<open>tab\<close>: the connection is in the table; \<open>kept\<close>: a functor that has been called still holds it.\<close>

fun stage_ok :: "stage \<Rightarrow> ptr \<Rightarrow> 'u tcpconn \<Rightarrow> 'u closure channel \<Rightarrow> bool \<Rightarrow> bool \<Rightarrow> bool" where
  "stage_ok Connecting c cn ch tab kept \<longleftrightarrow> cn_state cn = kConnecting \<and> tab \<and> ch_index ch \<noteq> kAdd
     \<and> ch_events ch = 0"
| "stage_ok Open c cn ch tab kept \<longleftrightarrow> cn_state cn \<in> {kConnected, kDisconnecting} \<and> tab \<and> ch_index ch = kAdd
     \<and> ch_events ch = kReadEvent \<and> ch_tied ch \<and> ch_tie ch = c"
| "stage_ok Closing c cn ch tab kept \<longleftrightarrow> cn_state cn = kDisconnected \<and> tab \<and> ch_index ch \<noteq> kAdd"
| "stage_ok Removed c cn ch tab kept \<longleftrightarrow> cn_state cn = kDisconnected \<and> \<not> tab \<and> ch_index ch \<noteq> kAdd"
| "stage_ok Dead c cn ch tab kept \<longleftrightarrow> cn_state cn = kDisconnected \<and> \<not> tab \<and> ch_index ch = kNew \<and> kept"

definition staged :: "env \<Rightarrow> ptr \<Rightarrow> 'v app tcpconn \<Rightarrow> 'v app closure channel \<Rightarrow> (ptr \<Rightarrow> 'v app closure list)
    \<Rightarrow> bool \<Rightarrow> bool \<Rightarrow> stage \<Rightarrow> nat \<Rightarrow> bool" where
  "staged E c cn ch q tab kept st k \<longleftrightarrow> stage_ok st c cn ch tab kept \<and> (st = Closing \<longrightarrow> cn_loop cn \<noteq> e_base E)
     \<and> (\<forall>l \<in> set (e_loops E). q l = expect st (e_server E) (e_base E) (cn_loop cn) k c l)"

definition linked :: "env \<Rightarrow> ptr \<Rightarrow> 'v app tcpconn \<Rightarrow> 'v app closure channel \<Rightarrow> ('v app, 'z) net_scheme \<Rightarrow> bool" where
  "linked E c cn ch m \<longleftrightarrow> c \<noteq> 0 \<and> conn_at m c = Some cn \<and> chan_at m (cn_channel cn) = Some ch \<and> cn_channel cn \<noteq> 0
     \<and> cn_loop cn \<in> set (e_loops E) \<and> ch_loop ch = cn_loop cn \<and> ch_fd ch = sock_fd cn \<and> buffer_inv (outputBuffer cn) \<and> buffer_inv (inputBuffer cn)
     \<and> e_wake E (cn_loop cn) \<noteq> sock_fd cn \<and> usable (e_poller E (cn_loop cn)) (cn_channel cn) m
     \<and> connectionCallback cn \<noteq> None \<and> messageCallback cn \<noteq> None \<and> closeCallback cn = Some (RemoveConnection (e_server E))
     \<and> channel.closeCallBack ch = Some (ConnHandleClose c) \<and> errorCallBack ch = Some (ConnHandleError c)
     \<and> readCallBack ch = Some (ConnHandleRead c)"

definition in_table :: "env \<Rightarrow> ptr \<Rightarrow> 'v session \<Rightarrow> bool" where
  "in_table E c m \<longleftrightarrow> (\<exists>sv cn. server_at m (e_server E) = Some sv \<and> conn_at m c = Some cn
     \<and> sv_connections sv (cn_name cn) = Some c)"

definition kept :: "env \<Rightarrow> ptr \<Rightarrow> 'v session \<Rightarrow> bool" where
  "kept E c m \<longleftrightarrow> (\<exists>l \<in> set (e_loops E). \<exists>f \<in> set (finished m l). owner f = Some c)"

definition conn_inv :: "env \<Rightarrow> ptr \<Rightarrow> 'v session \<Rightarrow> bool" where
  "conn_inv E c m \<longleftrightarrow> (\<forall>cn. conn_at m c = Some cn \<longrightarrow> (\<exists>ch st k. linked E c cn ch m
     \<and> staged E c cn ch (\<lambda>l. at_conn c (queue_of m l)) (in_table E c m) (kept E c m) st k))"

definition apart :: "(ptr \<Rightarrow> 'u tcpconn option) \<Rightarrow> bool" where
  "apart h \<longleftrightarrow> (\<forall>c d cn dn. h c = Some cn \<longrightarrow> h d = Some dn \<longrightarrow> c \<noteq> d \<longrightarrow>
     cn_channel cn \<noteq> cn_channel dn \<and> sock_fd cn \<noteq> sock_fd dn)"

definition targets :: "env \<Rightarrow> 'v session \<Rightarrow> bool" where
  "targets E m \<longleftrightarrow> (\<forall>l \<in> set (e_loops E). (\<forall>f \<in> set (queue_of m l). \<exists>c. target f = Some c \<and> conn_at m c \<noteq> None)
     \<and> (\<forall>f \<in> set (finished m l). \<forall>c. owner f = Some c \<longrightarrow> conn_at m c \<noteq> None))"

definition server_ok :: "env \<Rightarrow> 'v session \<Rightarrow> bool" where
  "server_ok E m \<longleftrightarrow> (\<exists>sv. server_at m (e_server E) = Some sv \<and> table_ok sv \<and> sv_loop sv = e_base E
     \<and> set (server_loops sv) = set (e_loops E) \<and> tp_baseLoop (sv_threadPool sv) = e_base E
     \<and> (tp_loops (sv_threadPool sv) \<noteq> [] \<longrightarrow> tp_next (sv_threadPool sv) < length (tp_loops (sv_threadPool sv)))
     \<and> sv_connectionCallback sv \<noteq> None \<and> sv_messageCallback sv \<noteq> None
     \<and> (\<forall>n c. sv_connections sv n = Some c \<longrightarrow> (\<exists>cn. conn_at m c = Some cn \<and> cn_name cn = n)))"

definition session_ok :: "env \<Rightarrow> 'v session \<Rightarrow> bool" where
  "session_ok E m \<longleftrightarrow> (\<forall>l \<in> set (e_loops E). loop_ok E l m) \<and> server_ok E m \<and> (\<forall>c. conn_inv E c m)
     \<and> apart (conn_at m) \<and> targets E m"

text \<open>The connection as the lemmas about its operations see it, in the thread of its loop.\<close>

lemma linked_conn_ok:
  assumes "linked E c cn ch m" and "loop_ok E (cn_loop cn) m" and "env_ok E" and "cur_tid m = e_thread E (cn_loop cn)"
  shows "conn_ok c cn ch m"
proof -
  have "cn_loop cn \<noteq> 0" using assms(1,3) by (metis env_ok_def linked_def)
  then show ?thesis using assms(1,2,4) by (auto simp: linked_def loop_ok_def poller_ok_def conn_ok_def loop_fixed_def)
qed

section \<open>A step of one connection\<close>

lemma touch_poller_ok:
  assumes E: "env_ok E" and l: "l \<in> set (e_loops E)" "k \<in> set (e_loops E)" "l \<noteq> k"
    and t: "touch (e_poller E k) c w fd m m'" and ok: "poller_ok E l m" "poller_ok E k m" "poller_inv (e_poller E k) m'"
    and ch: "chan_at m w = Some ch" "ch_loop ch = k"
  shows "poller_ok E l m'"
proof -
  from ok(1) obtain po where po: "poller_at m (e_poller E l) = Some po" "po_owner po = l" "po_epfd po = e_epfd E l"
    "poller_inv (e_poller E l) m" by (auto simp: poller_ok_def)
  have ne: "e_poller E l \<noteq> e_poller E k" "e_epfd E l \<noteq> e_epfd E k"
    using E l by (auto simp: env_ok_def dest: inj_onD)
  have po': "poller_at m' (e_poller E l) = Some po" using t ne(1) po(1) by (simp add: touch_def)
  have "map_option po_epfd (poller_at m (e_poller E k)) \<noteq> Some (e_epfd E l)"
    using ok(2) ne(2) by (auto simp: poller_ok_def)
  then have int: "interest (e_epfd E l) (trace m') = interest (e_epfd E l) (trace m)" using t by (simp add: touch_def)
  have ch': "ch_loop ch' = k" if "chan_at m' w = Some ch'" for ch'
    using t ch that by (auto simp: touch_def chan_fixed_def)
  have hist: "history_conforms (trace m')" using ok(3) by (auto simp: poller_inv_def registry_ok_def)
  have other: "chan_at m' a = chan_at m a" if "a \<noteq> w" for a using t that by (simp add: touch_def)
  have "poller_inv (e_poller E l) m'"
    by (rule poller_inv_foreign [OF po(4) _ po(1) _ hist other])
      (use po(1-3) po' int ch ch' l(3) in auto)
  with po' po(2,3) show ?thesis by (simp add: poller_ok_def)
qed

lemma touch_poller_ok_self:
  assumes "touch (e_poller E k) c w fd m m'" and "poller_ok E k m" and "poller_inv (e_poller E k) m'"
  shows "poller_ok E k m'"
proof -
  have "map_option po_epfd (poller_at m' (e_poller E k)) = map_option po_epfd (poller_at m (e_poller E k))"
    "map_option po_owner (poller_at m' (e_poller E k)) = map_option po_owner (poller_at m (e_poller E k))"
    using assms(1) poller_fixed_epfd [of fd "poller_at m' (e_poller E k)" "poller_at m (e_poller E k)"]
    unfolding touch_def by simp_all
  moreover obtain po where "poller_at m (e_poller E k) = Some po" "po_owner po = k" "po_epfd po = e_epfd E k"
    using assms(2) unfolding poller_ok_def by blast
  ultimately show ?thesis using assms(3) unfolding poller_ok_def by auto
qed

lemma touch_usable:
  assumes t: "touch (e_poller E k) c w fd m m'" and u: "usable q v m" and "v \<noteq> w" and fd: "\<And>ch. chan_at m v = Some ch \<Longrightarrow> ch_fd ch \<noteq> fd"
  shows "usable q v m'"
proof -
  from u obtain po ch where po: "poller_at m q = Some po" "chan_at m v = Some ch" "ch_loop ch = po_owner po" "free_for po (ch_fd ch) v"
    by (auto simp: usable_def)
  have ch': "chan_at m' v = Some ch" using t assms(3) po(2) by (simp add: touch_def)
  show ?thesis
  proof (cases "q = e_poller E k")
    case True
    with t po(1) obtain po' where po': "poller_at m' q = Some po'" "poller_fixed fd po' = poller_fixed fd po"
      by (auto simp: touch_def)
    have "po_channels po' (ch_fd ch) = po_channels po (ch_fd ch)" "po_owner po' = po_owner po"
      using po'(2) fd [OF po(2)] by (auto simp: poller_fixed_def fun_eq_iff) (metis fun_upd_apply)+
    with po' po ch' show ?thesis by (auto simp: usable_def free_for_def)
  next
    case False
    with t po ch' show ?thesis by (auto simp: usable_def touch_def)
  qed
qed

text \<open>What the poller lemmas and the invariant share about a connection.\<close>

lemma session_ok_conn:
  assumes "session_ok E m" and "conn_at m c = Some cn"
  obtains ch st k where "linked E c cn ch m"
    "staged E c cn ch (\<lambda>l. at_conn c (queue_of m l)) (in_table E c m) (kept E c m) st k"
  using assms unfolding session_ok_def conn_inv_def by blast

lemma loop_ok_poller: "loop_ok E l m \<Longrightarrow> poller_ok E l m" "poller_ok E l m \<Longrightarrow> poller_inv (e_poller E l) m"
  by (simp_all add: loop_ok_def poller_ok_def)

lemma loop_okD:
  assumes "loop_ok E l m"
  obtains el where "loop_at m l = Some el" "threadId el = e_thread E l" "el_poller el = e_poller E l" "weakupFd el = e_wake E l"
  using assms by (auto simp: loop_ok_def loop_fixed_def)

text \<open>A step of connection \<open>c\<close>: if it touches only what belongs to it, keeps the queues and the table of
  the others, and leads the connection to a stage, the invariant is kept.\<close>

lemma session_ok_act:
  assumes inv: "session_ok E m" and E: "env_ok E"
    and c: "linked E c cn ch m" "linked E c cn' ch' m'" and loop: "cn_loop cn' = cn_loop cn"
    and t: "touch (e_poller E (cn_loop cn)) c (cn_channel cn) (sock_fd cn) m m'"
    and own: "poller_inv (e_poller E (cn_loop cn)) m'"
    and fixed: "\<And>l. l \<in> set (e_loops E) \<Longrightarrow> map_option loop_fixed (loop_at m' l) = map_option loop_fixed (loop_at m l)"
    and srv: "server_ok E m'" and tab: "\<And>d. d \<noteq> c \<Longrightarrow> in_table E d m' = in_table E d m"
    and queues: "\<And>d l. d \<noteq> c \<Longrightarrow> l \<in> set (e_loops E) \<Longrightarrow> at_conn d (queue_of m' l) = at_conn d (queue_of m l)"
    and kept: "\<And>d. d \<noteq> c \<Longrightarrow> kept E d m \<Longrightarrow> kept E d m'" and tgt: "targets E m'"
    and stage: "staged E c cn' ch' (\<lambda>l. at_conn c (queue_of m' l)) (in_table E c m') (kept E c m') st k"
  shows "session_ok E m'"
proof -
  let ?k = "cn_loop cn"
  have k: "?k \<in> set (e_loops E)" and w: "chan_at m (cn_channel cn) = Some ch" "ch_loop ch = ?k" "conn_at m c = Some cn"
    using c(1) by (simp_all add: linked_def)
  have loops: "loop_ok E l m" if "l \<in> set (e_loops E)" for l using inv that by (simp add: session_ok_def)
  have "poller_ok E l m'" if "l \<in> set (e_loops E)" for l
  proof (cases "l = ?k")
    case True
    with touch_poller_ok_self [OF t loop_ok_poller(1) [OF loops [OF k]] own] show ?thesis by simp
  next
    case False
    from touch_poller_ok [OF E that k False t _ _ own w(1,2)] loops that k show ?thesis by (simp add: loop_ok_def)
  qed
  then have loops': "\<forall>l \<in> set (e_loops E). loop_ok E l m'"
    using loops fixed by (simp add: loop_ok_def)
  have apart: "apart (conn_at m)" using inv by (simp add: session_ok_def)
  have "conn_inv E d m'" for d
  proof (cases "d = c")
    case True
    with c(2) stage show ?thesis unfolding conn_inv_def linked_def by auto
  next
    case False
    have same: "conn_at m' d = conn_at m d" using t False by (simp add: touch_def)
    show ?thesis
      unfolding conn_inv_def same
    proof (intro allI impI)
      fix dn assume dn: "conn_at m d = Some dn"
      from session_ok_conn [OF inv this] obtain dh st k where
        d: "linked E d dn dh m" "staged E d dn dh (\<lambda>l. at_conn d (queue_of m l)) (in_table E d m) (kept E d m) st k" .
      have ne: "cn_channel dn \<noteq> cn_channel cn" "sock_fd dn \<noteq> sock_fd cn"
        using apart dn w(3) False unfolding apart_def by blast+
      have u: "usable (e_poller E (cn_loop dn)) (cn_channel dn) m'"
        by (rule touch_usable [OF t _ ne(1)]) (use d(1) ne(2) in \<open>auto simp: linked_def\<close>)
      have "chan_at m' (cn_channel dn) = chan_at m (cn_channel dn)" using t ne(1) by (simp add: touch_def)
      then have l: "linked E d dn dh m'" using d(1) u same by (simp add: linked_def)
      have "staged E d dn dh (\<lambda>l. at_conn d (queue_of m' l)) (in_table E d m') (kept E d m') st k"
        using d(2) tab [OF False] queues [OF False] kept [OF False] unfolding staged_def by (cases st) auto
      with l show "\<exists>ch st k. linked E d dn ch m'
          \<and> staged E d dn ch (\<lambda>l. at_conn d (queue_of m' l)) (in_table E d m') (kept E d m') st k" by blast
    qed
  qed
  moreover have "apart (conn_at m')"
  proof -
    have "conn_at m' = (conn_at m)(c \<mapsto> cn')" using t c(2) by (auto simp: touch_def linked_def fun_eq_iff)
    moreover have "cn_channel cn' = cn_channel cn" "sock_fd cn' = sock_fd cn"
      using t c w(3) by (auto simp: touch_def linked_def conn_fixed_def)
    ultimately show ?thesis using apart w(3) unfolding apart_def by (simp split: if_splits)
  qed
  ultimately show ?thesis using loops' srv tgt by (simp add: session_ok_def)
qed

text \<open>The own poller after a step, from what the lemmas on a connection say.\<close>

lemma linked_after:
  assumes ok: "conn_ok c cn' ch' m'" and l: "linked E c cn ch m" and t: "touch p c (cn_channel cn) fd m m'"
    and loop: "loop_at m' (cn_loop cn) = Some el" "el_poller el = e_poller E (cn_loop cn)" and b: "buffer_inv (inputBuffer cn')"
  shows "linked E c cn' ch' m'" and "poller_inv (e_poller E (cn_loop cn)) m'" and "cn_loop cn' = cn_loop cn"
    and "cn_channel cn' = cn_channel cn" and "sock_fd cn' = sock_fd cn" and "cn_name cn' = cn_name cn"
    and "ch_fd ch' = sock_fd cn"
proof -
  note d = conn_okD [OF ok]
  have fx: "conn_fixed cn' = conn_fixed cn" using t l d(2) by (auto simp: touch_def linked_def)
  then show cs: "cn_loop cn' = cn_loop cn" "cn_channel cn' = cn_channel cn" "sock_fd cn' = sock_fd cn" "cn_name cn' = cn_name cn"
    by (auto simp: conn_fixed_def)
  have "chan_fixed ch' = chan_fixed ch" using t l d(3) cs by (auto simp: touch_def linked_def)
  moreover have "poller_inv (e_poller E (cn_loop cn)) m' \<and> usable (e_poller E (cn_loop cn)) (cn_channel cn) m'"
    using ok loop cs by (auto simp: conn_ok_def)
  ultimately show "linked E c cn' ch' m'" "poller_inv (e_poller E (cn_loop cn)) m'" "ch_fd ch' = sock_fd cn"
    using l d cs fx b by (auto simp: linked_def chan_fixed_def conn_fixed_def)
qed

lemma core_session [simp]:
  fixes m m' :: "'v session"
  shows "core_same m (m'\<lparr>cur_tid := t\<rparr>) = core_same m m'" "core_same m (m'\<lparr>todo := x\<rparr>) = core_same m m'"
    "core_same m (m'\<lparr>finished := y\<rparr>) = core_same m m'" "core_same m (put_server s sv m') = core_same m m'"
    "core_same (put_server s sv m) m' = core_same m m'"
  by (simp_all add: core_same_def)

lemma core_linked: "core_same m m' \<Longrightarrow> linked E c cn ch m' = linked E c cn ch m"
  by (simp add: linked_def core_usable) (simp add: core_same_def)

lemma core_loop_ok: "core_same m m' \<Longrightarrow> loop_at m' l = loop_at m l \<Longrightarrow> loop_ok E l m' = loop_ok E l m"
  by (simp add: loop_ok_def poller_ok_def core_poller) (simp add: core_same_def)

lemma session_keeps [simp]:
  fixes m :: "'v session"
  shows "todo (put_loop a el m) = todo m" "finished (put_loop a el m) = finished m"
    "todo (log_sys call r m) = todo m" "finished (log_sys call r m) = finished m"
    "todo (put_conn c cn m) = todo m" "finished (put_conn c cn m) = finished m"
    "todo (put_chan w ch m) = todo m" "finished (put_chan w ch m) = finished m"
    "todo (put_server s sv m) = todo m" "finished (put_server s sv m) = finished m"
  by (simp_all add: put_loop_def log_sys_def put_conn_def put_chan_def put_server_def)

section \<open>The operations of one connection\<close>

lemma queueInLoop_core:
  fixes m :: "'v session"
  assumes "l \<noteq> 0" and "loop_at m l = Some el"
  shows "\<exists>m'. queueInLoop K l f m = Inr m' \<and> core_same m m' \<and> server_at m' = server_at m \<and> todo m' = todo m
    \<and> finished m' = finished m \<and> cur_tid m' = cur_tid m
    \<and> loop_at m' = (loop_at m)(l \<mapsto> el\<lparr>pendingFunctors := pendingFunctors el @ [f]\<rparr>)"
  unfolding queueInLoop_eq [OF assms] by (simp add: Let_def)

lemma more_session:
  fixes m m' :: "'v session"
  assumes "net.more m' = net.more m"
  shows "server_at m' = server_at m" "todo m' = todo m" "finished m' = finished m"
  using assms by (cases m; cases m'; simp)+

text \<open>The callbacks of the user return; what they do with a connection, \<open>send\<close> and \<open>shutdown\<close>, are events of
  their own.\<close>

definition quiet_calls :: "('v app user_call \<Rightarrow> 'v session \<Rightarrow> 'v session result) \<Rightarrow> bool" where
  "quiet_calls V \<longleftrightarrow> (\<forall>uc m. V uc m = Inr m)"

lemma quiet_message: "quiet_calls V \<Longrightarrow> cb \<noteq> None \<Longrightarrow> invoke (app_call K V) (\<lambda>u. OnMessage u c t) cb m = Inr m"
  by (auto simp: quiet_calls_def invoke_def app_call_def)

lemma quiet_connection: "quiet_calls V \<Longrightarrow> cb \<noteq> None \<Longrightarrow> invoke (app_call K V) (\<lambda>u. OnConnection u c) cb m = Inr m"
  by (auto simp: quiet_calls_def invoke_def app_call_def)

text \<open>\<open>conneectEstableished\<close>.\<close>

lemma established:
  fixes m :: "'v session"
  assumes K: "ctl_documented K" and V: "quiet_calls V" and l: "linked E c cn ch m" "loop_ok E (cn_loop cn) m" "env_ok E"
    "cur_tid m = e_thread E (cn_loop cn)" and ev: "ch_events ch = 0"
  shows "\<exists>m' ch'. conneectEstableished K (app_call K V) c m = Inr m'
    \<and> foot (e_poller E (cn_loop cn)) c (cn_channel cn) (sock_fd cn) m m'
    \<and> linked E c (cn\<lparr>cn_state := kConnected\<rparr>) ch' m' \<and> poller_inv (e_poller E (cn_loop cn)) m'
    \<and> ch_index ch' = kAdd \<and> ch_events ch' = kReadEvent \<and> ch_tied ch' \<and> ch_tie ch' = c"
proof -
  note ok = linked_conn_ok [OF l]
  from loop_okD [OF l(2)] obtain el where el: "loop_at m (cn_loop cn) = Some el" "el_poller el = e_poller E (cn_loop cn)" .
  from conneectEstableished_conn [OF K ok el(1), of "app_call K V"] obtain m' ch' where
    m': "conneectEstableished K (app_call K V) c m = Inr m'" "conn_ok c (cn\<lparr>cn_state := kConnected\<rparr>) ch' m'"
      "ch_tied ch'" "ch_tie ch' = c" "watched (el_poller el) m' (cn_channel cn) = Some kReadEvent"
    using l(1) ev by (auto simp: enableReading_ev_def quiet_connection [OF V] linked_def)
  let ?m1 = "put_conn c (cn\<lparr>cn_state := kConnected\<rparr>) m"
  let ?m2 = "put_chan (cn_channel cn) (ch\<lparr>ch_tie := c, ch_tied := True\<rparr>) ?m1"
  obtain x xa where x: "enableReading K (cn_channel cn) ?m2 = Inr x" "conn_at x c = Some xa"
    "invoke (app_call K V) (\<lambda>u. OnConnection u c) (connectionCallback xa) x = Inr m'"
    using m'(1) l(1) by (auto simp: conneectEstableished_def setState_def tie_def linked_def halts)
  from x(1) have f: "foot (el_poller el) c (cn_channel cn) (sock_fd cn) ?m2 x"
    unfolding enableReading_def
    by (rule foot_change_events [where ch = "ch\<lparr>ch_tie := c, ch_tied := True\<rparr>" and el = el])
      (use l(1) el in \<open>auto simp: linked_def\<close>)
  then have "connectionCallback xa \<noteq> None" using x(2) l(1) by (auto simp: foot_def touch_def conn_fixed_def linked_def)
  with x(3) have "x = m'" by (simp add: quiet_connection [OF V])
  with f have "foot (el_poller el) c (cn_channel cn) (sock_fd cn) ?m2 m'" by simp
  moreover have "foot (el_poller el) c (cn_channel cn) (sock_fd cn) m ?m1"
    by (rule foot_put_conn [where cn = cn]) (use l(1) in \<open>auto simp: linked_def conn_fixed_def\<close>)
  moreover have "foot (el_poller el) c (cn_channel cn) (sock_fd cn) ?m1 ?m2"
    by (rule foot_put_chan [where ch = ch]) (use l(1) in \<open>auto simp: linked_def chan_fixed_def\<close>)
  ultimately have foot: "foot (e_poller E (cn_loop cn)) c (cn_channel cn) (sock_fd cn) m m'"
    unfolding el(2) by (blast intro: foot_trans)
  then have t: "touch (e_poller E (cn_loop cn)) c (cn_channel cn) (sock_fd cn) m m'" "loop_at m' (cn_loop cn) = Some el"
    using el(1) by (simp_all add: foot_def)
  have "buffer_inv (inputBuffer (cn\<lparr>cn_state := kConnected\<rparr>))" using l(1) by (simp add: linked_def)
  note after = linked_after [OF m'(2) l(1) t el(2) this]
  have "usable (e_poller E (cn_loop cn)) (cn_channel cn) m'" "chan_at m' (cn_channel cn) = Some ch'"
    using after(1) by (simp_all add: linked_def)
  from watched_index [OF after(2) this] m'(5) el(2) have "ch_index ch' = kAdd" "ch_events ch' = kReadEvent" by (simp_all split: if_splits)
  with m'(1,3,4) foot after(1,2) show ?thesis by blast
qed

text \<open>How the queues change when connection \<open>c\<close> moves: loop \<open>pp\<close> has taken the head of its queue, and
  \<open>ps\<close> are the closures that were queued.\<close>

definition moved :: "env \<Rightarrow> ptr \<Rightarrow> ptr option \<Rightarrow> (ptr \<Rightarrow> 'v app closure list) \<Rightarrow> 'v session \<Rightarrow> 'v session \<Rightarrow> bool" where
  "moved E c pp ps m m' \<longleftrightarrow> (\<forall>l \<in> set (e_loops E).
     queue_of m' l = (if pp = Some l then tl (queue_of m l) else queue_of m l) @ ps l
     \<and> finished m' l = finished m l @ (if pp = Some l then [hd (queue_of m l)] else [])
     \<and> (pp = Some l \<longrightarrow> queue_of m l \<noteq> [] \<and> target (hd (queue_of m l)) = Some c)
     \<and> (\<forall>f \<in> set (ps l). target f = Some c))"

lemma owner_target: "owner f = Some c \<Longrightarrow> target f = Some c"
  by (cases f rule: owner.cases) auto

lemma at_conn_simps [simp]:
  "at_conn c [] = []" "at_conn c (p @ q) = at_conn c p @ at_conn c q"
  "at_conn c (f # q) = (if target f = Some c then f # at_conn c q else at_conn c q)"
  by (simp_all add: at_conn_def)

lemma at_conn_all: "\<forall>f \<in> set q. target f = Some c \<Longrightarrow> at_conn d q = (if d = c then q else [])"
  by (induction q) auto

lemma moved_at_conn:
  assumes "moved E c pp ps m m'" and "l \<in> set (e_loops E)"
  shows "d \<noteq> c \<Longrightarrow> at_conn d (queue_of m' l) = at_conn d (queue_of m l)"
    and "at_conn c (queue_of m' l) = (if pp = Some l then tl (at_conn c (queue_of m l)) else at_conn c (queue_of m l)) @ ps l"
proof -
  have m: "queue_of m' l = (if pp = Some l then tl (queue_of m l) else queue_of m l) @ ps l"
    "pp = Some l \<Longrightarrow> queue_of m l \<noteq> [] \<and> target (hd (queue_of m l)) = Some c" "\<forall>f \<in> set (ps l). target f = Some c"
    using assms unfolding moved_def by simp_all
  note all = at_conn_all [OF m(3)]
  show "d \<noteq> c \<Longrightarrow> at_conn d (queue_of m' l) = at_conn d (queue_of m l)"
    using m(1,2) all [of d] by (cases "queue_of m l") auto
  show "at_conn c (queue_of m' l) = (if pp = Some l then tl (at_conn c (queue_of m l)) else at_conn c (queue_of m l)) @ ps l"
    using m(1,2) all [of c] by (cases "queue_of m l") auto
qed

lemma targets_grow:
  assumes "targets E m" and dom: "\<And>d. conn_at m d \<noteq> None \<Longrightarrow> conn_at m' d \<noteq> None"
    and queue: "\<And>l f. l \<in> set (e_loops E) \<Longrightarrow> f \<in> set (queue_of m' l) \<Longrightarrow> f \<in> set (queue_of m l) \<or> target f = Some c"
    and fin: "\<And>l f. l \<in> set (e_loops E) \<Longrightarrow> f \<in> set (finished m' l) \<Longrightarrow> f \<in> set (finished m l) \<or> target f = Some c"
    and c: "conn_at m' c \<noteq> None"
  shows "targets E m'"
  unfolding targets_def
proof (intro ballI conjI allI impI)
  fix l f assume l: "l \<in> set (e_loops E)" and f: "f \<in> set (queue_of m' l)"
  from queue [OF l f] show "\<exists>d. target f = Some d \<and> conn_at m' d \<noteq> None"
    using assms(1) dom l c unfolding targets_def by blast
next
  fix l f d assume l: "l \<in> set (e_loops E)" and f: "f \<in> set (finished m' l)" "owner f = Some d"
  from fin [OF l f(1)] show "conn_at m' d \<noteq> None"
    using assms(1) dom l c f(2) owner_target [OF f(2)] unfolding targets_def by fastforce
qed

lemma session_ok_move:
  assumes inv: "session_ok E m" and E: "env_ok E"
    and c: "linked E c cn ch m" "linked E c cn' ch' m'" and loop: "cn_loop cn' = cn_loop cn"
    and t: "touch (e_poller E (cn_loop cn)) c (cn_channel cn) (sock_fd cn) m m'"
    and own: "poller_inv (e_poller E (cn_loop cn)) m'"
    and fixed: "\<And>l. l \<in> set (e_loops E) \<Longrightarrow> map_option loop_fixed (loop_at m' l) = map_option loop_fixed (loop_at m l)"
    and srv: "server_ok E m'" and tab: "\<And>d. d \<noteq> c \<Longrightarrow> in_table E d m' = in_table E d m"
    and mv: "moved E c pp ps m m'"
    and old: "staged E c cn ch (\<lambda>l. at_conn c (queue_of m l)) (in_table E c m) (kept E c m) st k"
    and new: "stage_ok st' c cn' ch' (in_table E c m') (kept E c m')" "st' = Closing \<Longrightarrow> cn_loop cn \<noteq> e_base E"
    and next_queue: "\<And>l. l \<in> set (e_loops E) \<Longrightarrow> (let e = expect st (e_server E) (e_base E) (cn_loop cn) k c l
      in (if pp = Some l then tl e else e) @ ps l) = expect st' (e_server E) (e_base E) (cn_loop cn) k' c l"
  shows "session_ok E m'"
proof (rule session_ok_act [OF inv E c loop t own fixed srv tab])
  show "at_conn d (queue_of m' l) = at_conn d (queue_of m l)" if "d \<noteq> c" "l \<in> set (e_loops E)" for d l
    using moved_at_conn(1) [OF mv that(2,1)] .
  show "kept E d m'" if "kept E d m" for d
    using that mv by (auto simp: kept_def moved_def)
  have dom: "conn_at m' d \<noteq> None" if "conn_at m d \<noteq> None" for d
    using that t c(2) by (cases "d = c") (auto simp: touch_def linked_def)
  show "targets E m'"
  proof (rule targets_grow)
    show "targets E m" using inv by (simp add: session_ok_def)
    show "f \<in> set (queue_of m l) \<or> target f = Some c" if "l \<in> set (e_loops E)" "f \<in> set (queue_of m' l)" for l f
      using that mv unfolding moved_def by (auto split: if_splits dest: list.set_sel(2))
    show "f \<in> set (finished m l) \<or> target f = Some c" if "l \<in> set (e_loops E)" "f \<in> set (finished m' l)" for l f
      using that mv unfolding moved_def by (auto split: if_splits)
  qed (use dom c(2) in \<open>simp_all add: linked_def\<close>)
  show "staged E c cn' ch' (\<lambda>l. at_conn c (queue_of m' l)) (in_table E c m') (kept E c m') st' k'"
    unfolding staged_def loop
  proof (intro conjI ballI impI)
    fix l assume l: "l \<in> set (e_loops E)"
    have "at_conn c (queue_of m l) = expect st (e_server E) (e_base E) (cn_loop cn) k c l"
      using old l by (simp add: staged_def)
    with moved_at_conn(2) [OF mv l] next_queue [OF l]
    show "at_conn c (queue_of m' l) = expect st' (e_server E) (e_base E) (cn_loop cn) k' c l"
      by (cases "pp = Some l") (simp_all add: Let_def)
  qed (use new in simp_all)
qed

text \<open>The server after a step that leaves it alone, and after one that erases the name of \<open>c\<close>.\<close>

lemma touch_names:
  assumes "touch p c w fd m m'"
  shows "map_option cn_name (conn_at m' d) = map_option cn_name (conn_at m d)"
proof (cases "d = c")
  case True
  have "map_option conn_fixed (conn_at m' c) = map_option conn_fixed (conn_at m c)" using assms by (simp add: touch_def)
  then show ?thesis using True by (cases "conn_at m c"; cases "conn_at m' c") (auto simp: conn_fixed_def)
qed (use assms in \<open>simp add: touch_def\<close>)

lemma names_some:
  assumes "map_option cn_name x = map_option cn_name y"
  shows "(\<exists>cn. x = Some cn \<and> P (cn_name cn)) = (\<exists>cn. y = Some cn \<and> P (cn_name cn))"
  using assms by (cases x; cases y) auto

lemma in_table_names:
  assumes "\<And>d. map_option cn_name (conn_at m' d) = map_option cn_name (conn_at m d)" and "server_at m' = server_at m"
  shows "in_table E d m' = in_table E d m"
proof (cases "server_at m (e_server E)")
  case (Some sv)
  then show ?thesis using names_some [OF assms(1) [of d], of "\<lambda>n. sv_connections sv n = Some d"] assms(2) by (simp add: in_table_def)
qed (simp add: in_table_def assms(2))

lemma server_ok_names:
  assumes "server_ok E m" and "\<And>d. map_option cn_name (conn_at m' d) = map_option cn_name (conn_at m d)" and "server_at m' = server_at m"
  shows "server_ok E m'"
proof -
  have "(\<exists>cn. conn_at m' c = Some cn \<and> cn_name cn = n) = (\<exists>cn. conn_at m c = Some cn \<and> cn_name cn = n)" for c n
    by (rule names_some) (rule assms(2))
  with assms(1,3) show ?thesis by (simp add: server_ok_def)
qed

lemma server_ok_erase:
  assumes srv: "server_ok E m" and names: "\<And>d. map_option cn_name (conn_at m' d) = map_option cn_name (conn_at m d)"
    and sv: "server_at m (e_server E) = Some sv" "server_at m' = (server_at m)(e_server E \<mapsto> erase_name (cn_name cn) sv)"
    and c: "conn_at m c = Some cn" "in_table E c m"
  shows "server_ok E m'" and "d \<noteq> c \<Longrightarrow> in_table E d m' = in_table E d m" and "\<not> in_table E c m'"
proof -
  have tab: "sv_connections sv (cn_name cn) = Some c" using c sv(1) by (auto simp: in_table_def)
  have "(\<exists>dn. conn_at m' d = Some dn \<and> cn_name dn = n) = (\<exists>dn. conn_at m d = Some dn \<and> cn_name dn = n)" for d n
    by (rule names_some) (rule names)
  with srv sv show "server_ok E m'"
    by (auto simp: server_ok_def erase_name_def table_ok_erase server_loops_def)
  show "in_table E d m' = in_table E d m" if "d \<noteq> c"
  proof -
    have "sv_connections (erase_name (cn_name cn) sv) n = Some d \<longleftrightarrow> sv_connections sv n = Some d" for n
      using tab that by (auto simp: erase_name_def)
    then show ?thesis using sv names_some [OF names [of d], of "\<lambda>n. sv_connections sv n = Some d"] by (simp add: in_table_def)
  qed
  have "cn_name cn' = cn_name cn" if "conn_at m' c = Some cn'" for cn' using names [of c] that c(1) by simp
  then show "\<not> in_table E c m'" using sv(2) by (auto simp: in_table_def erase_name_def)
qed

text \<open>A step that changes no connection; a connection out of the poller stays held by a functor.\<close>

lemma session_ok_core:
  assumes inv: "session_ok E m" and core: "core_same m m'" and srv: "server_at m' = server_at m"
    and fixed: "\<And>l. l \<in> set (e_loops E) \<Longrightarrow> map_option loop_fixed (loop_at m' l) = map_option loop_fixed (loop_at m l)"
    and queue: "\<And>l. l \<in> set (e_loops E) \<Longrightarrow> queue_of m' l = queue_of m l"
    and fin: "\<And>l. l \<in> set (e_loops E) \<Longrightarrow> set (finished m' l) \<subseteq> set (finished m l)"
    and keeps: "\<And>d. kept E d m \<Longrightarrow> \<not> in_table E d m \<Longrightarrow> \<forall>l \<in> set (e_loops E). at_conn d (queue_of m l) = [] \<Longrightarrow> kept E d m'"
  shows "session_ok E m'"
proof -
  have conn: "conn_at m' = conn_at m" using core by (simp add: core_same_def)
  have tab: "in_table E d m' = in_table E d m" for d by (simp add: in_table_def conn srv)
  have "poller_ok E l m' = poller_ok E l m" for l
    using core_poller [OF core] core by (simp add: poller_ok_def core_same_def)
  then have "\<forall>l \<in> set (e_loops E). loop_ok E l m'" using inv fixed by (simp add: session_ok_def loop_ok_def)
  moreover have "conn_inv E d m'" for d
    unfolding conn_inv_def conn
  proof (intro allI impI)
    fix dn assume "conn_at m d = Some dn"
    from session_ok_conn [OF inv this] obtain dh st k where
      d: "linked E d dn dh m" "staged E d dn dh (\<lambda>l. at_conn d (queue_of m l)) (in_table E d m) (kept E d m) st k" .
    have "kept E d m'" if "st = Dead"
      using d(2) that by (intro keeps) (simp_all add: staged_def)
    then have "staged E d dn dh (\<lambda>l. at_conn d (queue_of m' l)) (in_table E d m') (kept E d m') st k"
      using d(2) queue unfolding staged_def tab by (cases st) auto
    with d(1) core_linked [OF core] show "\<exists>ch st k. linked E d dn ch m'
        \<and> staged E d dn ch (\<lambda>l. at_conn d (queue_of m' l)) (in_table E d m') (kept E d m') st k" by blast
  qed
  moreover have "targets E m'" using inv queue fin conn by (fastforce simp: session_ok_def targets_def)
  moreover have "server_ok E m'" using inv srv conn by (simp add: session_ok_def server_ok_def)
  ultimately show ?thesis using inv conn by (simp add: session_ok_def)
qed

end
