(* ===== verification/Muduo_SessionSteps.thy ===== *)
theory Muduo_SessionSteps
  imports Muduo_Session
begin

text \<open>
  Each event of \<open>Muduo_Session\<close> in turn: it returns, and it keeps the invariant.
\<close>

section \<open>A functor is called\<close>

text \<open>\<open>conneectDestroyed\<close> of a connection that is closed.\<close>

lemma destroyed:
  fixes m :: "'v session"
  assumes K: "ctl_documented K" and l: "linked E c cn ch m" "loop_ok E (cn_loop cn) m" "env_ok E"
    "cur_tid m = e_thread E (cn_loop cn)" and st: "cn_state cn = kDisconnected"
  shows "\<exists>m'. conneectDestroyed K U c m = Inr m' \<and> foot (e_poller E (cn_loop cn)) c (cn_channel cn) (sock_fd cn) m m'
    \<and> linked E c cn (ch\<lparr>ch_index := kNew\<rparr>) m' \<and> poller_inv (e_poller E (cn_loop cn)) m'"
proof -
  note ok = linked_conn_ok [OF l]
  from loop_okD [OF l(2)] obtain el where el: "loop_at m (cn_loop cn) = Some el" "el_poller el = e_poller E (cn_loop cn)" .
  from channel_remove_conn [OF ok K] obtain m' where
    m': "channel_remove K (cn_channel cn) m = Inr m'" "conn_at m' = conn_at m"
      "chan_at m' (cn_channel cn) = Some (ch\<lparr>ch_index := kNew\<rparr>)" by blast
  have d: "conn_at m c = Some cn" "chan_at m (cn_channel cn) = Some ch" "c \<noteq> 0" "cn_channel cn \<noteq> 0" "ch_loop ch = cn_loop cn"
    "ch_fd ch = sock_fd cn" "usable (e_poller E (cn_loop cn)) (cn_channel cn) m" using l(1) by (simp_all add: linked_def)
  have "conneectDestroyed K U c m = Inr m'" using d m'(1) st by (simp add: conneectDestroyed_def)
  moreover have f: "foot (e_poller E (cn_loop cn)) c (cn_channel cn) (sock_fd cn) m m'"
    by (rule foot_channel_remove [OF m'(1) d(2)]) (use d el in simp_all)
  moreover have rc: "removeChannel K (e_poller E (cn_loop cn)) (cn_channel cn) m = Inr m'"
    using m'(1) d el by (auto simp: channel_remove_def loop_removeChannel_def halts)
  from remove_move [OF K loop_ok_poller(2) [OF loop_ok_poller(1) [OF l(2)]] d(7)]
  have "poller_inv (e_poller E (cn_loop cn)) m'" "usable (e_poller E (cn_loop cn)) (cn_channel cn) m'"
    unfolding rc by auto
  moreover from this have "linked E c cn (ch\<lparr>ch_index := kNew\<rparr>) m'"
    using l(1) m'(2,3) by (simp add: linked_def)
  ultimately show ?thesis by blast
qed

text \<open>\<open>removeConnectionInLoop\<close>.\<close>

lemma removed_in_loop:
  fixes m :: "'v session"
  assumes "s \<noteq> 0" and "server_at m s = Some sv" and "c \<noteq> 0" and "conn_at m c = Some cn" and "cn_loop cn \<noteq> 0"
    and "loop_at m (cn_loop cn) = Some el"
  shows "\<exists>m'. removeConnectionInLoop K s c m = Inr m' \<and> core_same m m'
    \<and> server_at m' = (server_at m)(s \<mapsto> erase_name (cn_name cn) sv) \<and> todo m' = todo m \<and> finished m' = finished m \<and> cur_tid m' = cur_tid m
    \<and> loop_at m' = (loop_at m)(cn_loop cn \<mapsto> el\<lparr>pendingFunctors := pendingFunctors el @ [ConnDestroyed c]\<rparr>)"
proof -
  let ?m = "put_server s (erase_name (cn_name cn) sv) m"
  have "loop_at ?m (cn_loop cn) = Some el" using assms(6) by simp
  from queueInLoop_core [OF assms(5) this, of K "ConnDestroyed c"] obtain m' where
    "queueInLoop K (cn_loop cn) (ConnDestroyed c) ?m = Inr m'" "core_same ?m m'" "server_at m' = server_at ?m"
    "todo m' = todo ?m" "finished m' = finished ?m" "cur_tid m' = cur_tid ?m"
    "loop_at m' = (loop_at ?m)(cn_loop cn \<mapsto> el\<lparr>pendingFunctors := pendingFunctors el @ [ConnDestroyed c]\<rparr>)" by blast
  moreover have "removeConnectionInLoop K s c m = queueInLoop K (cn_loop cn) (ConnDestroyed c) ?m"
    using assms(1-4) by (simp add: removeConnectionInLoop_def erase_name_def)
  ultimately show ?thesis by (intro exI [of _ m']) simp
qed

text \<open>The head of what is queued about a connection says where the connection is.\<close>

lemma expect_head:
  assumes "expect st s b io k c l = f # r"
  obtains (est) "st = Connecting" "l = io" "f = ConnEstablished c" "r = []"
  | (shut) k' where "st \<in> {Open, Closing, Removed}" "l = io" "f = ShutdownInLoop c" "k = Suc k'" "r = expect st s b io k' c l"
  | (rem) "st = Closing" "l = b" "l \<noteq> io" "f = OtherClosure (RemoveConnectionInLoop s c)" "r = []"
  | (des) "st = Removed" "l = io" "k = 0" "f = ConnDestroyed c" "r = []"
  using assms by (cases st; cases k) (auto split: if_splits)

lemma expect_other: "l \<noteq> io \<Longrightarrow> expect st s b io k c l = expect st s b io k' c l"
  by (cases st) auto

definition popped :: "int \<Rightarrow> ptr \<Rightarrow> 'v app closure \<Rightarrow> 'v app closure list \<Rightarrow> 'v session \<Rightarrow> 'v session" where
  "popped t l f fs m = m\<lparr>cur_tid := t, todo := (todo m)(l := fs), finished := (finished m)(l := finished m l @ [f])\<rparr>"

lemma popped_simps [simp]:
  "todo (popped t l f fs m) = (todo m)(l := fs)" "finished (popped t l f fs m) = (finished m)(l := finished m l @ [f])"
  "cur_tid (popped t l f fs m) = t" "loop_at (popped t l f fs m) = loop_at m" "server_at (popped t l f fs m) = server_at m"
  "conn_at (popped t l f fs m) = conn_at m" "core_same m' (popped t l f fs m) = core_same m' m"
  by (simp_all add: popped_def core_same_def)

lemma moved_popped:
  assumes "todo m l = f # fs" and "target f = Some c" and "todo m' = (todo m)(l := fs)" and "finished m' = (finished m)(l := finished m l @ [f])"
    and "\<And>j. j \<in> set (e_loops E) \<Longrightarrow> pending_of j m' = pending_of j m @ ps j" and "\<And>j g. g \<in> set (ps j) \<Longrightarrow> target g = Some c"
  shows "moved E c (Some l) ps m m'"
  using assms by (auto simp: moved_def queue_of_def)

lemma kept_popped:
  assumes "finished m' = (finished m)(l := finished m l @ [f])" and "l \<in> set (e_loops E)" and "owner f = Some c"
  shows "kept E c m'"
  using assms by (auto simp: kept_def)

lemma pending_put:
  assumes "loop_at m' = (loop_at m)(i \<mapsto> el\<lparr>pendingFunctors := pendingFunctors el @ [g]\<rparr>)" and "loop_at m i = Some el"
  shows "pending_of j m' = pending_of j m @ (if j = i then [g] else [])"
    and "map_option loop_fixed (loop_at m' j) = map_option loop_fixed (loop_at m j)"
  using assms by (auto simp: pending_of_def loop_fixed_def)

lemma pending_same: "loop_at m' = loop_at m \<Longrightarrow> pending_of j m' = pending_of j m"
  by (simp add: pending_of_def)

text \<open>What a call changes in the queues: \<open>io\<close> is the loop of the connection taken out of the table.\<close>

definition removal :: "'v app closure \<Rightarrow> bool" where
  "removal f \<longleftrightarrow> (case f of OtherClosure (RemoveConnectionInLoop s c) \<Rightarrow> True | _ \<Rightarrow> False)"

definition over :: "ptr \<Rightarrow> 'v session \<Rightarrow> bool" where
  "over d m \<longleftrightarrow> (case conn_at m d of None \<Rightarrow> True | Some dn \<Rightarrow> cn_state dn = kDisconnected)"

definition ran :: "ptr \<Rightarrow> 'v app closure \<Rightarrow> 'v app closure list \<Rightarrow> 'v session \<Rightarrow> 'v session \<Rightarrow> bool" where
  "ran l f fs m m' \<longleftrightarrow> todo m' = (todo m)(l := fs) \<and> finished m' = (finished m)(l := finished m l @ [f])
     \<and> (\<forall>j. calling j m' = calling j m)
     \<and> (\<exists>io. \<forall>j. pending_of j m' = pending_of j m @ (if removal f \<and> j = io then [ConnDestroyed (the (target f))] else []))
     \<and> (\<forall>d. over d m \<longrightarrow> conn_at m' d = conn_at m d)"

lemma ran_still:
  assumes "todo m' = (todo m)(l := fs)" and "finished m' = (finished m)(l := finished m l @ [f])" and "loop_at m' = loop_at m"
    and "\<not> removal f" and "\<And>d. over d m \<Longrightarrow> conn_at m' d = conn_at m d"
  shows "ran l f fs m m'"
  using assms by (simp add: ran_def calling_def pending_same [OF assms(3)])

lemma foot_conn:
  "foot p c w fd m m' \<Longrightarrow> d \<noteq> c \<Longrightarrow> conn_at m' d = conn_at m d"
  by (simp add: foot_def touch_def)

text \<open>The state in which the first functor \<open>f\<close> of loop \<open>l\<close> runs: it is about connection \<open>c\<close>.\<close>

definition at_head :: "env \<Rightarrow> ptr \<Rightarrow> 'v app closure \<Rightarrow> 'v app closure list \<Rightarrow> ptr \<Rightarrow> 'v app tcpconn \<Rightarrow> 'v app closure channel
    \<Rightarrow> stage \<Rightarrow> nat \<Rightarrow> 'v session \<Rightarrow> bool" where
  "at_head E l f fs c cn ch st k m \<longleftrightarrow> session_ok E m \<and> env_ok E \<and> l \<in> set (e_loops E) \<and> todo m l = f # fs \<and> target f = Some c
     \<and> linked E c cn ch m \<and> staged E c cn ch (\<lambda>l. at_conn c (queue_of m l)) (in_table E c m) (kept E c m) st k"

lemma at_headD:
  assumes "at_head E l f fs c cn ch st k m"
  shows "session_ok E m" "env_ok E" "l \<in> set (e_loops E)" "todo m l = f # fs" "target f = Some c" "linked E c cn ch m"
    "staged E c cn ch (\<lambda>l. at_conn c (queue_of m l)) (in_table E c m) (kept E c m) st k"
    "stage_ok st c cn ch (in_table E c m) (kept E c m)" "st = Closing \<Longrightarrow> cn_loop cn \<noteq> e_base E"
    "conn_at m c = Some cn" "c \<noteq> 0" "cn_loop cn \<in> set (e_loops E)" "loop_ok E (cn_loop cn) m" "server_ok E m"
    "linked E c cn ch (popped (e_thread E l) l f fs m)" "loop_ok E (cn_loop cn) (popped (e_thread E l) l f fs m)"
proof -
  have core: "core_same m (popped (e_thread E l) l f fs m)" by simp
  show all: "session_ok E m" "env_ok E" "l \<in> set (e_loops E)" "todo m l = f # fs" "target f = Some c" "linked E c cn ch m"
    "staged E c cn ch (\<lambda>l. at_conn c (queue_of m l)) (in_table E c m) (kept E c m) st k"
    using assms by (simp_all add: at_head_def)
  then show "stage_ok st c cn ch (in_table E c m) (kept E c m)" "st = Closing \<Longrightarrow> cn_loop cn \<noteq> e_base E"
    "conn_at m c = Some cn" "c \<noteq> 0" "server_ok E m" and io: "cn_loop cn \<in> set (e_loops E)"
    by (simp_all add: staged_def linked_def session_ok_def)
  with all(1) show loop: "loop_ok E (cn_loop cn) m" by (simp add: session_ok_def)
  from all(6) show "linked E c cn ch (popped (e_thread E l) l f fs m)" using core_linked [OF core] by simp
  from loop show "loop_ok E (cn_loop cn) (popped (e_thread E l) l f fs m)" using core_loop_ok [OF core] by simp
qed

lemma at_head_touch:
  assumes h: "at_head E l f fs c cn ch st k m" and t: "touch p c w fd m m'" and srv: "server_at m' = server_at m"
  shows "server_ok E m'" "in_table E d m' = in_table E d m"
  using server_ok_names [OF at_headD(14) [OF h] touch_names [OF t] srv] in_table_names [OF touch_names [OF t] srv] by simp_all

text \<open>The four functors that are about a connection.\<close>

lemma run_established:
  fixes m :: "'v session"
  assumes h: "at_head E (cn_loop cn) (ConnEstablished c) fs c cn ch Connecting k m" and K: "ctl_documented K" and V: "quiet_calls V"
  shows "\<exists>m'. conneectEstableished K (app_call K V) c (popped (e_thread E (cn_loop cn)) (cn_loop cn) (ConnEstablished c) fs m) = Inr m'
    \<and> session_ok E m' \<and> ran (cn_loop cn) (ConnEstablished c) fs m m' \<and> cur_tid m' = e_thread E (cn_loop cn)"
proof -
  note d = at_headD [OF h]
  let ?l = "cn_loop cn" and ?f = "ConnEstablished c"
  let ?m0 = "popped (e_thread E ?l) ?l ?f fs m"
  have "cur_tid ?m0 = e_thread E ?l" "ch_events ch = 0" using d(8) by simp_all
  from established [OF K V d(15,16,2) this] obtain m' ch' where
    m': "conneectEstableished K (app_call K V) c ?m0 = Inr m'" "foot (e_poller E ?l) c (cn_channel cn) (sock_fd cn) ?m0 m'"
      "linked E c (cn\<lparr>cn_state := kConnected\<rparr>) ch' m'" "poller_inv (e_poller E ?l) m'"
      "ch_index ch' = kAdd" "ch_events ch' = kReadEvent" "ch_tied ch'" "ch_tie ch' = c" by blast
  have t: "touch (e_poller E ?l) c (cn_channel cn) (sock_fd cn) m m'"
    using touch_trans [OF core_touch [of m ?m0]] m'(2) by (simp add: foot_def)
  have keep: "server_at m' = server_at m" "todo m' = (todo m)(?l := fs)" "finished m' = (finished m)(?l := finished m ?l @ [?f])"
    "loop_at m' = loop_at m" "cur_tid m' = e_thread E ?l" using m'(2) more_session [of m' ?m0] by (simp_all add: foot_def)
  have mv: "moved E c (Some ?l) (\<lambda>_. []) m m'"
    by (rule moved_popped [OF d(4,5) keep(2,3)]) (simp_all add: pending_same [OF keep(4)])
  have "session_ok E m'"
    by (rule session_ok_move [where st' = Open and k' = 0, OF d(1,2,6) m'(3) _ t m'(4) _ _ _ mv d(7)])
      (use at_head_touch [OF h t keep(1)] keep(4) d(8) m'(5-8) in \<open>auto simp: Let_def\<close>)
  moreover have "ran ?l ?f fs m m'"
  proof (rule ran_still [OF keep(2-4)])
    show "conn_at m' x = conn_at m x" if "over x m" for x
      using foot_conn [OF m'(2)] that d(8,10) by (cases "x = c") (auto simp: over_def)
  qed (simp add: removal_def)
  ultimately show ?thesis using m'(1) keep(5) by blast
qed

lemma run_shutdown:
  fixes m :: "'v session"
  assumes h: "at_head E (cn_loop cn) (ShutdownInLoop c) fs c cn ch st (Suc k) m" and st: "st \<in> {Open, Closing, Removed}"
  shows "\<exists>m'. shutdownInLoop K c (popped (e_thread E (cn_loop cn)) (cn_loop cn) (ShutdownInLoop c) fs m) = Inr m'
    \<and> session_ok E m' \<and> ran (cn_loop cn) (ShutdownInLoop c) fs m m' \<and> cur_tid m' = e_thread E (cn_loop cn)"
proof -
  note d = at_headD [OF h]
  let ?l = "cn_loop cn" and ?f = "ShutdownInLoop c"
  let ?m0 = "popped (e_thread E ?l) ?l ?f fs m"
  have ok: "conn_ok c cn ch ?m0" by (rule linked_conn_ok [OF d(15,16,2)]) simp
  obtain m' where m': "shutdownInLoop K c ?m0 = Inr m'" "core_same ?m0 m'" "server_at m' = server_at m"
    "todo m' = (todo m)(?l := fs)" "finished m' = (finished m)(?l := finished m ?l @ [?f])" "loop_at m' = loop_at m"
    "cur_tid m' = e_thread E ?l"
    using shutdownInLoop_conn [OF ok, of K] by (cases "isWriting ch") simp_all
  have core: "core_same m m'" using core_trans [OF _ m'(2)] by simp
  have lk: "linked E c cn ch m'" "poller_inv (e_poller E ?l) m'"
    using d(6) core_linked [OF core] core_poller [OF core] loop_ok_poller d(13) by blast+
  have t: "touch (e_poller E ?l) c (cn_channel cn) (sock_fd cn) m m'" by (rule core_touch [OF core])
  have mv: "moved E c (Some ?l) (\<lambda>_. []) m m'"
    by (rule moved_popped [OF d(4,5) m'(4,5)]) (simp_all add: pending_same [OF m'(6)])
  note touched = at_head_touch [OF h t m'(3)]
  have new: "stage_ok st c cn ch (in_table E c m') (kept E c m')" using d(8) st touched(2) by auto
  have q: "(let e = expect st (e_server E) (e_base E) ?l (Suc k) c j in (if Some ?l = Some j then tl e else e) @ [])
      = expect st (e_server E) (e_base E) ?l k c j" if "j \<in> set (e_loops E)" for j
    using st expect_other [of j ?l] by (auto simp: Let_def)
  have "session_ok E m'"
    by (rule session_ok_move [OF d(1,2,6) lk(1) _ t lk(2) _ _ _ mv d(7) new d(9) q]) (use touched m'(6) in auto)
  moreover have "ran ?l ?f fs m m'"
    using core by (intro ran_still [OF m'(4-6)]) (auto simp: removal_def core_same_def)
  ultimately show ?thesis using m'(1,7) by blast
qed

lemma run_removal:
  fixes m :: "'v session"
  assumes h: "at_head E l (OtherClosure (RemoveConnectionInLoop (e_server E) c)) fs c cn ch Closing k m" and l: "l = e_base E"
  shows "\<exists>m'. removeConnectionInLoop K (e_server E) c (popped (e_thread E l) l (OtherClosure (RemoveConnectionInLoop (e_server E) c)) fs m) = Inr m'
    \<and> session_ok E m' \<and> ran l (OtherClosure (RemoveConnectionInLoop (e_server E) c)) fs m m' \<and> cur_tid m' = e_thread E l"
proof -
  note d = at_headD [OF h]
  let ?f = "OtherClosure (RemoveConnectionInLoop (e_server E) c)"
  let ?m0 = "popped (e_thread E l) l ?f fs m"
  from loop_okD [OF d(13)] obtain iol where iol: "loop_at m (cn_loop cn) = Some iol" .
  obtain sv where sv: "server_at m (e_server E) = Some sv" using d(14) by (auto simp: server_ok_def)
  have s: "e_server E \<noteq> 0" "cn_loop cn \<noteq> 0" using d(2,12) by (metis env_ok_def)+
  from removed_in_loop [OF s(1) _ d(11) _ s(2), of ?m0 sv iol K] sv d(10) iol obtain m' where
    m': "removeConnectionInLoop K (e_server E) c ?m0 = Inr m'" "core_same ?m0 m'"
      "server_at m' = (server_at m)(e_server E \<mapsto> erase_name (cn_name cn) sv)"
      "todo m' = (todo m)(l := fs)" "finished m' = (finished m)(l := finished m l @ [?f])"
      "loop_at m' = (loop_at m)(cn_loop cn \<mapsto> iol\<lparr>pendingFunctors := pendingFunctors iol @ [ConnDestroyed c]\<rparr>)"
      "cur_tid m' = e_thread E l"
    by auto
  have core: "core_same m m'" using core_trans [OF _ m'(2)] by simp
  have lk: "linked E c cn ch m'" "poller_inv (e_poller E (cn_loop cn)) m'"
    using d(6) core_linked [OF core] core_poller [OF core] loop_ok_poller d(13) by blast+
  have t: "touch (e_poller E (cn_loop cn)) c (cn_channel cn) (sock_fd cn) m m'" by (rule core_touch [OF core])
  have mv: "moved E c (Some l) (\<lambda>j. if j = cn_loop cn then [ConnDestroyed c] else []) m m'"
    by (rule moved_popped [OF d(4,5) m'(4,5)]) (simp_all add: pending_put [OF m'(6) iol] split: if_splits)
  have "in_table E c m" using d(8) by simp
  note erase = server_ok_erase [OF d(14) touch_names [OF t] sv m'(3) d(10) this]
  have "session_ok E m'"
    by (rule session_ok_move [where st' = Removed and k' = k, OF d(1,2,6) lk(1) _ t lk(2) _ erase(1,2) mv d(7)])
      (use erase(3) pending_put(2) [OF m'(6) iol] d(8,9) l in \<open>auto simp: Let_def\<close>)
  moreover have "ran l ?f fs m m'"
    using core m'(4-6) iol pending_put(1) [OF m'(6) iol] by (auto simp: ran_def removal_def core_same_def calling_def)
  ultimately show ?thesis using m'(1,7) by blast
qed

lemma run_destroyed:
  fixes m :: "'v session"
  assumes h: "at_head E (cn_loop cn) (ConnDestroyed c) fs c cn ch Removed 0 m" and K: "ctl_documented K"
  shows "\<exists>m'. conneectDestroyed K U c (popped (e_thread E (cn_loop cn)) (cn_loop cn) (ConnDestroyed c) fs m) = Inr m'
    \<and> session_ok E m' \<and> ran (cn_loop cn) (ConnDestroyed c) fs m m' \<and> cur_tid m' = e_thread E (cn_loop cn)"
proof -
  note d = at_headD [OF h]
  let ?l = "cn_loop cn" and ?f = "ConnDestroyed c"
  let ?m0 = "popped (e_thread E ?l) ?l ?f fs m"
  have "cur_tid ?m0 = e_thread E ?l" "cn_state cn = kDisconnected" using d(8) by simp_all
  from destroyed [OF K d(15,16,2) this, of U] obtain m' where
    m': "conneectDestroyed K U c ?m0 = Inr m'" "foot (e_poller E ?l) c (cn_channel cn) (sock_fd cn) ?m0 m'"
      "linked E c cn (ch\<lparr>ch_index := kNew\<rparr>) m'" "poller_inv (e_poller E ?l) m'" by blast
  have t: "touch (e_poller E ?l) c (cn_channel cn) (sock_fd cn) m m'"
    using touch_trans [OF core_touch [of m ?m0]] m'(2) by (simp add: foot_def)
  have keep: "server_at m' = server_at m" "todo m' = (todo m)(?l := fs)" "finished m' = (finished m)(?l := finished m ?l @ [?f])"
    "loop_at m' = loop_at m" "cur_tid m' = e_thread E ?l" using m'(2) more_session [of m' ?m0] by (simp_all add: foot_def)
  have mv: "moved E c (Some ?l) (\<lambda>_. []) m m'"
    by (rule moved_popped [OF d(4,5) keep(2,3)]) (simp_all add: pending_same [OF keep(4)])
  have "kept E c m'" by (rule kept_popped [OF keep(3) d(12)]) simp
  then have "session_ok E m'"
    by (intro session_ok_move [where st' = Dead and k' = 0, OF d(1,2,6) m'(3) _ t m'(4) _ _ _ mv d(7)])
      (use at_head_touch [OF h t keep(1)] keep(4) d(8) in \<open>auto simp: Let_def\<close>)
  moreover have "ran ?l ?f fs m m'"
  proof (rule ran_still [OF keep(2-4)])
    show "conn_at m' x = conn_at m x" for x
      using foot_conn [OF m'(2)] d(10) m'(3) by (cases "x = c") (auto simp: linked_def)
  qed (simp add: removal_def)
  ultimately show ?thesis using m'(1) keep(5) by blast
qed

lemma run_one_ok:
  fixes m :: "'v session"
  assumes inv: "session_ok E m" and E: "env_ok E" and K: "ctl_documented K" and V: "quiet_calls V"
    and l: "l \<in> set (e_loops E)" and todo: "todo m l = f # fs"
  shows "\<exists>m'. perform K V (e_server E) (RunOne l) m = Inr m' \<and> session_ok E m' \<and> ran l f fs m m' \<and> cur_tid m' = e_thread E l"
proof -
  have "f \<in> set (queue_of m l)" using todo by (simp add: queue_of_def)
  then obtain c cn where c: "target f = Some c" "conn_at m c = Some cn"
    using inv l unfolding session_ok_def targets_def by blast
  from session_ok_conn [OF inv c(2)] obtain ch st k where
    lk: "linked E c cn ch m" "staged E c cn ch (\<lambda>l. at_conn c (queue_of m l)) (in_table E c m) (kept E c m) st k" .
  then have h: "at_head E l f fs c cn ch st k m" using inv E l todo c(1) by (simp add: at_head_def)
  have "loop_ok E l m" using inv l by (simp add: session_ok_def)
  then obtain el where el: "loop_at m l = Some el" "threadId el = e_thread E l" by (rule loop_okD)
  have "l \<noteq> 0" using l E by (metis env_ok_def)
  then have run: "perform K V (e_server E) (RunOne l) m = run_closure K [] (app_call K V) f 0 (popped (e_thread E l) l f fs m)"
    using todo el by (simp add: in_loop_def popped_def)
  have "at_conn c (queue_of m l) = f # at_conn c (fs @ pending_of l m)" using todo c(1) by (simp add: queue_of_def)
  with at_headD(7) [OF h] l have "expect st (e_server E) (e_base E) (cn_loop cn) k c l = f # at_conn c (fs @ pending_of l m)"
    by (simp add: staged_def)
  then show ?thesis
  proof (cases rule: expect_head)
    case est
    with run_established [OF _ K V] h run show ?thesis by simp
  next
    case (shut k')
    with run_shutdown [of E cn c fs ch st k' m K] h run show ?thesis by simp
  next
    case rem
    with run_removal [of E l c fs cn ch k m K] h run show ?thesis by (simp add: app_call_def)
  next
    case des
    with run_destroyed [OF _ K, of E cn c fs ch m "app_call K V"] h run show ?thesis by simp
  qed
qed

section \<open>A connection is ready\<close>

text \<open>\<open>removeConnection\<close>, in the thread of the server or in another.\<close>

lemma removed:
  fixes m :: "'v session"
  assumes s: "s \<noteq> 0" "server_at m s = Some sv" and c: "c \<noteq> 0" "conn_at m c = Some cn"
    and io: "cn_loop cn \<noteq> 0" "loop_at m (cn_loop cn) = Some el" and b: "sv_loop sv \<noteq> 0" "loop_at m (sv_loop sv) = Some bel"
  shows "\<exists>m'. removeConnection K s c m = Inr m' \<and> core_same m m' \<and> todo m' = todo m \<and> finished m' = finished m
    \<and> cur_tid m' = cur_tid m
    \<and> (if threadId bel = cur_tid m then server_at m' = (server_at m)(s \<mapsto> erase_name (cn_name cn) sv)
         \<and> loop_at m' = (loop_at m)(cn_loop cn \<mapsto> el\<lparr>pendingFunctors := pendingFunctors el @ [ConnDestroyed c]\<rparr>)
       else server_at m' = server_at m \<and> loop_at m' = (loop_at m)(sv_loop sv \<mapsto>
           bel\<lparr>pendingFunctors := pendingFunctors bel @ [OtherClosure (RemoveConnectionInLoop s c)]\<rparr>))"
proof (cases "threadId bel = cur_tid m")
  case True
  then have "removeConnection K s c m = removeConnectionInLoop K s c m"
    using s b by (simp add: removeConnection_def runInLoop_def isInLoopthread_def)
  with removed_in_loop [OF s c io, of K] True show ?thesis by auto
next
  case False
  then have "removeConnection K s c m = queueInLoop K (sv_loop sv) (OtherClosure (RemoveConnectionInLoop s c)) m"
    using s b by (simp add: removeConnection_def runInLoop_def isInLoopthread_def)
  with queueInLoop_core [OF b, of K "OtherClosure (RemoveConnectionInLoop s c)"] False show ?thesis by auto
qed

text \<open>\<open>handleClose\<close> up to the close callback.\<close>

lemma closed_in_loop:
  fixes m :: "'v session"
  assumes K: "ctl_documented K" and V: "quiet_calls V" and l: "linked E c cn ch m" "loop_ok E (cn_loop cn) m" "env_ok E"
    "cur_tid m = e_thread E (cn_loop cn)" and st: "cn_state cn \<in> {kConnected, kDisconnecting}" "ch_index ch = kAdd"
  shows "\<exists>m' ch'. handleClose K (app_call K V) c m = removeConnection K (e_server E) c m'
    \<and> foot (e_poller E (cn_loop cn)) c (cn_channel cn) (sock_fd cn) m m'
    \<and> linked E c (cn\<lparr>cn_state := kDisconnected\<rparr>) ch' m' \<and> poller_inv (e_poller E (cn_loop cn)) m' \<and> ch_index ch' \<noteq> kAdd"
proof -
  let ?cn = "cn\<lparr>cn_state := kDisconnected\<rparr>"
  note ok = linked_conn_ok [OF l]
  have open_st: "cn_state cn = kConnected \<or> cn_state cn = kDisconnecting" using st(1) by simp
  from loop_okD [OF l(2)] obtain el where el: "loop_at m (cn_loop cn) = Some el" "el_poller el = e_poller E (cn_loop cn)" .
  from handleClose_open [OF K ok el(1) open_st, of "app_call K V"] obtain m' ch' where
    hc: "handleClose K (app_call K V) c m
        = bindE (invoke (app_call K V) (\<lambda>u. OnConnection u c) (connectionCallback cn) m') (\<lambda>m3.
            bindE (load c (conn_at m3)) (\<lambda>cn3. invoke (app_call K V) (\<lambda>u. OnClose u c) (closeCallback cn3) m3))"
      "disableAll K (cn_channel cn) (put_conn c ?cn m) = Inr m'" "conn_ok c ?cn ch' m'"
      "watched (el_poller el) m (cn_channel cn) \<noteq> None \<longrightarrow> watched (el_poller el) m' (cn_channel cn) = None"
    by blast
  have "foot (el_poller el) c (cn_channel cn) (sock_fd cn) (put_conn c ?cn m) m'"
    using hc(2) unfolding disableAll_def
    by (rule foot_change_events [where ch = ch and el = el]) (use l(1) el in \<open>auto simp: linked_def\<close>)
  moreover have "foot (el_poller el) c (cn_channel cn) (sock_fd cn) m (put_conn c ?cn m)"
    by (rule foot_put_conn [where cn = cn]) (use l(1) in \<open>auto simp: linked_def conn_fixed_def\<close>)
  ultimately have foot: "foot (e_poller E (cn_loop cn)) c (cn_channel cn) (sock_fd cn) m m'"
    unfolding el(2) by (blast intro: foot_trans)
  then have t: "touch (e_poller E (cn_loop cn)) c (cn_channel cn) (sock_fd cn) m m'" "loop_at m' (cn_loop cn) = Some el"
    using el(1) by (simp_all add: foot_def)
  have "buffer_inv (inputBuffer ?cn)" using l(1) by (simp add: linked_def)
  note after = linked_after [OF hc(3) l(1) t el(2) this]
  have u: "usable (e_poller E (cn_loop cn)) (cn_channel cn) m'" "chan_at m' (cn_channel cn) = Some ch'"
    "usable (e_poller E (cn_loop cn)) (cn_channel cn) m" "chan_at m (cn_channel cn) = Some ch"
    using after(1) l(1) by (simp_all add: linked_def)
  from watched_index [OF loop_ok_poller(2) [OF loop_ok_poller(1) [OF l(2)]] u(3,4)] watched_index [OF after(2) u(1,2)] hc(4) st(2) el(2)
  have "ch_index ch' \<noteq> kAdd" by (auto split: if_splits)
  moreover have "handleClose K (app_call K V) c m = removeConnection K (e_server E) c m'"
    using hc(1) l(1) after(1) by (auto simp: quiet_connection [OF V] linked_def invoke_def [of _ "\<lambda>u. OnClose u c"] app_call_def)
  ultimately show ?thesis using foot after(1,2) by blast
qed

text \<open>What the cases of an event have in common.\<close>

lemma session_still:
  assumes "session_ok E m" and "touch p c w fd m m'" and "server_at m' = server_at m"
  shows "server_ok E m'" and "in_table E d m' = in_table E d m"
proof -
  have "server_ok E m" using assms(1) by (simp add: session_ok_def)
  from server_ok_names [OF this touch_names [OF assms(2)] assms(3)] in_table_names [OF touch_names [OF assms(2)] assms(3)]
  show "server_ok E m'" "in_table E d m' = in_table E d m" by simp_all
qed

lemma moved_stay:
  assumes "todo m' = todo m" and "finished m' = finished m"
    and "\<And>j. j \<in> set (e_loops E) \<Longrightarrow> pending_of j m' = pending_of j m @ ps j" and "\<And>j g. g \<in> set (ps j) \<Longrightarrow> target g = Some c"
  shows "moved E c None ps m m'"
  using assms by (auto simp: moved_def queue_of_def)

lemma open_stage:
  assumes "staged E c cn ch q tab kp st k" and "ch_index ch = kAdd"
  shows "st = Open"
  using assms by (cases st) (auto simp: staged_def)

text \<open>A step that changes neither the stage of a connection nor a queue.\<close>

lemma session_ok_quiet:
  assumes inv: "session_ok E m" and E: "env_ok E" and lk: "linked E c cn ch m" "linked E c cn' ch' m'"
    and t: "touch (e_poller E (cn_loop cn)) c (cn_channel cn) (sock_fd cn) m m'" and own: "poller_inv (e_poller E (cn_loop cn)) m'"
    and keep: "loop_at m' = loop_at m" "server_at m' = server_at m" "todo m' = todo m" "finished m' = finished m"
    and same: "cn_loop cn' = cn_loop cn" "cn_state cn' = cn_state cn" "ch_index ch' = ch_index ch" "ch_events ch' = ch_events ch"
      "ch_tied ch' = ch_tied ch" "ch_tie ch' = ch_tie ch"
  shows "session_ok E m'"
proof -
  have "conn_at m c = Some cn" using lk(1) by (simp add: linked_def)
  from session_ok_conn [OF inv this] obtain ch0 st k where
    st: "linked E c cn ch0 m" "staged E c cn ch0 (\<lambda>l. at_conn c (queue_of m l)) (in_table E c m) (kept E c m) st k" .
  have ch0: "ch0 = ch" using st(1) lk(1) by (simp add: linked_def)
  have mv: "moved E c None (\<lambda>_. []) m m'" by (rule moved_stay) (simp_all add: keep pending_same [OF keep(1)])
  note still = session_still [OF inv t keep(2)]
  have "kept E c m' = kept E c m" using keep(4) by (simp add: kept_def)
  then have "stage_ok st c cn' ch' (in_table E c m') (kept E c m')"
    using st(2) same still(2) ch0 by (cases st) (auto simp: staged_def)
  then show ?thesis
    by (intro session_ok_move [OF inv E lk same(1) t own _ still mv st(2) [unfolded ch0], where st' = st and k' = k])
      (use st(2) keep(1) in \<open>auto simp: staged_def Let_def\<close>)
qed

text \<open>A connection while its loop handles the events \<open>r\<close> reported for it.\<close>

definition handling :: "env \<Rightarrow> ptr \<Rightarrow> u32 \<Rightarrow> 'v app tcpconn \<Rightarrow> 'v app closure channel \<Rightarrow> 'v session \<Rightarrow> bool" where
  "handling E c r cn ch m \<longleftrightarrow> session_ok E m \<and> linked E c cn ch m \<and> ch_revents ch = r \<and> cur_tid m = e_thread E (cn_loop cn)"

lemma close_step:
  fixes m :: "'v session"
  assumes h: "handling E c r cn ch m" and E: "env_ok E" and K: "ctl_documented K" and V: "quiet_calls V" and kAdd: "ch_index ch = kAdd"
  shows "\<exists>m' cn' ch'. handleClose K (app_call K V) c m = Inr m' \<and> handling E c r cn' ch' m' \<and> cn_channel cn' = cn_channel cn
    \<and> cn_loop cn' = cn_loop cn \<and> cn_state cn' = kDisconnected \<and> (cn_loop cn \<noteq> e_base E \<longrightarrow> pending_of (e_base E) m' = pending_of (e_base E) m @ [OtherClosure (RemoveConnectionInLoop (e_server E) c)])"
proof -
  have inv: "session_ok E m" and lk: "linked E c cn ch m" and tid: "cur_tid m = e_thread E (cn_loop cn)" "ch_revents ch = r"
    using h by (simp_all add: handling_def)
  have cn: "conn_at m c = Some cn" and c0: "c \<noteq> 0" using lk by (simp_all add: linked_def)
  from session_ok_conn [OF inv cn] obtain ch0 st0 k where
    st0: "linked E c cn ch0 m" "staged E c cn ch0 (\<lambda>l. at_conn c (queue_of m l)) (in_table E c m) (kept E c m) st0 k" .
  have "ch0 = ch" using st0(1) lk by (simp add: linked_def)
  with st0(2) open_stage [OF st0(2)] kAdd
  have st: "staged E c cn ch (\<lambda>l. at_conn c (queue_of m l)) (in_table E c m) (kept E c m) Open k" by simp
  then have stage: "cn_state cn \<in> {kConnected, kDisconnecting}" "in_table E c m" by (simp_all add: staged_def)
  have io: "cn_loop cn \<in> set (e_loops E)" using lk by (simp add: linked_def)
  have loops: "loop_ok E j m" if "j \<in> set (e_loops E)" for j using inv that by (simp add: session_ok_def)
  from loop_okD [OF loops [OF io]] obtain el where el: "loop_at m (cn_loop cn) = Some el" .
  from closed_in_loop [OF K V lk loops [OF io] E tid(1) stage(1) kAdd] obtain m2 ch2 where
    m2: "handleClose K (app_call K V) c m = removeConnection K (e_server E) c m2"
      "foot (e_poller E (cn_loop cn)) c (cn_channel cn) (sock_fd cn) m m2"
      "linked E c (cn\<lparr>cn_state := kDisconnected\<rparr>) ch2 m2" "poller_inv (e_poller E (cn_loop cn)) m2" "ch_index ch2 \<noteq> kAdd"
    by auto
  have keep2: "loop_at m2 = loop_at m" "server_at m2 = server_at m" "todo m2 = todo m" "finished m2 = finished m"
    "cur_tid m2 = e_thread E (cn_loop cn)"
    using m2(2) more_session [of m2 m] tid(1) by (simp_all add: foot_def)
  have srv: "server_ok E m" and E': "e_server E \<noteq> 0" "e_base E \<in> set (e_loops E)" "0 \<notin> set (e_loops E)"
    using inv E by (simp_all add: session_ok_def env_ok_def)
  then obtain sv where sv: "server_at m (e_server E) = Some sv" "sv_loop sv = e_base E" by (auto simp: server_ok_def)
  from loop_okD [OF loops [OF E'(2)]] obtain bel where bel: "loop_at m (e_base E) = Some bel" "threadId bel = e_thread E (e_base E)" .
  have nz: "cn_loop cn \<noteq> 0" "e_base E \<noteq> 0" using io E'(2,3) by metis+
  have "conn_at m2 c = Some (cn\<lparr>cn_state := kDisconnected\<rparr>)" using m2(3) by (simp add: linked_def)
  with removed [OF E'(1) _ c0 this, of sv el bel K] keep2 sv el bel(1) nz obtain m3 where
    m3: "removeConnection K (e_server E) c m2 = Inr m3" "core_same m2 m3" "todo m3 = todo m" "finished m3 = finished m"
      "cur_tid m3 = e_thread E (cn_loop cn)"
      "if threadId bel = e_thread E (cn_loop cn) then server_at m3 = (server_at m)(e_server E \<mapsto> erase_name (cn_name cn) sv)
         \<and> loop_at m3 = (loop_at m)(cn_loop cn \<mapsto> el\<lparr>pendingFunctors := pendingFunctors el @ [ConnDestroyed c]\<rparr>)
       else server_at m3 = server_at m \<and> loop_at m3 = (loop_at m)(e_base E \<mapsto>
           bel\<lparr>pendingFunctors := pendingFunctors bel @ [OtherClosure (RemoveConnectionInLoop (e_server E) c)]\<rparr>)"
    by auto
  have t: "touch (e_poller E (cn_loop cn)) c (cn_channel cn) (sock_fd cn) m m3"
    using touch_trans [OF _ core_touch [OF m3(2)]] m2(2) by (simp add: foot_def)
  have lk3: "linked E c (cn\<lparr>cn_state := kDisconnected\<rparr>) ch2 m3" "poller_inv (e_poller E (cn_loop cn)) m3"
    using m2(3,4) core_linked [OF m3(2)] core_poller [OF m3(2)] by simp_all
  have rev: "ch_revents ch2 = r" using m2(2,3) lk tid(2) by (auto simp: foot_def linked_def)
  note move = session_ok_move [OF inv E lk lk3(1) _ t lk3(2) _ _ _ _ st]
  have "session_ok E m3 \<and> (cn_loop cn \<noteq> e_base E \<longrightarrow>
      pending_of (e_base E) m3 = pending_of (e_base E) m @ [OtherClosure (RemoveConnectionInLoop (e_server E) c)])"
  proof (cases "cn_loop cn = e_base E")
    case True
    with m3(6) bel have m4: "server_at m3 = (server_at m)(e_server E \<mapsto> erase_name (cn_name cn) sv)"
      "loop_at m3 = (loop_at m)(cn_loop cn \<mapsto> el\<lparr>pendingFunctors := pendingFunctors el @ [ConnDestroyed c]\<rparr>)" by simp_all
    note erase = server_ok_erase [OF srv touch_names [OF t] sv(1) m4(1) cn stage(2)]
    have mv: "moved E c None (\<lambda>j. if j = cn_loop cn then [ConnDestroyed c] else []) m m3"
      by (rule moved_stay [OF m3(3,4)]) (simp_all add: pending_put [OF m4(2) el(1)] split: if_splits)
    have "session_ok E m3"
      by (rule move [where st' = Removed and k' = k, OF _ _ erase(1,2) mv])
        (use erase(3) m2(5) pending_put(2) [OF m4(2) el(1)] in \<open>auto simp: Let_def\<close>)
    with True show ?thesis by simp
  next
    case False
    with E io E'(2) bel have "threadId bel \<noteq> e_thread E (cn_loop cn)" by (auto simp: env_ok_def dest: inj_onD)
    with m3(6) have m4: "server_at m3 = server_at m" "loop_at m3 = (loop_at m)(e_base E \<mapsto>
           bel\<lparr>pendingFunctors := pendingFunctors bel @ [OtherClosure (RemoveConnectionInLoop (e_server E) c)]\<rparr>)" by simp_all
    have mv: "moved E c None (\<lambda>j. if j = e_base E then [OtherClosure (RemoveConnectionInLoop (e_server E) c)] else []) m m3"
      by (rule moved_stay [OF m3(3,4)]) (simp_all add: pending_put [OF m4(2) bel(1)] split: if_splits)
    have "session_ok E m3"
      by (rule move [where st' = Closing and k' = k, OF _ _ session_still(1) [OF inv t m4(1)] session_still(2) [OF inv t m4(1)] mv])
        (use m2(5) False stage(2) session_still(2) [OF inv t m4(1)] pending_put(2) [OF m4(2) bel(1)] in \<open>auto simp: Let_def\<close>)
    with pending_put(1) [OF m4(2) bel(1)] show ?thesis by simp
  qed
  then show ?thesis
    using m2(1) m3(1,5) lk3(1) rev
    by (intro exI [of _ m3] exI [of _ "cn\<lparr>cn_state := kDisconnected\<rparr>"] exI [of _ ch2]) (simp add: handling_def)
qed

text \<open>\<open>handleError\<close> and \<open>handleRead\<close>.\<close>

lemma error_step:
  fixes m :: "'v session"
  assumes h: "handling E c r cn ch m"
  shows "\<exists>m'. bindE (handleError K c m) (\<lambda>(e, m1). Inr m1) = Inr m' \<and> handling E c r cn ch m' \<and> loop_at m' = loop_at m"
proof -
  let ?call = "SysGetsockoptError (ch_fd ch)"
  let ?m = "log_sys ?call (K (trace m) ?call) m"
  have lk: "c \<noteq> 0" "conn_at m c = Some cn" "cn_channel cn \<noteq> 0" "chan_at m (cn_channel cn) = Some ch" "session_ok E m" "linked E c cn ch m"
    using h by (simp_all add: handling_def linked_def)
  have core: "core_same m ?m" by simp
  have "session_ok E ?m"
    by (rule session_ok_core [OF lk(5) core]) (simp_all add: queue_of_def pending_of_def kept_def)
  moreover have "bindE (handleError K c m) (\<lambda>(e, m1). Inr m1) = Inr ?m"
    using lk by (simp add: handleError_def do_sys_log Let_def)
  ultimately show ?thesis using h core_linked [OF core] by (simp add: handling_def)
qed

lemma readFd_room:
  assumes "buffer_inv b" and "recv_documented K" and "length extra = extraBuffer_size" and "length (buf_data b) + 2 \<le> vec_max_size"
  obtains n e b' k rr where "readFd K extra fd b e0 m = Inr (((n, e), b'), log_sys (SysRecv fd k) rr m)" "buffer_inv b'"
proof -
  from readFd_props [OF assms(1-3), of fd e0 m] assms(4) obtain n e b' m' where
    rd: "readFd K extra fd b e0 m = Inr (((n, e), b'), m')" "buffer_inv b'" by auto
  then have "\<exists>k rr. m' = log_sys (SysRecv fd k) rr m"
    by (auto simp: readFd_def do_sys_log Let_def halts split: if_splits)
  with rd that show ?thesis by blast
qed

lemma read_step:
  fixes m :: "'v session"
  assumes h: "handling E c r cn ch m" and E: "env_ok E" and K: "ctl_documented K" "recv_documented K" and V: "quiet_calls V"
    and kAdd: "ch_index ch = kAdd" and x: "length extra = extraBuffer_size" "length (buf_data (inputBuffer cn)) + 2 \<le> vec_max_size"
  shows "\<exists>m' cn' ch'. conn_handleRead K extra (app_call K V) c t m = Inr m' \<and> handling E c r cn' ch' m' \<and> cn_channel cn' = cn_channel cn"
proof -
  have inv: "session_ok E m" and lk: "linked E c cn ch m" and tid: "cur_tid m = e_thread E (cn_loop cn)" "ch_revents ch = r"
    using h by (simp_all add: handling_def)
  have cn: "c \<noteq> 0" "conn_at m c = Some cn" "cn_channel cn \<noteq> 0" "chan_at m (cn_channel cn) = Some ch"
    "cn_loop cn \<in> set (e_loops E)" "buffer_inv (inputBuffer cn)" "messageCallback cn \<noteq> None" using lk by (simp_all add: linked_def)
  from readFd_room [OF cn(6) K(2) x, of "ch_fd ch" 0 m] obtain n e b k rr where
    rd: "readFd K extra (ch_fd ch) (inputBuffer cn) 0 m = Inr (((n, e), b), log_sys (SysRecv (ch_fd ch) k) rr m)" "buffer_inv b" .
  let ?mr = "log_sys (SysRecv (ch_fd ch) k) rr m"
  let ?cn = "cn\<lparr>inputBuffer := b\<rparr>"
  let ?m = "put_conn c ?cn ?mr"
  have core: "core_same m ?mr" by simp
  have t: "touch (e_poller E (cn_loop cn)) c (cn_channel cn) (sock_fd cn) m ?m"
    using cn(2) by (simp add: touch_def conn_fixed_def)
  have "loop_ok E (cn_loop cn) m" using inv cn(5) by (simp add: session_ok_def)
  then have "poller_inv (e_poller E (cn_loop cn)) m" using loop_ok_poller by blast
  then have own: "poller_inv (e_poller E (cn_loop cn)) ?m" using core_poller [OF core] by simp
  have lk': "linked E c ?cn ch ?m" using lk rd(2) core_usable [OF core] by (simp add: linked_def)
  have "session_ok E ?m" by (rule session_ok_quiet [OF inv E lk lk' t own]) simp_all
  then have h': "handling E c r ?cn ch ?m" using lk' tid by (simp add: handling_def)
  have eq: "conn_handleRead K extra (app_call K V) c t m = (if n > 0 then Inr ?m
      else if n = 0 then handleClose K (app_call K V) c ?m else bindE (handleError K c ?m) (\<lambda>(e, m1). Inr m1))"
    using cn rd(1) quiet_message [OF V cn(7)] by (simp add: conn_handleRead_def Let_def)
  consider "n > 0" | "n = 0" | "n < 0" by linarith
  then show ?thesis
  proof cases
    case 1
    with eq h' show ?thesis by (intro exI [of _ ?m] exI [of _ ?cn] exI [of _ ch]) simp
  next
    case 2
    from close_step [OF h' E K(1) V kAdd] obtain m' cn' ch' where
      "handleClose K (app_call K V) c ?m = Inr m'" "handling E c r cn' ch' m'" "cn_channel cn' = cn_channel ?cn" by blast
    with eq 2 show ?thesis by (intro exI [of _ m'] exI [of _ cn'] exI [of _ ch']) simp
  next
    case 3
    from error_step [OF h', of K] obtain m' where
      "bindE (handleError K c ?m) (\<lambda>(e, m1). Inr m1) = Inr m'" "handling E c r ?cn ch m'" by blast
    with eq 3 show ?thesis by (intro exI [of _ m'] exI [of _ ?cn] exI [of _ ch]) simp
  qed
qed

text \<open>All callbacks of an event in order.\<close>

lemma dispatched:
  assumes "handling E c r cn ch m"
  shows "dispatch happened callback run (cn_channel cn) t m
    = (if happened r then (case callback ch of None \<Rightarrow> Inr m | Some f \<Rightarrow> run f t m) else Inr m)"
  using assms by (auto simp: dispatch_def handling_def linked_def)

definition closing :: "env \<Rightarrow> ptr \<Rightarrow> 'v app tcpconn \<Rightarrow> 'v session \<Rightarrow> 'v session \<Rightarrow> bool" where
  "closing E c cn m m' \<longleftrightarrow> (\<exists>cn'. conn_at m' c = Some cn' \<and> cn_loop cn' = cn_loop cn \<and> cn_state cn' = kDisconnected)
     \<and> (cn_loop cn \<noteq> e_base E \<longrightarrow> pending_of (e_base E) m' = pending_of (e_base E) m @ [OtherClosure (RemoveConnectionInLoop (e_server E) c)])"

lemma handled_event:
  fixes m :: "'v session"
  assumes h: "handling E c r cn ch m" and E: "env_ok E" and K: "ctl_documented K" "recv_documented K" and V: "quiet_calls V"
    and kAdd: "ch_index ch = kAdd" and tie: "ch_tied ch" "ch_tie ch = c" and out: "r AND EPOLLOUT = 0"
    and x: "length extra = extraBuffer_size" "length (buf_data (inputBuffer cn)) + 2 \<le> vec_max_size"
  shows "\<exists>m'. handleEvent alive (run_closure K extra (app_call K V)) (cn_channel cn) 0 m = Inr m' \<and> session_ok E m'
    \<and> (hung_up r \<longrightarrow> closing E c cn m m')"
proof -
  let ?run = "run_closure K extra (app_call K V)" and ?w = "cn_channel cn"
  have cbs: "channel.closeCallBack ch = Some (ConnHandleClose c)" "errorCallBack y = Some (ConnHandleError c)" "readCallBack ch = Some (ConnHandleRead c)"
    if "handling E c r z y u" for z y u using that h by (simp_all add: handling_def linked_def)
  obtain m1 cn1 ch1 where m1: "dispatch hung_up channel.closeCallBack ?run ?w 0 m = Inr m1" "handling E c r cn1 ch1 m1" "cn_channel cn1 = ?w"
    "if hung_up r then closing E c cn m m1 else m1 = m \<and> cn1 = cn \<and> ch1 = ch"
  proof (cases "hung_up r")
    case True
    from close_step [OF h E K(1) V kAdd] obtain m1 cn1 ch1 where
      cl: "handleClose K (app_call K V) c m = Inr m1" "handling E c r cn1 ch1 m1" "cn_channel cn1 = ?w" "cn_loop cn1 = cn_loop cn" "cn_state cn1 = kDisconnected"
        "cn_loop cn \<noteq> e_base E \<longrightarrow> pending_of (e_base E) m1 = pending_of (e_base E) m @ [OtherClosure (RemoveConnectionInLoop (e_server E) c)]"
      by blast
    moreover from this have "closing E c cn m m1" by (auto simp: closing_def handling_def linked_def)
    ultimately show ?thesis using True by (intro that [of m1 cn1 ch1]) (simp_all add: dispatched [OF h] cbs(1) [OF h])
  qed (use h in \<open>intro that [of m cn ch], simp_all add: dispatched [OF h]\<close>)
  obtain m2 where m2: "dispatch (\<lambda>r. r AND EPOLLERR \<noteq> 0) errorCallBack ?run ?w 0 m1 = Inr m2" "handling E c r cn1 ch1 m2" "loop_at m2 = loop_at m1"
    using error_step [OF m1(2), of K] m1(2) dispatched [OF m1(2), of "\<lambda>r. r AND EPOLLERR \<noteq> 0" errorCallBack ?run 0] m1(3)
    by (cases "r AND EPOLLERR = 0") (auto simp: cbs(2) [OF m1(2)])
  obtain m3 cn3 ch3 where m3: "dispatch (\<lambda>r. r AND EPOLLIN \<noteq> 0) readCallBack ?run ?w 0 m2 = Inr m3" "handling E c r cn3 ch3 m3" "cn_channel cn3 = ?w"
    "r AND EPOLLIN = 0 \<Longrightarrow> m3 = m2"
  proof (cases "r AND EPOLLIN = 0")
    case True
    with m1(3) m2(2) show ?thesis
      using dispatched [OF m2(2), of "\<lambda>r. r AND EPOLLIN \<noteq> 0" readCallBack ?run 0] by (intro that [of m2 cn1 ch1]) simp_all
  next
    case False
    then have same: "cn1 = cn" "ch1 = ch" using m1(4) by (auto simp: hung_up_def split: if_splits)
    from read_step [OF _ E K V kAdd x, of c r m2 0] m2(2) same
    show ?thesis
      using that dispatched [OF m2(2), of "\<lambda>r. r AND EPOLLIN \<noteq> 0" readCallBack ?run 0] cbs(3) [OF h] False by auto
  qed
  have "handleEventWithGuard ?run ?w 0 m = Inr m3"
    using m1(1) m2(1) m3(1) dispatched [OF m3(2), of "\<lambda>r. r AND EPOLLOUT \<noteq> 0" writeCallBack ?run 0] m3(3) out
    by (simp add: handleEventWithGuard_def)
  moreover have "alive c m" "?w \<noteq> 0" "chan_at m ?w = Some ch" using h by (auto simp: handling_def linked_def alive_def)
  ultimately have "handleEvent alive ?run ?w 0 m = Inr m3"
    using tie by (simp add: handleEvent_def)
  moreover have "closing E c cn m m3" if "hung_up r"
  proof -
    have "m3 = m2" "conn_at m1 c = conn_at m2 c" using that m3(4) m1(2) m2(2) by (auto simp: hung_up_def handling_def linked_def)
    with m1(4) that pending_same [OF m2(3)] show ?thesis by (simp add: closing_def)
  qed
  ultimately show ?thesis using m3(2) by (simp add: handling_def)
qed

lemma not_asked:
  assumes "r AND NOT (kReadEvent OR EPOLLERR OR EPOLLHUP) = 0"
  shows "r AND EPOLLOUT = 0"
proof -
  have "EPOLLOUT = NOT (kReadEvent OR EPOLLERR OR EPOLLHUP) AND EPOLLOUT" by (simp add: kReadEvent_def event_masks)
  then have "r AND EPOLLOUT = (r AND NOT (kReadEvent OR EPOLLERR OR EPOLLHUP)) AND EPOLLOUT" by (metis and.assoc)
  with assms show ?thesis by simp
qed

lemma ready_ok:
  fixes m :: "'v session"
  assumes inv: "session_ok E m" and E: "env_ok E" and K: "ctl_documented K" "recv_documented K" and V: "quiet_calls V"
    and may: "may K (e_server E) (Ready r extra c) m"
  shows "\<exists>m'. perform K V (e_server E) (Ready r extra c) m = Inr m' \<and> session_ok E m'
    \<and> (hung_up r \<longrightarrow> (\<exists>cn. conn_at m c = Some cn \<and> closing E c cn m m'))"
proof -
  obtain cn where cn: "conn_at m c = Some cn" using may by (auto split: option.splits)
  from session_ok_conn [OF inv cn] obtain ch st k where
    lk: "linked E c cn ch m" and st: "staged E c cn ch (\<lambda>l. at_conn c (queue_of m l)) (in_table E c m) (kept E c m) st k" .
  have io: "cn_loop cn \<in> set (e_loops E)" and ch: "c \<noteq> 0" "cn_channel cn \<noteq> 0" "chan_at m (cn_channel cn) = Some ch"
    "usable (e_poller E (cn_loop cn)) (cn_channel cn) m" using lk by (simp_all add: linked_def)
  have loop: "loop_ok E (cn_loop cn) m" using inv io by (simp add: session_ok_def)
  from loop_okD [OF loop] obtain el where
    el: "loop_at m (cn_loop cn) = Some el" "threadId el = e_thread E (cn_loop cn)" "el_poller el = e_poller E (cn_loop cn)" .
  from may cn el obtain ev where ev: "watched (e_poller E (cn_loop cn)) m (cn_channel cn) = Some ev"
    "r AND NOT (ev OR EPOLLERR OR EPOLLHUP) = 0" "length extra = extraBuffer_size" "length (buf_data (inputBuffer cn)) + 2 \<le> vec_max_size"
    by (auto split: option.splits)
  with watched_index [OF loop_ok_poller(2) [OF loop_ok_poller(1) [OF loop]] ch(4,3)]
  have kAdd: "ch_index ch = kAdd" "ev = ch_events ch" by (simp_all split: if_splits)
  have "st = Open" by (rule open_stage [OF st kAdd(1)])
  then have stage: "ch_tied ch" "ch_tie ch = c" "ev = kReadEvent" using st kAdd(2) by (simp_all add: staged_def)
  let ?ch = "ch\<lparr>ch_revents := r\<rparr>"
  let ?mt = "m\<lparr>cur_tid := e_thread E (cn_loop cn)\<rparr>"
  let ?mr = "put_chan (cn_channel cn) ?ch ?mt"
  have t: "touch (e_poller E (cn_loop cn)) c (cn_channel cn) (sock_fd cn) m ?mr"
    using ch(3) by (simp add: touch_def chan_fixed_def)
  have p: "poller_inv q ?mr = poller_inv q m" "usable q v ?mr = usable q v m" for q v
    using poller_inv_put_chan [of ?mt "cn_channel cn" ch ?ch] ch(3) core_poller [of m ?mt] core_usable [of m ?mt] by simp_all
  have lk': "linked E c cn ?ch ?mr" using lk p(2) by (simp add: linked_def)
  have own: "poller_inv (e_poller E (cn_loop cn)) ?mr" using loop loop_ok_poller p(1) by blast
  have "session_ok E ?mr" by (rule session_ok_quiet [OF inv E lk lk' t own]) simp_all
  with lk' have h: "handling E c r cn ?ch ?mr" by (simp add: handling_def)
  have nz: "cn_loop cn \<noteq> 0" using io E by (metis env_ok_def)
  have "perform K V (e_server E) (Ready r extra c) m = handleEvent alive (run_closure K extra (app_call K V)) (cn_channel cn) 0 ?mr"
    using cn ch el nz by (simp add: in_loop_def set_revents_def)
  moreover have "closing E c cn ?mr x = closing E c cn m x" for x by (simp add: closing_def pending_of_def)
  ultimately show ?thesis using handled_event [OF h E K V _ _ _ not_asked ev(3,4)] kAdd(1) stage ev(2) cn by simp
qed

section \<open>A thread calls \<open>shutdown\<close>\<close>

text \<open>\<open>shutdown\<close> is its test of the state and the rest.\<close>

definition shutdown_rest :: "kernel \<Rightarrow> ptr \<Rightarrow> 'v session \<Rightarrow> 'v session result" where
  "shutdown_rest K c m = bindE (load c (conn_at m)) (\<lambda>cn. bindE (setState kDisconnecting c m) (\<lambda>m1.
     runInLoop K (\<lambda>_. shutdownInLoop K c) (cn_loop cn) (ShutdownInLoop c) m1))"

lemma shutdown_test:
  "shutdown K c m = bindE (load c (conn_at m)) (\<lambda>cn. if cn_state cn = kConnected then shutdown_rest K c m else Inr m)"
  by (auto simp: shutdown_def shutdown_rest_def load_def split: option.split)

lemma shutdown_rest_core:
  fixes m :: "'v session"
  assumes lk: "linked E c cn ch m" and E: "env_ok E" and el: "loop_at m (cn_loop cn) = Some el"
  shows "\<exists>m' ps. shutdown_rest K c m = Inr m' \<and> core_same (put_conn c (cn\<lparr>cn_state := kDisconnecting\<rparr>) m) m'
    \<and> todo m' = todo m \<and> finished m' = finished m \<and> server_at m' = server_at m
    \<and> loop_at m' = (loop_at m)(cn_loop cn \<mapsto> el\<lparr>pendingFunctors := pendingFunctors el @ ps\<rparr>) \<and> ps \<in> {[], [ShutdownInLoop c]}"
proof -
  let ?m1 = "put_conn c (cn\<lparr>cn_state := kDisconnecting\<rparr>) m"
  have cn: "conn_at m c = Some cn" "c \<noteq> 0" "cn_channel cn \<noteq> 0" "chan_at m (cn_channel cn) = Some ch" using lk by (simp_all add: linked_def)
  have nz: "cn_loop cn \<noteq> 0" using lk E by (metis env_ok_def linked_def)
  have p: "shutdown_rest K c m = runInLoop K (\<lambda>_. shutdownInLoop K c) (cn_loop cn) (ShutdownInLoop c) ?m1"
    using cn by (simp add: shutdown_rest_def setState_def)
  show ?thesis
  proof (cases "threadId el = cur_tid m")
    case True
    have "\<exists>m'. shutdownInLoop K c ?m1 = Inr m' \<and> core_same ?m1 m' \<and> todo m' = todo m \<and> finished m' = finished m
        \<and> server_at m' = server_at m \<and> loop_at m' = loop_at m"
      using cn by (simp add: shutdownInLoop_def shutdownWrite_def do_sys_log)
    moreover have "shutdown_rest K c m = shutdownInLoop K c ?m1"
      using p nz el True by (simp add: runInLoop_def isInLoopthread_def)
    ultimately obtain m' where "shutdown_rest K c m = Inr m'" "core_same ?m1 m'" "todo m' = todo m"
      "finished m' = finished m" "server_at m' = server_at m" "loop_at m' = loop_at m" by auto
    with el show ?thesis by (intro exI [of _ m'] exI [of _ "[]"]) (simp add: fun_upd_idem)
  next
    case False
    then have q: "shutdown_rest K c m = queueInLoop K (cn_loop cn) (ShutdownInLoop c) ?m1"
      using p nz el by (simp add: runInLoop_def isInLoopthread_def)
    have "loop_at ?m1 (cn_loop cn) = Some el" using el by simp
    from queueInLoop_core [OF nz this, of K "ShutdownInLoop c"] obtain m' where
      "queueInLoop K (cn_loop cn) (ShutdownInLoop c) ?m1 = Inr m'" "core_same ?m1 m'" "server_at m' = server_at m"
      "todo m' = todo m" "finished m' = finished m"
      "loop_at m' = (loop_at m)(cn_loop cn \<mapsto> el\<lparr>pendingFunctors := pendingFunctors el @ [ShutdownInLoop c]\<rparr>)" by auto
    with q show ?thesis by (intro exI [of _ m'] exI [of _ "[ShutdownInLoop c]"]) simp
  qed
qed

lemma shutdown_ok:
  fixes m :: "'v session"
  assumes inv: "session_ok E m" and E: "env_ok E" and may: "may K (e_server E) (Shutdown t c) m"
  shows "\<exists>m'. perform K V (e_server E) (Shutdown t c) m = Inr m' \<and> session_ok E m'"
proof -
  obtain cn where cn: "conn_at m c = Some cn" using may by auto
  from session_ok_conn [OF inv cn] obtain ch st k where
    lk: "linked E c cn ch m" and st: "staged E c cn ch (\<lambda>l. at_conn c (queue_of m l)) (in_table E c m) (kept E c m) st k" .
  have io: "cn_loop cn \<in> set (e_loops E)" and ch: "c \<noteq> 0" "cn_channel cn \<noteq> 0" "chan_at m (cn_channel cn) = Some ch"
    using lk by (simp_all add: linked_def)
  have loops: "loop_ok E j m" if "j \<in> set (e_loops E)" for j using inv that by (simp add: session_ok_def)
  from loop_okD [OF loops [OF io]] obtain el where el: "loop_at m (cn_loop cn) = Some el" .
  let ?cn = "cn\<lparr>cn_state := kDisconnecting\<rparr>"
  let ?m1 = "put_conn c ?cn (m\<lparr>cur_tid := t\<rparr>)"
  obtain m' ps where m': "perform K V (e_server E) (Shutdown t c) m = Inr m'"
    "if cn_state cn = kConnected then core_same ?m1 m' else core_same m m' \<and> ps = []"
    "todo m' = todo m" "finished m' = finished m" "server_at m' = server_at m"
    "loop_at m' = (loop_at m)(cn_loop cn \<mapsto> el\<lparr>pendingFunctors := pendingFunctors el @ ps\<rparr>)" "ps \<in> {[], [ShutdownInLoop c]}"
  proof (cases "cn_state cn = kConnected")
    case True
    have "linked E c cn ch (m\<lparr>cur_tid := t\<rparr>)" using lk core_linked [of m "m\<lparr>cur_tid := t\<rparr>"] by simp
    from shutdown_rest_core [OF this E, of el K] el obtain m' ps where
      "shutdown_rest K c (m\<lparr>cur_tid := t\<rparr>) = Inr m'" "core_same ?m1 m'" "todo m' = todo m" "finished m' = finished m"
      "server_at m' = server_at m" "loop_at m' = (loop_at m)(cn_loop cn \<mapsto> el\<lparr>pendingFunctors := pendingFunctors el @ ps\<rparr>)"
      "ps \<in> {[], [ShutdownInLoop c]}" by auto
    with True cn ch(1) show ?thesis by (intro that [of m' ps]) (simp_all add: shutdown_test)
  next
    case False
    then have "perform K V (e_server E) (Shutdown t c) m = Inr (m\<lparr>cur_tid := t\<rparr>)" using cn ch(1) by (simp add: shutdown_test)
    with False el show ?thesis by (intro that [of "m\<lparr>cur_tid := t\<rparr>" "[]"]) (simp_all add: fun_upd_idem)
  qed
  let ?cn' = "if cn_state cn = kConnected then ?cn else cn"
  have t1: "touch (e_poller E (cn_loop cn)) c (cn_channel cn) (sock_fd cn) m ?m1"
    using cn by (simp add: touch_def conn_fixed_def)
  have lk1: "linked E c ?cn ch ?m1" using lk core_usable [of m "m\<lparr>cur_tid := t\<rparr>"] by (simp add: linked_def)
  have own1: "poller_inv (e_poller E (cn_loop cn)) m" using loop_ok_poller loops [OF io] by blast
  then have own2: "poller_inv (e_poller E (cn_loop cn)) ?m1" using core_poller [of m "m\<lparr>cur_tid := t\<rparr>"] by simp
  have "touch (e_poller E (cn_loop cn)) c (cn_channel cn) (sock_fd cn) m m' \<and> linked E c ?cn' ch m'
      \<and> poller_inv (e_poller E (cn_loop cn)) m'"
  proof (cases "cn_state cn = kConnected")
    case True
    then have core: "core_same ?m1 m'" using m'(2) by simp
    with True lk1 own2 touch_trans [OF t1 core_touch [OF core]] core_linked [OF core] core_poller [OF core] show ?thesis by simp
  next
    case False
    then have core: "core_same m m'" using m'(2) by simp
    with False lk own1 core_touch [OF core] core_linked [OF core] core_poller [OF core] show ?thesis by simp
  qed
  then have t: "touch (e_poller E (cn_loop cn)) c (cn_channel cn) (sock_fd cn) m m'" and lk': "linked E c ?cn' ch m'"
    and own: "poller_inv (e_poller E (cn_loop cn)) m'" by simp_all
  have q: "pending_of j m' = pending_of j m @ (if j = cn_loop cn then ps else [])"
    "map_option loop_fixed (loop_at m' j) = map_option loop_fixed (loop_at m j)" for j
    using m'(6) el by (auto simp: pending_of_def loop_fixed_def)
  have mv: "moved E c None (\<lambda>j. if j = cn_loop cn then ps else []) m m'"
    by (rule moved_stay [OF m'(3,4)]) (use m'(7) q(1) in \<open>auto split: if_splits\<close>)
  have "cn_state cn = kConnected \<Longrightarrow> st = Open" using st by (cases st) (auto simp: staged_def)
  then have new: "stage_ok st c ?cn' ch (in_table E c m') (kept E c m')"
    using st session_still(2) [OF inv t m'(5)] mv by (cases st) (auto simp: staged_def moved_def kept_def)
  have queue: "(let e = expect st (e_server E) (e_base E) (cn_loop cn) k c j in (if None = Some j then tl e else e)
      @ (if j = cn_loop cn then ps else [])) = expect st (e_server E) (e_base E) (cn_loop cn) (k + length ps) c j" for j
    using m'(2,7) \<open>cn_state cn = kConnected \<Longrightarrow> st = Open\<close> expect_other [of j "cn_loop cn"]
    by (auto simp: replicate_append_same split: if_splits)
  have "session_ok E m'"
    by (rule session_ok_move [OF inv E lk lk' _ t own q(2) session_still(1) [OF inv t m'(5)] session_still(2) [OF inv t m'(5)] mv st new _ queue])
      (use st in \<open>auto simp: staged_def\<close>)
  with m'(1) show ?thesis by blast
qed

text \<open>\<open>send\<close> in the thread of the connection; as a connection that reads counts as writing, it buffers.\<close>

lemma send_buffers:
  fixes m :: "'v session"
  assumes lk: "linked E c cn ch m" and ok: "conn_ok c cn ch m" and st: "cn_state cn = kConnected" "ch_events ch = kReadEvent"
    and sp: "sp \<noteq> 0" and hw: "highWaterMarkCallback cn = None" and d: "length d < 2 ^ 31" "buf_used (outputBuffer cn) + length d \<le> vec_max_size"
  shows "\<exists>b. buffer_inv b \<and> send_string K c sp d m = Inr (put_conn c (cn\<lparr>outputBuffer := b\<rparr>) (m\<lparr>bytes_at := (bytes_at m)(sp \<mapsto> d)\<rparr>))"
proof -
  let ?m = "m\<lparr>bytes_at := (bytes_at m)(sp \<mapsto> d)\<rparr>"
  have cn: "c \<noteq> 0" "conn_at m c = Some cn" "cn_channel cn \<noteq> 0" "chan_at m (cn_channel cn) = Some ch" "buffer_inv (outputBuffer cn)"
    using lk by (simp_all add: linked_def)
  have w: "isWriting ch" using st(2) by (rule reading_isWriting)
  have len: "unat (word_of_nat (length d) :: size_t) = length d" using d(1) by (intro unat_of_nat_size) simp
  from append_bytes_props [OF cn(5), of "word_of_nat (length d)" d] len d obtain b where
    b: "append_bytes d (word_of_nat (length d)) (outputBuffer cn) = Inr b" "buffer_inv b"
    by (auto simp: buf_used_def)
  have send: "send_string K c sp d m = sendInLoop K c sp (int (length d)) ?m"
    by (rule send_string_eq [OF ok st(1) sp d(1)])
  show ?thesis
  proof (cases "d = []")
    case True
    then have "send_string K c sp d m = Inr ?m"
      using send cn sp st(1) w by (simp add: sendInLoop_def send_direct_def)
    moreover have "put_conn c (cn\<lparr>outputBuffer := outputBuffer cn\<rparr>) ?m = ?m"
      using cn(2) by (simp add: put_conn_def fun_upd_idem)
    ultimately show ?thesis using cn(5) by metis
  next
    case False
    then have "0 < (word_of_nat (length d) :: size_t)" using len by (simp add: word_less_nat_alt)
    then have "send_string K c sp d m = Inr (put_conn c (cn\<lparr>outputBuffer := b\<rparr>) ?m)"
      using send cn sp st(1) w hw b(1) by (simp add: sendInLoop_def send_direct_def send_buffered_def Let_def)
    with b(2) show ?thesis by blast
  qed
qed

lemma send_ok:
  fixes m :: "'v session"
  assumes inv: "session_ok E m" and E: "env_ok E" and may: "may K (e_server E) (Send sp d c) m"
  shows "\<exists>m'. perform K V (e_server E) (Send sp d c) m = Inr m' \<and> session_ok E m'"
proof -
  from may obtain cn where cn: "conn_at m c = Some cn" "cn_state cn = kConnected" "sp \<noteq> 0" "highWaterMarkCallback cn = None"
    "length d < 2 ^ 31" "buf_used (outputBuffer cn) + length d \<le> vec_max_size" by (auto split: option.splits)
  from session_ok_conn [OF inv cn(1)] obtain ch st k where
    lk: "linked E c cn ch m" and st: "staged E c cn ch (\<lambda>l. at_conn c (queue_of m l)) (in_table E c m) (kept E c m) st k" .
  have ev: "ch_events ch = kReadEvent" using st cn(2) by (cases st) (auto simp: staged_def)
  have io: "cn_loop cn \<in> set (e_loops E)" "c \<noteq> 0" using lk by (simp_all add: linked_def)
  have loop: "loop_ok E (cn_loop cn) m" using inv io by (simp add: session_ok_def)
  from loop_okD [OF this] obtain el where el: "loop_at m (cn_loop cn) = Some el" "threadId el = e_thread E (cn_loop cn)" .
  have nz: "cn_loop cn \<noteq> 0" using io E by (metis env_ok_def)
  let ?mt = "m\<lparr>cur_tid := e_thread E (cn_loop cn)\<rparr>"
  have core: "core_same m ?mt" by simp
  have lkt: "linked E c cn ch ?mt" using lk core_linked [OF core] by simp
  have "conn_ok c cn ch ?mt"
    by (rule linked_conn_ok [OF lkt _ E]) (use loop core_loop_ok [OF core] in simp_all)
  from send_buffers [OF lkt this cn(2) ev cn(3-6), of K] obtain b where
    b: "buffer_inv b" "send_string K c sp d ?mt = Inr (put_conn c (cn\<lparr>outputBuffer := b\<rparr>) (?mt\<lparr>bytes_at := (bytes_at m)(sp \<mapsto> d)\<rparr>))" by auto
  let ?ms = "?mt\<lparr>bytes_at := (bytes_at m)(sp \<mapsto> d)\<rparr>"
  let ?m' = "put_conn c (cn\<lparr>outputBuffer := b\<rparr>) ?ms"
  have cs: "core_same m ?ms" by (simp add: core_same_def)
  have "poller_inv (e_poller E (cn_loop cn)) m" using loop loop_ok_poller by blast
  then have own: "poller_inv (e_poller E (cn_loop cn)) ?m'" using core_poller [OF cs] by simp
  have lk': "linked E c (cn\<lparr>outputBuffer := b\<rparr>) ch ?m'" using lk b(1) core_usable [OF cs] by (simp add: linked_def)
  have t: "touch (e_poller E (cn_loop cn)) c (cn_channel cn) (sock_fd cn) m ?m'"
    using cn(1) by (simp add: touch_def conn_fixed_def)
  have "session_ok E ?m'" by (rule session_ok_quiet [OF inv E lk lk' t own]) simp_all
  moreover have "perform K V (e_server E) (Send sp d c) m = Inr ?m'"
    using cn(1) io(2) el nz b(2) by (simp add: in_loop_def)
  ultimately show ?thesis by blast
qed

section \<open>The rest of a round\<close>

lemma server_loops_env: "server_ok E m \<Longrightarrow> server_at m (e_server E) = Some sv \<Longrightarrow> set (server_loops sv) = set (e_loops E)"
  by (auto simp: server_ok_def)

lemma swap_ok:
  fixes m :: "'v session"
  assumes inv: "session_ok E m" and E: "env_ok E" and l: "l \<in> set (e_loops E)" and idle: "between l m"
  shows "\<exists>m'. perform K V (e_server E) (Swap l) m = Inr m' \<and> session_ok E m'"
proof -
  have "loop_ok E l m" using inv l by (simp add: session_ok_def)
  then obtain el where el: "loop_at m l = Some el" by (rule loop_okD)
  have "l \<noteq> 0" using l E by (metis env_ok_def)
  let ?m = "(put_loop l (el\<lparr>callingPendingFunctors := True, pendingFunctors := []\<rparr>) (m\<lparr>cur_tid := threadId el\<rparr>))
    \<lparr>todo := (todo m)(l := pendingFunctors el)\<rparr>"
  have "session_ok E ?m"
    by (rule session_ok_core [OF inv]) (use el idle in \<open>auto simp: queue_of_def pending_of_def between_def loop_fixed_def kept_def put_loop_def core_same_def\<close>)
  moreover have "perform K V (e_server E) (Swap l) m = Inr ?m"
    using el \<open>l \<noteq> 0\<close> by (simp add: in_loop_def put_loop_def)
  ultimately show ?thesis by blast
qed

lemma return_ok:
  fixes m :: "'v session"
  assumes inv: "session_ok E m" and E: "env_ok E" and l: "l \<in> set (e_loops E)"
  shows "\<exists>m'. perform K V (e_server E) (Return l) m = Inr m' \<and> session_ok E m'"
proof -
  have "loop_ok E l m" using inv l by (simp add: session_ok_def)
  then obtain el where el: "loop_at m l = Some el" by (rule loop_okD)
  have "l \<noteq> 0" using l E by (metis env_ok_def)
  let ?m = "put_loop l (el\<lparr>callingPendingFunctors := False\<rparr>) (m\<lparr>cur_tid := threadId el\<rparr>)"
  have "session_ok E ?m"
    by (rule session_ok_core [OF inv]) (use el in \<open>auto simp: queue_of_def pending_of_def loop_fixed_def kept_def put_loop_def core_same_def\<close>)
  moreover have "perform K V (e_server E) (Return l) m = Inr ?m"
    using el \<open>l \<noteq> 0\<close> by (simp add: in_loop_def)
  ultimately show ?thesis by blast
qed

text \<open>The last \<open>shared_ptr\<close> to a connection out of the poller goes.\<close>

lemma session_ok_drop:
  assumes inv: "session_ok E m" and E: "env_ok E" and c: "linked E c cn ch m" "ch_index ch = kNew" "\<not> in_table E c m"
    and gone: "chan_at m' = (chan_at m)(cn_channel cn := None)" "conn_at m' = (conn_at m)(c := None)" "poller_at m' = poller_at m"
      "\<And>e. interest e (trace m') = interest e (trace m)" "history_conforms (trace m') = history_conforms (trace m)"
    and srv: "server_at m' = server_at m" and loops: "loop_at m' = loop_at m" and todo: "todo m' = todo m"
    and queue: "\<And>l. l \<in> set (e_loops E) \<Longrightarrow> at_conn c (queue_of m l) = []"
    and fin: "\<And>l. l \<in> set (e_loops E) \<Longrightarrow> set (finished m l) \<supseteq> set (finished m' l)"
    and free: "\<And>l f. l \<in> set (e_loops E) \<Longrightarrow> f \<in> set (finished m' l) \<Longrightarrow> owner f \<noteq> Some c"
    and keeps: "\<And>d. d \<noteq> c \<Longrightarrow> kept E d m \<Longrightarrow> kept E d m'"
  shows "session_ok E m'"
proof -
  have w: "chan_at m (cn_channel cn) = Some ch" "conn_at m c = Some cn" using c(1) by (simp_all add: linked_def)
  have q: "queue_of m' l = queue_of m l" for l by (simp add: queue_of_def pending_of_def loops todo)
  have tab: "in_table E d m' = in_table E d m" if "d \<noteq> c" for d using that by (simp add: in_table_def gone(2) srv)
  have "poller_ok E l m'" if ok: "poller_ok E l m" for l
  proof -
    from ok obtain po where po: "poller_at m (e_poller E l) = Some po" "po_owner po = l" "po_epfd po = e_epfd E l"
      "poller_inv (e_poller E l) m" by (auto simp: poller_ok_def)
    then have "history_conforms (trace m)" by (auto simp: poller_inv_def registry_ok_def)
    then have "poller_inv (e_poller E l) m'"
      using gone po c(2) by (intro poller_inv_drop [OF po(4,1) w(1)]) simp_all
    with po gone(3) show ?thesis by (simp add: poller_ok_def)
  qed
  then have "\<forall>l \<in> set (e_loops E). loop_ok E l m'" using inv by (simp add: session_ok_def loop_ok_def loops)
  moreover have apart: "apart (conn_at m)" using inv by (simp add: session_ok_def)
  then have "apart (conn_at m')" by (auto simp: apart_def gone(2) split: if_splits)
  moreover have "conn_inv E d m'" for d
    unfolding conn_inv_def
  proof (intro allI impI)
    fix dn assume "conn_at m' d = Some dn"
    then have dn: "d \<noteq> c" "conn_at m d = Some dn" using gone(2) by (auto split: if_splits)
    from session_ok_conn [OF inv dn(2)] obtain dh st k where
      d: "linked E d dn dh m" "staged E d dn dh (\<lambda>l. at_conn d (queue_of m l)) (in_table E d m) (kept E d m) st k" .
    have "cn_channel dn \<noteq> cn_channel cn" using apart dn w(2) unfolding apart_def by blast
    then have "linked E d dn dh m'" using d(1) dn(1) gone(1-3) by (auto simp: linked_def usable_def)
    moreover have "staged E d dn dh (\<lambda>l. at_conn d (queue_of m' l)) (in_table E d m') (kept E d m') st k"
      using d(2) keeps [OF dn(1)] unfolding staged_def tab [OF dn(1)] q by (cases st) auto
    ultimately show "\<exists>ch st k. linked E d dn ch m'
        \<and> staged E d dn ch (\<lambda>l. at_conn d (queue_of m' l)) (in_table E d m') (kept E d m') st k" by blast
  qed
  moreover have "targets E m'"
    unfolding targets_def q
  proof (intro ballI conjI allI impI)
    fix l f assume l: "l \<in> set (e_loops E)" and f: "f \<in> set (queue_of m l)"
    then obtain d where d: "target f = Some d" "conn_at m d \<noteq> None" using inv unfolding session_ok_def targets_def by blast
    have "d \<noteq> c" using queue [OF l] f d(1) by (auto simp: at_conn_def filter_empty_conv)
    with d show "\<exists>d. target f = Some d \<and> conn_at m' d \<noteq> None" by (auto simp: gone(2))
  next
    fix l f d assume l: "l \<in> set (e_loops E)" and f: "f \<in> set (finished m' l)" "owner f = Some d"
    then have "conn_at m d \<noteq> None" using inv fin [OF l] unfolding session_ok_def targets_def by blast
    with free [OF l f(1)] f(2) show "conn_at m' d \<noteq> None" by (auto simp: gone(2))
  qed
  moreover have "server_ok E m'"
  proof -
    have ok: "server_ok E m" using inv by (simp add: session_ok_def)
    then obtain sv where sv: "server_at m (e_server E) = Some sv"
      "\<And>n d. sv_connections sv n = Some d \<Longrightarrow> \<exists>dn. conn_at m d = Some dn \<and> cn_name dn = n" by (auto simp: server_ok_def)
    have "\<exists>dn. conn_at m' d = Some dn \<and> cn_name dn = n" if e: "sv_connections sv n = Some d" for n d
    proof -
      from sv(2) [OF e] obtain dn where dn: "conn_at m d = Some dn" "cn_name dn = n" by blast
      with e c(3) sv(1) have "d \<noteq> c" by (auto simp: in_table_def)
      with dn gone(2) show ?thesis by simp
    qed
    with ok sv(1) show ?thesis by (simp add: server_ok_def srv)
  qed
  ultimately show ?thesis by (simp add: session_ok_def)
qed

lemma conn_held_iff:
  assumes srv: "server_ok E m"
  shows "conn_held (e_server E) c m \<longleftrightarrow> in_table E c m \<or> (\<exists>l \<in> set (e_loops E). \<exists>f \<in> set (queue_of m l) \<union> set (finished m l). owner f = Some c)"
proof -
  from srv obtain sv where sv: "server_at m (e_server E) = Some sv" "set (server_loops sv) = set (e_loops E)"
    by (auto simp: server_ok_def)
  then show ?thesis
    by (auto simp: conn_held_def in_table_def queue_of_def list_ex_iff split: option.splits)
qed

lemma release_ok:
  fixes m :: "'v session"
  assumes inv: "session_ok E m" and E: "env_ok E" and l: "l \<in> set (e_loops E)" and fin: "finished m l = f # fs"
  shows "\<exists>m'. perform K V (e_server E) (Release l) m = Inr m' \<and> session_ok E m'
    \<and> todo m' = todo m \<and> finished m' = (finished m)(l := fs) \<and> loop_at m' = loop_at m
    \<and> (\<forall>d dn. conn_at m' d = Some dn \<longrightarrow> conn_at m d = Some dn)"
proof -
  have "loop_ok E l m" using inv l by (simp add: session_ok_def)
  then obtain el where el: "loop_at m l = Some el" by (rule loop_okD)
  have "l \<noteq> 0" using l E by (metis env_ok_def)
  let ?m = "m\<lparr>cur_tid := threadId el, finished := (finished m)(l := fs)\<rparr>"
  have run: "perform K V (e_server E) (Release l) m = (case owner f of None \<Rightarrow> Inr ?m
      | Some c \<Rightarrow> if conn_held (e_server E) c ?m then Inr ?m else destroy_TcpConnection K c ?m)"
    using fin el \<open>l \<noteq> 0\<close> by (cases "owner f") (simp_all add: in_loop_def Let_def)
  have core: "core_same m ?m" by (simp add: core_same_def)
  have q: "queue_of ?m = queue_of m" by (simp add: queue_of_def pending_of_def fun_eq_iff)
  have other: "kept E d ?m" if "kept E d m" "owner f \<noteq> Some d" for d
  proof -
    from that(1) obtain j g where jg: "j \<in> set (e_loops E)" "g \<in> set (finished m j)" "owner g = Some d" unfolding kept_def by blast
    then have "g \<in> set (finished ?m j)" using that(2) fin by auto
    with jg show ?thesis unfolding kept_def by blast
  qed
  have srv: "server_ok E ?m" using inv by (simp add: session_ok_def server_ok_def)
  have tab: "in_table E d ?m = in_table E d m" for d by (simp add: in_table_def)
  have still: "session_ok E ?m" if "\<And>c. owner f = Some c \<Longrightarrow> conn_held (e_server E) c ?m"
  proof (rule session_ok_core [OF inv core])
    fix d assume d: "kept E d m" "\<not> in_table E d m" "\<forall>l \<in> set (e_loops E). at_conn d (queue_of m l) = []"
    show "kept E d ?m"
    proof (cases "owner f = Some d")
      case True
      from that [OF this] d(2) obtain j g where "j \<in> set (e_loops E)" "g \<in> set (queue_of m j) \<union> set (finished ?m j)" "owner g = Some d"
        by (auto simp: conn_held_iff [OF srv] tab q)
      moreover from this d(3) owner_target [of g d] have "g \<notin> set (queue_of m j)" by (auto simp: at_conn_def filter_empty_conv)
      ultimately show ?thesis unfolding kept_def by blast
    qed (use d(1) other in blast)
  qed (use fin in \<open>auto simp: q\<close>)
  show ?thesis
  proof (cases "\<exists>c. owner f = Some c \<and> \<not> conn_held (e_server E) c ?m")
    case False
    then have "perform K V (e_server E) (Release l) m = Inr ?m" using run by (auto split: option.split)
    moreover from False still have "session_ok E ?m" by blast
    ultimately show ?thesis by (intro exI [of _ ?m]) simp
  next
    case True
    then obtain c where c: "owner f = Some c" "\<not> conn_held (e_server E) c ?m" by blast
    have "conn_at m c \<noteq> None" using inv l fin c(1) unfolding session_ok_def targets_def by auto
    then obtain cn where cn: "conn_at m c = Some cn" by blast
    from session_ok_conn [OF inv cn] obtain ch st k where
      lk: "linked E c cn ch m" and st: "staged E c cn ch (\<lambda>l. at_conn c (queue_of m l)) (in_table E c m) (kept E c m) st k" .
    from c(2) have free: "\<not> in_table E c m" "\<And>j g. j \<in> set (e_loops E) \<Longrightarrow> g \<in> set (queue_of m j) \<union> set (finished ?m j) \<Longrightarrow> owner g \<noteq> Some c"
      by (auto simp: conn_held_iff [OF srv] tab q)
    have io: "cn_loop cn \<in> set (e_loops E)" using lk by (simp add: linked_def)
    have "st \<noteq> Removed"
    proof
      assume "st = Removed"
      then have "ConnDestroyed c \<in> set (at_conn c (queue_of m (cn_loop cn)))" using st io by (simp add: staged_def)
      then have "ConnDestroyed c \<in> set (queue_of m (cn_loop cn))" by (simp add: at_conn_def)
      with free(2) [OF io, of "ConnDestroyed c"] show False by simp
    qed
    then have dead: "st = Dead" using st free(1) by (cases st) (simp_all add: staged_def)
    then have stage: "cn_state cn = kDisconnected" "ch_index ch = kNew" "\<And>j. j \<in> set (e_loops E) \<Longrightarrow> at_conn c (queue_of m j) = []"
      using st by (simp_all add: staged_def)
    let ?m' = "close_socket K (sock_fd cn) (?m\<lparr>chan_at := (chan_at m)(cn_channel cn := None), conn_at := (conn_at m)(c := None)\<rparr>)"
    have "destroy_TcpConnection K c ?m = Inr ?m'"
      using lk stage(1) by (simp add: destroy_TcpConnection_def linked_def)
    then have "perform K V (e_server E) (Release l) m = Inr ?m'" using run c by simp
    moreover have "session_ok E ?m'"
    proof (rule session_ok_drop [OF inv E lk stage(2) free(1)])
      show "kept E d ?m'" if "d \<noteq> c" "kept E d m" for d
        using other [OF that(2)] c(1) that(1) by (simp add: kept_def close_socket_def do_sys_log Let_def)
      show "owner g \<noteq> Some c" if "j \<in> set (e_loops E)" "g \<in> set (finished ?m' j)" for j g
        using free(2) [OF that(1), of g] that(2) by (simp add: close_socket_def do_sys_log Let_def)
    qed (use stage(3) fin in \<open>auto simp: close_socket_def do_sys_log Let_def\<close>)
    ultimately show ?thesis by (intro exI [of _ ?m']) (simp add: close_socket_def do_sys_log Let_def)
  qed
qed

section \<open>A connection is accepted\<close>

text \<open>The heaps and the table grow by one connection, which is queued in its loop.\<close>

definition joins :: "env \<Rightarrow> ptr \<Rightarrow> 'v app tcpconn \<Rightarrow> 'v app closure channel \<Rightarrow> pool \<Rightarrow> 'v session \<Rightarrow> 'v session \<Rightarrow> bool" where
  "joins E c cn ch tp m m' \<longleftrightarrow> conn_at m' = (conn_at m)(c \<mapsto> cn) \<and> chan_at m' = (chan_at m)(cn_channel cn \<mapsto> ch)
     \<and> poller_at m' = poller_at m \<and> (\<forall>e. interest e (trace m') = interest e (trace m))
     \<and> history_conforms (trace m') = history_conforms (trace m) \<and> todo m' = todo m \<and> finished m' = finished m
     \<and> (\<exists>sv. server_at m (e_server E) = Some sv \<and> cn_name cn = conn_name sv (sv_nextConnId sv)
        \<and> server_at m' = (server_at m)(e_server E \<mapsto> next_server tp c sv))"

lemma joins_server:
  assumes j: "joins E c cn ch tp m m'" and srv: "server_ok E m" and c: "conn_at m c = None"
    and sv: "server_at m (e_server E) = Some sv" and tp: "getNextLoop (sv_threadPool sv) = (l, tp)"
  shows "server_ok E m'" and "in_table E c m'" and "d \<noteq> c \<Longrightarrow> in_table E d m' = in_table E d m"
proof -
  note j = j [unfolded joins_def sv, simplified]
  from srv sv have ok: "table_ok sv" "sv_loop sv = e_base E" "set (server_loops sv) = set (e_loops E)"
    "tp_baseLoop (sv_threadPool sv) = e_base E" "sv_connectionCallback sv \<noteq> None \<and> sv_messageCallback sv \<noteq> None"
    "tp_loops (sv_threadPool sv) \<noteq> [] \<longrightarrow> tp_next (sv_threadPool sv) < length (tp_loops (sv_threadPool sv))"
    "\<And>n d. sv_connections sv n = Some d \<Longrightarrow> \<exists>dn. conn_at m d = Some dn \<and> cn_name dn = n"
    by (simp_all add: server_ok_def)
  have pool: "tp_loops tp = tp_loops (sv_threadPool sv)" "tp_baseLoop tp = tp_baseLoop (sv_threadPool sv)"
    "tp_loops tp \<noteq> [] \<longrightarrow> tp_next tp < length (tp_loops tp)"
    using tp by (auto simp: getNextLoop_def split: if_splits)
  have sv': "server_at m' (e_server E) = Some (next_server tp c sv)" using j by simp
  have new: "table_ok (next_server tp c sv)" "sv_connections (next_server tp c sv) = (sv_connections sv)(cn_name cn \<mapsto> c)"
    "sv_loop (next_server tp c sv) = sv_loop sv" "sv_threadPool (next_server tp c sv) = tp"
    "sv_connectionCallback (next_server tp c sv) = sv_connectionCallback sv"
    "sv_messageCallback (next_server tp c sv) = sv_messageCallback sv"
    using table_ok_insert [OF ok(1)] j by (simp_all add: next_server_def)
  have "\<exists>dn. conn_at m' d = Some dn \<and> cn_name dn = n" if e: "((sv_connections sv)(cn_name cn \<mapsto> c)) n = Some d" for n d
  proof (cases "n = cn_name cn")
    case False
    with e ok(7) obtain dn where "conn_at m d = Some dn" "cn_name dn = n" by auto
    with c j show ?thesis by (intro exI [of _ dn]) auto
  qed (use e j in auto)
  then show "server_ok E m'"
    using ok(2-5) new(1,3-6) pool sv' by (simp add: server_ok_def new(2) server_loops_def)
  show "in_table E c m'" using sv' new(2) j by (simp add: in_table_def)
  have "sv_connections sv (cn_name cn) = None" using next_name_fresh [OF ok(1)] j by auto
  then have "((sv_connections sv)(cn_name cn \<mapsto> c)) n = Some d \<longleftrightarrow> sv_connections sv n = Some d" if "d \<noteq> c" for n
    using that by auto
  then show "in_table E d m' = in_table E d m" if "d \<noteq> c"
    using that sv sv' j by (simp add: in_table_def new(2))
qed

lemma next_loop_in:
  assumes E: "env_ok E" and srv: "server_ok E m" and sv: "server_at m (e_server E) = Some sv"
    and tp: "getNextLoop (sv_threadPool sv) = (l, tp)"
  shows "l \<in> set (e_loops E)"
proof -
  have sv': "set (server_loops sv) = set (e_loops E)" "tp_baseLoop (sv_threadPool sv) = e_base E"
    "tp_loops (sv_threadPool sv) \<noteq> [] \<longrightarrow> tp_next (sv_threadPool sv) < length (tp_loops (sv_threadPool sv))"
    using srv sv by (simp_all add: server_ok_def)
  then have "l \<in> set (tp_loops (sv_threadPool sv)) \<or> l = e_base E"
    using tp nth_mem [of "tp_next (sv_threadPool sv)" "tp_loops (sv_threadPool sv)"] by (auto simp: getNextLoop_def split: if_splits)
  then show ?thesis using sv'(1) E by (auto simp: server_loops_def env_ok_def)
qed

lemma session_ok_join:
  fixes m :: "'v session"
  assumes inv: "session_ok E m" and E: "env_ok E" and new: "c \<noteq> 0" "cn_channel cn \<noteq> 0" "conn_at m c = None" "chan_at m (cn_channel cn) = None"
    and j: "joins E c cn ch tp m m'" and sv: "server_at m (e_server E) = Some sv" and tp: "getNextLoop (sv_threadPool sv) = (cn_loop cn, tp)"
    and cn: "cn_state cn = kConnecting" "buffer_inv (outputBuffer cn)" "connectionCallback cn \<noteq> None" "messageCallback cn \<noteq> None" "buffer_inv (inputBuffer cn)"
      "closeCallback cn = Some (RemoveConnection (e_server E))"
    and ch: "ch_index ch = kNew" "ch_loop ch = cn_loop cn" "ch_fd ch = sock_fd cn" "channel.closeCallBack ch = Some (ConnHandleClose c)"
      "errorCallBack ch = Some (ConnHandleError c)" "readCallBack ch = Some (ConnHandleRead c)" "ch_events ch = 0"
    and fd: "unused_fd (sock_fd cn) m" and el: "loop_at m (cn_loop cn) = Some el"
    and loops: "loop_at m' = (loop_at m)(cn_loop cn \<mapsto> el\<lparr>pendingFunctors := pendingFunctors el @ [ConnEstablished c]\<rparr>)"
  shows "session_ok E m'" "cn_loop cn \<in> set (e_loops E)" "linked E c cn ch m'"
proof -
  have srv: "server_ok E m" and apart: "apart (conn_at m)" and tgt: "targets E m" using inv by (simp_all add: session_ok_def)
  note js = joins_server [OF j srv new(3) sv tp]
  note jd = j [unfolded joins_def sv, simplified]
  show io: "cn_loop cn \<in> set (e_loops E)" by (rule next_loop_in [OF E srv sv tp])
  have fresh_fd: "\<forall>a x. chan_at m a = Some x \<longrightarrow> ch_fd x \<noteq> ch_fd ch" using fd ch(3) by (simp add: unused_fd_def)
  note fresh = poller_inv_fresh [OF _ new(2,4) ch(1) fresh_fd]
  let ?m = "put_chan (cn_channel cn) ch m"
  have pi: "poller_inv p m' = poller_inv p ?m" for p using jd by (simp add: poller_inv_def registry_ok_def)
  have us: "usable p v m' = usable p v ?m" for p v using jd by (simp add: usable_def)
  have "poller_ok E l m'" if ok: "poller_ok E l m" for l
    using ok fresh(1) [of "e_poller E l"] jd pi by (auto simp: poller_ok_def)
  moreover have lfix: "map_option loop_fixed (loop_at m' l) = map_option loop_fixed (loop_at m l)" for l
    using loops el by (simp add: loop_fixed_def)
  ultimately have "\<forall>l \<in> set (e_loops E). loop_ok E l m'" using inv by (simp add: session_ok_def loop_ok_def)
  moreover have q: "queue_of m' l = queue_of m l @ (if l = cn_loop cn then [ConnEstablished c] else [])" for l
    using jd pending_put(1) [OF loops el] by (simp add: queue_of_def)
  have unused: "at_conn c (queue_of m l) = []" if "l \<in> set (e_loops E)" for l
    using tgt that new(3) by (force simp: targets_def at_conn_def filter_empty_conv)
  have chans: "cn_channel dn \<noteq> cn_channel cn" "sock_fd dn \<noteq> sock_fd cn" "d \<noteq> c" if dn: "conn_at m d = Some dn" for d dn
  proof -
    from session_ok_conn [OF inv dn] obtain dh where "chan_at m (cn_channel dn) = Some dh" "ch_fd dh = sock_fd dn"
      unfolding linked_def by blast
    then show "cn_channel dn \<noteq> cn_channel cn" "sock_fd dn \<noteq> sock_fd cn" "d \<noteq> c"
      using new(3,4) dn fresh_fd ch(3) by auto
  qed
  have "loop_ok E (cn_loop cn) m" using inv io by (simp add: session_ok_def)
  then obtain po where po: "poller_inv (e_poller E (cn_loop cn)) m" "poller_at m (e_poller E (cn_loop cn)) = Some po" "po_owner po = cn_loop cn"
    "e_wake E (cn_loop cn) = weakupFd el"
    using el by (auto simp: loop_ok_def poller_ok_def loop_fixed_def)
  have "weakupFd el \<noteq> sock_fd cn" using fd el by (auto simp: unused_fd_def)
  with fresh(2) [OF po(1,2)] po(3,4) show lk: "linked E c cn ch m'"
    unfolding linked_def us using jd io new cn ch by simp
  have "conn_inv E d m'" for d
  proof (cases "d = c")
    case True
    have "staged E c cn ch (\<lambda>l. at_conn c (queue_of m' l)) (in_table E c m') (kept E c m') Connecting 0"
      using cn ch js(2) unused q by (auto simp: staged_def kNew_def kAdd_def)
    with lk True jd show ?thesis by (auto simp: conn_inv_def)
  next
    case False
    show ?thesis
      unfolding conn_inv_def
    proof (intro allI impI)
      fix dn assume "conn_at m' d = Some dn"
      then have dn: "conn_at m d = Some dn" using jd False by simp
      from session_ok_conn [OF inv dn] obtain dh st k where
        d: "linked E d dn dh m" "staged E d dn dh (\<lambda>l. at_conn d (queue_of m l)) (in_table E d m) (kept E d m) st k" .
      have "linked E d dn dh m'"
      proof -
        have "poller_inv (e_poller E (cn_loop dn)) m" using inv d(1) by (simp add: session_ok_def linked_def loop_ok_def poller_ok_def)
        from fresh(3) [OF this] d(1) chans [OF dn] jd False show ?thesis unfolding linked_def us by simp
      qed
      moreover have "at_conn d (queue_of m' l) = at_conn d (queue_of m l)" for l using q False by simp
      moreover have "kept E d m' = kept E d m" using jd by (simp add: kept_def)
      ultimately show "\<exists>ch st k. linked E d dn ch m'
          \<and> staged E d dn ch (\<lambda>l. at_conn d (queue_of m' l)) (in_table E d m') (kept E d m') st k"
        using d(2) js(3) [OF False] by auto
    qed
  qed
  moreover have "apart (conn_at m')"
  proof -
    have "conn_at m' = (conn_at m)(c \<mapsto> cn)" using jd by simp
    with apart chans show ?thesis unfolding apart_def by (metis fun_upd_apply option.inject)
  qed
  moreover have "targets E m'"
    by (rule targets_grow [OF tgt, where c = c]) (use jd in \<open>auto simp: q split: if_splits\<close>)
  ultimately show "session_ok E m'" using js(1) by (simp add: session_ok_def)
qed

text \<open>The thread of the server runs \<open>conneectEstableished\<close> at once when the connection is its own.\<close>

lemma session_ok_establish:
  fixes m :: "'v session"
  assumes inv: "session_ok E m" and E: "env_ok E" and K: "ctl_documented K" and V: "quiet_calls V"
    and c: "linked E c cn ch m" "cn_state cn = kConnecting" and tid: "cur_tid m = e_thread E (cn_loop cn)"
    and el: "loop_at m (cn_loop cn) = Some (el\<lparr>pendingFunctors := pendingFunctors el @ [ConnEstablished c]\<rparr>)"
    and m1: "core_same m m1" "loop_at m1 = (loop_at m)(cn_loop cn \<mapsto> el)" "server_at m1 = server_at m" "todo m1 = todo m"
      "finished m1 = finished m" "cur_tid m1 = cur_tid m"
  shows "\<exists>m'. conneectEstableished K (app_call K V) c m1 = Inr m' \<and> session_ok E m'"
proof -
  have cn: "conn_at m c = Some cn" and io: "cn_loop cn \<in> set (e_loops E)" using c(1) by (simp_all add: linked_def)
  from session_ok_conn [OF inv cn] obtain ch0 st k where
    st: "linked E c cn ch0 m" "staged E c cn ch0 (\<lambda>l. at_conn c (queue_of m l)) (in_table E c m) (kept E c m) st k" .
  have conn: "st = Connecting" "in_table E c m" using st(2) c(2) by (cases st; auto simp: staged_def)+
  have "ch0 = ch" using st(1) c(1) by (simp add: linked_def)
  then have ev: "ch_events ch = 0" using st(2) conn(1) by (simp add: staged_def)
  have "loop_ok E (cn_loop cn) m" using inv io by (simp add: session_ok_def)
  then have loop1: "loop_ok E (cn_loop cn) m1"
    using el m1(1,2) core_poller [OF m1(1)] by (simp add: loop_ok_def poller_ok_def loop_fixed_def core_same_def)
  from established [OF K V _ loop1 E, of c ch] c(1) core_linked [OF m1(1)] tid m1(6) ev obtain m' ch' where
    m': "conneectEstableished K (app_call K V) c m1 = Inr m'" "foot (e_poller E (cn_loop cn)) c (cn_channel cn) (sock_fd cn) m1 m'"
      "linked E c (cn\<lparr>cn_state := kConnected\<rparr>) ch' m'" "poller_inv (e_poller E (cn_loop cn)) m'"
      "ch_index ch' = kAdd" "ch_events ch' = kReadEvent" "ch_tied ch'" "ch_tie ch' = c" by auto
  have keep: "server_at m' = server_at m" "todo m' = todo m" "finished m' = finished m" "loop_at m' = (loop_at m)(cn_loop cn \<mapsto> el)"
    using m'(2) more_session [of m' m1] m1 by (simp_all add: foot_def)
  have t: "touch (e_poller E (cn_loop cn)) c (cn_channel cn) (sock_fd cn) m m'"
    using touch_trans [OF core_touch [OF m1(1)]] m'(2) by (simp add: foot_def)
  have q: "queue_of m l = queue_of m' l @ (if l = cn_loop cn then [ConnEstablished c] else [])" for l
    using keep el by (simp add: queue_of_def pending_of_def)
  note still = session_still [OF inv t keep(1)]
  have "session_ok E m'"
  proof (rule session_ok_act [OF inv E c(1) m'(3) _ t m'(4) _ still])
    show "map_option loop_fixed (loop_at m' l) = map_option loop_fixed (loop_at m l)" for l
      using keep(4) el by (simp add: loop_fixed_def)
    show "targets E m'"
    proof (rule targets_grow [where c = c])
      show "targets E m" using inv by (simp add: session_ok_def)
      show "conn_at m' d \<noteq> None" if "conn_at m d \<noteq> None" for d
        using that t m'(3) by (cases "d = c") (auto simp: touch_def linked_def)
    qed (use keep m'(3) in \<open>simp_all add: q linked_def\<close>)
    have "at_conn c (queue_of m' l) = []" if l: "l \<in> set (e_loops E)" for l
      using st(2) l conn(1) by (auto simp: staged_def q split: if_splits)
    with m'(5-8) still(2) conn(2) show "staged E c (cn\<lparr>cn_state := kConnected\<rparr>) ch' (\<lambda>l. at_conn c (queue_of m' l))
        (in_table E c m') (kept E c m') Open 0" by (simp add: staged_def)
  qed (use keep in \<open>simp_all add: q kept_def\<close>)
  with m'(1) show ?thesis by blast
qed

lemma accept_fails:
  fixes m :: "'v session"
  assumes inv: "session_ok E m" and E: "env_ok E" and sv: "server_at m (e_server E) = Some sv"
    and r: "sr_rv (K (trace m) (SysAccept (ac_fd (sv_acceptor sv)) len)) \<le> 0"
  shows "\<exists>m'. perform K V (e_server E) (Accept len peer0 c w) m = Inr m' \<and> session_ok E m'"
proof -
  have base: "sv_loop sv = e_base E" "e_base E \<in> set (e_loops E)" "e_server E \<noteq> 0"
    using inv E sv by (simp_all add: session_ok_def server_ok_def env_ok_def)
  have "loop_ok E (e_base E) m" using inv base(2) by (simp add: session_ok_def)
  then obtain el where el: "loop_at m (e_base E) = Some el" by (rule loop_okD)
  have nz: "e_base E \<noteq> 0" using E by (metis env_ok_def)
  let ?call = "SysAccept (ac_fd (sv_acceptor sv)) len"
  let ?m = "log_sys ?call (K (trace m) ?call) (m\<lparr>cur_tid := threadId el\<rparr>)"
  have "perform K V (e_server E) (Accept len peer0 c w) m = Inr ?m"
    using sv base el nz r
    by (simp add: in_loop_def accept_one_def acceptor_handleRead_def socket_accept_def do_sys_log Let_def)
  moreover have "session_ok E ?m"
    by (rule session_ok_core [OF inv]) (simp_all add: queue_of_def pending_of_def kept_def)
  ultimately show ?thesis by blast
qed

lemma accept_new:
  fixes m :: "'v session"
  assumes inv: "session_ok E m" and E: "env_ok E" and K: "ctl_documented K" and V: "quiet_calls V"
    and may: "may K (e_server E) (Accept len peer0 c w) m" and sv0: "server_at m (e_server E) = Some sv0"
    and got: "0 < sr_rv (K (trace m) (SysAccept (ac_fd (sv_acceptor sv0)) len))"
  shows "\<exists>m'. perform K V (e_server E) (Accept len peer0 c w) m = Inr m' \<and> session_ok E m'"
proof -
  let ?s = "e_server E" and ?b = "e_base E" and ?U = "app_call K V"
  have new: "c \<noteq> 0" "w \<noteq> 0" "conn_at m c = None" "chan_at m w = None" using may by simp_all
  have srv: "server_ok E m" and E': "?s \<noteq> 0" "?b \<in> set (e_loops E)" "0 \<notin> set (e_loops E)"
    using inv E by (simp_all add: session_ok_def env_ok_def)
  from srv obtain sv where sv: "server_at m ?s = Some sv" "table_ok sv" "sv_loop sv = ?b" "sv_connectionCallback sv \<noteq> None" "sv_messageCallback sv \<noteq> None"
    by (auto simp: server_ok_def)
  define r where "r = K (trace m) (SysAccept (ac_fd (sv_acceptor sv)) len)"
  have fd: "0 < sr_rv r" "unused_fd (sr_rv r) m" "sv_nextConnId sv < 2 ^ 31"
    using may sv(1) sv0 got by (auto simp: r_def Let_def)
  have loops: "loop_ok E l m" if "l \<in> set (e_loops E)" for l using inv that by (simp add: session_ok_def)
  from loop_okD [OF loops [OF E'(2)]] obtain bel where bel: "loop_at m ?b = Some bel" "threadId bel = e_thread E ?b" .
  have nz: "?b \<noteq> 0" using E'(2,3) by metis
  obtain l tp where tp: "getNextLoop (sv_threadPool sv) = (l, tp)" by fastforce
  have io: "l \<in> set (e_loops E)" by (rule next_loop_in [OF E srv sv(1) tp])
  then have l0: "l \<noteq> 0" using E'(3) by metis
  from loop_okD [OF loops [OF io]] obtain el where el: "loop_at m l = Some el" "threadId el = e_thread E l" .
  define m0 where "m0 = log_sys (SysAccept (ac_fd (sv_acceptor sv)) len) r (m\<lparr>cur_tid := e_thread E ?b\<rparr>)"
  have run: "perform K V ?s (Accept len peer0 c w) m = newConnection K ?U c w ?s (sr_rv r) (sr_addr r) m0"
    using sv(1,3) E'(1) fd(1) bel nz
    by (simp add: in_loop_def accept_one_def acceptor_handleRead_def socket_accept_def do_sys_log Let_def setSockAddr_def m0_def r_def)
  have sv0: "server_at m0 ?s = Some sv" using sv(1) by (simp add: m0_def)
  from newConnection_shape [OF E'(1) sv0 sv(2) fd(3) new(1) tp l0, of K ?U w "sr_rv r" "sr_addr r"]
  obtain m1 cn cn0 r1 r2 where
    nc: "newConnection K ?U c w ?s (sr_rv r) (sr_addr r) m0 = runInLoop K (\<lambda>_. conneectEstableished K ?U c) l (ConnEstablished c) m1"
      "m1 = put_conn c cn (put_server ?s (next_server tp c sv) (log_sys (SysSetsockopt (sr_rv r) SO_KEEPALIVE 1) r2
        (put_conn c cn0 (put_chan w (conn_chan l (sr_rv r) c) (log_sys (SysGetsockname (sr_rv r)) r1 m0)))))"
      "cn_loop cn = l" "cn_channel cn = w" "sock_fd cn = sr_rv r" "closeCallback cn = Some (RemoveConnection ?s)"
      "connectionCallback cn \<noteq> None" "messageCallback cn \<noteq> None" "buffer_inv (inputBuffer cn)" "buffer_inv (outputBuffer cn)" "cn_state cn = kConnecting"
      "cn_name cn = conn_name sv (sv_nextConnId sv)"
    using sv(4,5) by (metis (no_types, lifting))
  let ?ch = "conn_chan l (sr_rv r) c"
  have m1: "loop_at m1 = loop_at m" "cur_tid m1 = e_thread E ?b" by (simp_all add: nc(2) m0_def)
  have joins: "joins E c cn ?ch tp m m1"
    using sv(1) nc(4,12) by (simp add: joins_def nc(2) m0_def del: append_assoc)
  have grow: "session_ok E m'" "linked E c cn ?ch m'"
    if "core_same m1 m'" "server_at m' = server_at m1" "todo m' = todo m1" "finished m' = finished m1"
      "loop_at m' = (loop_at m)(l \<mapsto> el\<lparr>pendingFunctors := pendingFunctors el @ [ConnEstablished c]\<rparr>)" for m'
  proof -
    have "joins E c cn ?ch tp m m'" using joins that by (simp add: joins_def core_same_def)
    note join = session_ok_join [OF inv E new(1) _ new(3) _ this sv(1), unfolded nc(3-5)]
    show "session_ok E m'" "linked E c cn ?ch m'"
      by (rule join; (use tp nc new fd el that(5) in \<open>simp add: conn_chan_def Channel_def kNew_def\<close>)?)+
  qed
  show ?thesis
  proof (cases "l = ?b")
    case True
    let ?mh = "put_loop l (el\<lparr>pendingFunctors := pendingFunctors el @ [ConnEstablished c]\<rparr>) m1"
    have "session_ok E ?mh" "linked E c cn ?ch ?mh" by (rule grow; simp add: m1(1))+
    from session_ok_establish [OF this(1) E K V this(2), of el m1] nc(3,11) m1 True el
    obtain m' where "conneectEstableished K ?U c m1 = Inr m'" "session_ok E m'" by (auto simp: core_same_def fun_upd_idem)
    moreover have "perform K V ?s (Accept len peer0 c w) m = conneectEstableished K ?U c m1"
      using run nc(1) l0 el m1 True by (simp add: runInLoop_def isInLoopthread_def)
    ultimately show ?thesis by auto
  next
    case False
    with E io E'(2) el(2) have "threadId el \<noteq> e_thread E ?b" by (auto simp: env_ok_def dest: inj_onD)
    then have "perform K V ?s (Accept len peer0 c w) m = queueInLoop K l (ConnEstablished c) m1"
      using run nc(1) l0 el m1 by (simp add: runInLoop_def isInLoopthread_def)
    moreover have "loop_at m1 l = Some el" using el m1(1) by simp
    from queueInLoop_core [OF l0 this, of K "ConnEstablished c"] m1(1) obtain m' where
      "queueInLoop K l (ConnEstablished c) m1 = Inr m'" "core_same m1 m'" "server_at m' = server_at m1" "todo m' = todo m1"
      "finished m' = finished m1" "loop_at m' = (loop_at m)(l \<mapsto> el\<lparr>pendingFunctors := pendingFunctors el @ [ConnEstablished c]\<rparr>)"
      by auto
    ultimately show ?thesis using grow(1) by auto
  qed
qed

lemma accept_ok:
  fixes m :: "'v session"
  assumes inv: "session_ok E m" and E: "env_ok E" and K: "ctl_documented K" and V: "quiet_calls V"
    and may: "may K (e_server E) (Accept len peer0 c w) m"
  shows "\<exists>m'. perform K V (e_server E) (Accept len peer0 c w) m = Inr m' \<and> session_ok E m'"
proof -
  obtain sv where sv: "server_at m (e_server E) = Some sv" using inv by (auto simp: session_ok_def server_ok_def)
  then show ?thesis
    using accept_fails [OF inv E sv, of K len V peer0 c w] accept_new [OF inv E K V may sv]
    by (cases "0 < sr_rv (K (trace m) (SysAccept (ac_fd (sv_acceptor sv)) len))") simp_all
qed

end
