(* ===== verification/Muduo_Lifecycle.thy ===== *)
theory Muduo_Lifecycle
  imports Muduo_SessionSteps
begin

text \<open>
  What the model of \<open>Muduo_Session\<close> promises: its events never fail, the queued work ends, and a
  connection that was closed is destroyed.
\<close>

section \<open>Work comes to an end\<close>

text \<open>The steps that only run what is queued; \<open>doPendingFunctors\<close> is interesting when something is.\<close>

fun is_work :: "event \<Rightarrow> 'v session \<Rightarrow> bool" where
  "is_work (Swap l) m \<longleftrightarrow> pending_of l m \<noteq> []"
| "is_work (RunOne l) m \<longleftrightarrow> True"
| "is_work (Return l) m \<longleftrightarrow> True"
| "is_work (Release l) m \<longleftrightarrow> True"
| "is_work _ m \<longleftrightarrow> False"

definition work_step :: "kernel \<Rightarrow> ('v app user_call \<Rightarrow> 'v session \<Rightarrow> 'v session result) \<Rightarrow> ptr
    \<Rightarrow> 'v session \<Rightarrow> event \<Rightarrow> 'v session \<Rightarrow> bool" where
  "work_step K V s m a m' \<longleftrightarrow> is_work a m \<and> session_step K V s m a m'"

text \<open>Taking a connection out of the table queues one more functor.\<close>

definition weight :: "'v app closure \<Rightarrow> nat" where
  "weight f = (if removal f then 10 else 4)"

definition load_of :: "'v session \<Rightarrow> ptr \<Rightarrow> nat" where
  "load_of m l = (\<Sum>f\<leftarrow>pending_of l m. weight f + 2) + (\<Sum>f\<leftarrow>todo m l. weight f) + length (finished m l) + (if calling l m then 1 else 0)"

definition work_left :: "env \<Rightarrow> 'v session \<Rightarrow> nat" where
  "work_left E m = (\<Sum>l\<in>set (e_loops E). load_of m l)"

lemma work_left_step:
  assumes "l \<in> set (e_loops E)" and "b < a"
    and "\<And>j. j \<in> set (e_loops E) \<Longrightarrow> load_of m' j + (if j = l then a else 0) = load_of m j + (if j = io then b else 0)"
  shows "work_left E m' < work_left E m"
proof -
  have "(\<Sum>j\<in>set (e_loops E). load_of m' j + (if j = l then a else 0)) = (\<Sum>j\<in>set (e_loops E). load_of m j + (if j = io then b else 0))"
    using assms(3) by (rule sum.cong [OF refl])
  then have "work_left E m' + a = work_left E m + (if io \<in> set (e_loops E) then b else 0)"
    using assms(1) by (simp add: sum.distrib work_left_def)
  with assms(2) show ?thesis by (simp split: if_splits)
qed

lemma long_list: "q \<noteq> [] \<Longrightarrow> (\<Sum>f\<leftarrow>q. weight f + 2) = (\<Sum>f\<leftarrow>q. weight f) + 1 + (2 * length q - 1)"
  by (induction q) (auto simp: weight_def, (case_tac q; simp)+)

text \<open>What the events of \<open>doPendingFunctors\<close> do to the queues.\<close>

lemma may_loop:
  assumes "session_ok E m" and "may K (e_server E) a m" and "a \<in> {Swap l, RunOne l, Return l, Release l}"
  shows "l \<in> set (e_loops E)"
proof -
  obtain sv where "server_at m (e_server E) = Some sv" "set (server_loops sv) = set (e_loops E)"
    using assms(1) by (auto simp: session_ok_def server_ok_def)
  note sv = this
  from assms(3) consider "a = Swap l" | "a = RunOne l" | "a = Return l" | "a = Release l" by blast
  then show ?thesis using assms(2) sv by cases simp_all
qed

lemma work_decreases:
  fixes m :: "'v session"
  assumes inv: "session_ok E m" and E: "env_ok E" and K: "ctl_documented K" and V: "quiet_calls V"
    and step: "work_step K V (e_server E) m a m'"
  shows "work_left E m' < work_left E m" and "over d m \<Longrightarrow> over d m'"
proof -
  from step have st: "is_work a m" "may K (e_server E) a m" "perform K V (e_server E) a m = Inr m'"
    by (simp_all add: work_step_def session_step_def)
  have "work_left E m' < work_left E m \<and> (over d m \<longrightarrow> over d m')"
    using st(1)
  proof (cases rule: is_work.cases [of "(a, m)"])
    case (1 l)
    then have l: "l \<in> set (e_loops E)" and idle: "between l m" and p: "pending_of l m \<noteq> []" using may_loop [OF inv st(2)] st(1,2) by (auto split: option.splits)
    from inv l have "loop_ok E l m" by (simp add: session_ok_def)
    then obtain el where el: "loop_at m l = Some el" by (rule loop_okD)
    have "l \<noteq> 0" using l E by (metis env_ok_def)
    then have m': "m' = (put_loop l (el\<lparr>callingPendingFunctors := True, pendingFunctors := []\<rparr>) (m\<lparr>cur_tid := threadId el\<rparr>))
        \<lparr>todo := (todo m)(l := pendingFunctors el)\<rparr>"
      using st(3) 1 el by (simp add: in_loop_def put_loop_def)
    have "work_left E m' < work_left E m"
    proof (rule work_left_step [OF l, where b = 0 and io = 0])
      show "0 < 2 * length (pending_of l m) - 1" using p by (cases "pending_of l m") auto
      show "load_of m' j + (if j = l then 2 * length (pending_of l m) - 1 else 0) = load_of m j + (if j = 0 then 0 else 0)" for j
        using el idle long_list [OF p] by (auto simp: m' load_of_def pending_of_def calling_def between_def put_loop_def)
    qed
    then show ?thesis by (simp add: m' put_loop_def over_def)
  next
    case (2 l)
    then have l: "l \<in> set (e_loops E)" and t: "todo m l \<noteq> []" using may_loop [OF inv st(2)] st(2) by (auto split: option.splits)
    then obtain f fs where f: "todo m l = f # fs" by (cases "todo m l") auto
    from run_one_ok [OF inv E K V l f] st(3) 2 have ran: "ran l f fs m m'" by auto
    then obtain io where io: "\<And>j. pending_of j m' = pending_of j m @ (if removal f \<and> j = io then [ConnDestroyed (the (target f))] else [])"
      unfolding ran_def by blast
    have "work_left E m' < work_left E m"
    proof (rule work_left_step [OF l, where b = "if removal f then 6 else 0" and io = io])
      show "(if removal f then 6 else 0) < weight f - 1" by (simp add: weight_def)
      show "load_of m' j + (if j = l then weight f - 1 else 0) = load_of m j + (if j = io then if removal f then 6 else 0 else 0)" for j
        using ran f by (auto simp: ran_def load_of_def io weight_def removal_def split: if_splits)
    qed
    with ran show ?thesis by (simp add: ran_def over_def)
  next
    case (3 l)
    then have l: "l \<in> set (e_loops E)" and c: "calling l m" using may_loop [OF inv st(2)] st(2) by (auto split: option.splits)
    from inv l have "loop_ok E l m" by (simp add: session_ok_def)
    then obtain el where el: "loop_at m l = Some el" by (rule loop_okD)
    have "l \<noteq> 0" using l E by (metis env_ok_def)
    then have m': "m' = put_loop l (el\<lparr>callingPendingFunctors := False\<rparr>) (m\<lparr>cur_tid := threadId el\<rparr>)"
      using st(3) 3 el by (simp add: in_loop_def)
    have "work_left E m' < work_left E m"
      by (rule work_left_step [OF l, where a = 1 and b = 0 and io = 0])
        (use el c in \<open>auto simp: m' load_of_def pending_of_def calling_def put_loop_def\<close>)
    then show ?thesis by (simp add: m' put_loop_def over_def)
  next
    case (4 l)
    then have l: "l \<in> set (e_loops E)" and t: "finished m l \<noteq> []" using may_loop [OF inv st(2)] st(2) by (auto split: option.splits)
    then obtain f fs where f: "finished m l = f # fs" by (cases "finished m l") auto
    from release_ok [OF inv E l f, of K V] st(3) 4 have m': "todo m' = todo m" "finished m' = (finished m)(l := fs)" "loop_at m' = loop_at m"
      "\<And>d dn. conn_at m' d = Some dn \<Longrightarrow> conn_at m d = Some dn" by auto
    have "work_left E m' < work_left E m"
      by (rule work_left_step [OF l, where a = 1 and b = 0 and io = 0])
        (use f m'(1-3) in \<open>auto simp: load_of_def pending_of_def calling_def\<close>)
    then show ?thesis using m'(4) [of d] by (auto simp: over_def split: option.splits)
  qed auto
  then show "work_left E m' < work_left E m" "over d m \<Longrightarrow> over d m'"
    by blast+
qed

section \<open>Properties\<close>

lemma event_ok:
  fixes m :: "'v session"
  assumes inv: "session_ok E m" and E: "env_ok E" and K: "ctl_documented K" "recv_documented K" and V: "quiet_calls V"
    and may: "may K (e_server E) a m"
  shows "\<exists>m'. perform K V (e_server E) a m = Inr m' \<and> session_ok E m'"
proof -
  have l: "l \<in> set (e_loops E)" if "a \<in> {Swap l, RunOne l, Return l, Release l}" for l
    by (rule may_loop [OF inv may that])
  show ?thesis
  proof (cases a)
    case (Accept len peer0 c w)
    with accept_ok [OF inv E K(1) V] may show ?thesis by simp
  next
    case (Ready r extra c)
    with ready_ok [OF inv E K V] may show ?thesis by blast
  next
    case (Send sp d c)
    with send_ok [OF inv E] may show ?thesis by blast
  next
    case (Shutdown t c)
    with shutdown_ok [OF inv E] may show ?thesis by simp
  next
    case (Swap j)
    with swap_ok [OF inv E l, of j K V] may show ?thesis by (auto split: option.splits)
  next
    case (RunOne j)
    with may have "todo m j \<noteq> []" by (auto split: option.splits)
    then obtain f fs where "todo m j = f # fs" by (cases "todo m j") auto
    with run_one_ok [OF inv E K(1) V l] RunOne show ?thesis by blast
  next
    case (Return j)
    with return_ok [OF inv E l, of j K V] show ?thesis by simp
  next
    case (Release j)
    with may have "finished m j \<noteq> []" by (auto split: option.splits)
    then obtain f fs where "finished m j = f # fs" by (cases "finished m j") auto
    with release_ok [OF inv E l] Release show ?thesis by blast
  qed
qed

lemma steps_ok:
  fixes m0 m :: "'v session"
  assumes "runs (session_step K V (e_server E)) m0 as m" and "session_ok E m0" and "env_ok E"
    and "ctl_documented K" and "recv_documented K" and "quiet_calls V"
  shows "session_ok E m"
proof (rule runs_invariant [OF assms(1), where I = "session_ok E"])
  show "session_ok E u'" if "session_ok E u" "session_step K V (e_server E) u a u'" for u a u'
    using event_ok [OF that(1) assms(3-6)] that(2) by (fastforce simp: session_step_def)
qed (rule assms(2))

lemma server_entry:
  "server_ok E m \<Longrightarrow> server_at m (e_server E) = Some sv \<Longrightarrow> sv_connections sv n = Some c \<Longrightarrow> \<exists>cn. conn_at m c = Some cn \<and> cn_name cn = n"
  by (simp add: server_ok_def)

definition server_at_rest :: "env \<Rightarrow> 'v session \<Rightarrow> bool" where
  "server_at_rest E m \<longleftrightarrow> (\<forall>l \<in> set (e_loops E). queue_of m l = [] \<and> finished m l = [] \<and> \<not> calling l m)"

definition all_open :: "env \<Rightarrow> 'v session \<Rightarrow> bool" where
  "all_open E m \<longleftrightarrow> (\<forall>c cn. conn_at m c = Some cn \<longrightarrow> in_table E c m \<and> cn_state cn \<in> {kConnected, kDisconnecting}
     \<and> watched (e_poller E (cn_loop cn)) m (cn_channel cn) = Some kReadEvent)"

lemma rest_open:
  fixes m :: "'v session"
  assumes inv: "session_ok E m" and E: "env_ok E" and rest: "server_at_rest E m"
  shows "all_open E m"
  unfolding all_open_def
proof (intro allI impI)
  fix c cn assume cn: "conn_at m c = Some cn"
  from session_ok_conn [OF inv cn] obtain ch st k where
    lk: "linked E c cn ch m" and st: "staged E c cn ch (\<lambda>l. at_conn c (queue_of m l)) (in_table E c m) (kept E c m) st k" .
  have io: "cn_loop cn \<in> set (e_loops E)" "e_base E \<in> set (e_loops E)" using lk E by (simp_all add: linked_def env_ok_def)
  have none: "(expect st (e_server E) (e_base E) (cn_loop cn) k c l :: 'v app closure list) = []" if "l \<in> set (e_loops E)" for l
  proof -
    have "at_conn c (queue_of m l) = []" using rest that by (simp add: server_at_rest_def)
    with st that show ?thesis by (simp add: staged_def)
  qed
  have "\<not> kept E c m" using rest by (simp add: kept_def server_at_rest_def)
  with st none [OF io(1)] none [OF io(2)] have "st = Open" by (cases st) (auto simp: staged_def split: if_splits)
  with st have "in_table E c m" "cn_state cn \<in> {kConnected, kDisconnecting}" "ch_index ch = kAdd" "ch_events ch = kReadEvent"
    by (simp_all add: staged_def)
  moreover have "loop_ok E (cn_loop cn) m" using inv io(1) by (simp add: session_ok_def)
  note own = loop_ok_poller(2) [OF loop_ok_poller(1) [OF this]]
  have "usable (e_poller E (cn_loop cn)) (cn_channel cn) m" "chan_at m (cn_channel cn) = Some ch" using lk by (simp_all add: linked_def)
  note watched_index [OF own this]
  ultimately show "in_table E c m \<and> cn_state cn \<in> {kConnected, kDisconnecting}
      \<and> watched (e_poller E (cn_loop cn)) m (cn_channel cn) = Some kReadEvent" by simp
qed

lemma work_continues:
  fixes m :: "'v session"
  assumes inv: "session_ok E m" and E: "env_ok E" and K: "ctl_documented K" "recv_documented K" and V: "quiet_calls V"
    and busy: "\<not> server_at_rest E m"
  shows "\<exists>a m'. work_step K V (e_server E) m a m'"
proof -
  from busy obtain l where l: "l \<in> set (e_loops E)" "queue_of m l \<noteq> [] \<or> finished m l \<noteq> [] \<or> calling l m" unfolding server_at_rest_def by blast
  have "server_ok E m" using inv by (simp add: session_ok_def)
  then obtain sv where sv: "server_at m (e_server E) = Some sv" "l \<in> set (server_loops sv)"
    using l(1) by (auto simp: server_ok_def)
  have "loop_ok E l m" using inv l(1) by (simp add: session_ok_def)
  then obtain el where "loop_at m l = Some el" by (rule loop_okD)
  then have "between l m" if "todo m l = []" "finished m l = []" "\<not> calling l m"
    using that by (simp add: between_def calling_def)
  then obtain a where "is_work a m" "may K (e_server E) a m"
    using that [of "RunOne l"] that [of "Return l"] that [of "Release l"] that [of "Swap l"] sv l(2)
    by (cases "todo m l = []"; cases "calling l m"; cases "finished m l = []") (auto simp: queue_of_def)
  with event_ok [OF inv E K V] show ?thesis unfolding work_step_def session_step_def by blast
qed

interpretation queued: bounded_work "work_step K V (e_server E)"
    "\<lambda>m. session_ok E m \<and> env_ok E \<and> ctl_documented K \<and> recv_documented K \<and> quiet_calls V" "work_left E" "server_at_rest E"
  for K V E
proof
  fix m m' :: "'a session" and a assume inv: "session_ok E m \<and> env_ok E \<and> ctl_documented K \<and> recv_documented K \<and> quiet_calls V"
  show "session_ok E m' \<and> env_ok E \<and> ctl_documented K \<and> recv_documented K \<and> quiet_calls V"
    if step: "work_step K V (e_server E) m a m'"
  proof -
    from step have "may K (e_server E) a m" "perform K V (e_server E) a m = Inr m'"
      by (simp_all add: work_step_def session_step_def)
    with event_ok [of E m K V a] inv show ?thesis by auto
  qed
  show "work_left E m' < work_left E m" if "work_step K V (e_server E) m a m'"
    using work_decreases(1) [OF _ _ _ _ that] inv by blast
next
  fix m :: "'a session" assume "session_ok E m \<and> env_ok E \<and> ctl_documented K \<and> recv_documented K \<and> quiet_calls V" "\<not> server_at_rest E m"
  then show "\<exists>a m'. work_step K V (e_server E) m a m'" using work_continues [of E m K V] by blast
qed

lemma over_stays:
  fixes m0 m :: "'v session"
  assumes "runs (work_step K V (e_server E)) m0 as m" and "session_ok E m0" and "over c m0" and "env_ok E"
    and "ctl_documented K" and "recv_documented K" and "quiet_calls V"
  shows "over c m"
proof -
  have "session_ok E m \<and> over c m"
  proof (rule runs_invariant [OF assms(1), where I = "\<lambda>m. session_ok E m \<and> over c m"])
    show "session_ok E u' \<and> over c u'" if "session_ok E u \<and> over c u" "work_step K V (e_server E) u a u'" for u a u'
      using that assms(4-7) queued.step_keeps [of E u K V a u'] work_decreases(2) [of E u K V a u' c] by blast
  qed (use assms(2,3) in simp)
  then show ?thesis ..
qed




text \<open>C32: A connection of a pool loop that closes leaves a functor with the address of the server in the
  queue of the server's loop, and nothing keeps the server alive for it: once the server has been
  destroyed, running the functor uses a pointer to it.\<close>

theorem close_after_server_dangles:
  fixes m :: "'v session"
  assumes inv: "session_ok E m" and E: "env_ok E" and K: "ctl_documented K" "recv_documented K" and V: "quiet_calls V"
    and may: "may K (e_server E) (Ready r extra c) m" and hup: "hung_up r"
    and other: "conn_at m c = Some cn" "cn_loop cn \<noteq> e_base E"
  shows "\<exists>m1 f. perform K V (e_server E) (Ready r extra c) m = Inr m1
    \<and> pending_of (e_base E) m1 = pending_of (e_base E) m @ [f]
    \<and> (\<forall>x. server_at x (e_server E) = None \<longrightarrow> run_closure K [] (app_call K V) f 0 x = Inl DanglingPointer)"
proof -
  from ready_ok [OF inv E K V may] hup other(1) obtain m1 where
    m1: "perform K V (e_server E) (Ready r extra c) m = Inr m1" "closing E c cn m m1" by auto
  have "e_server E \<noteq> 0" using E by (simp add: env_ok_def)
  then have "run_closure K [] (app_call K V) (OtherClosure (RemoveConnectionInLoop (e_server E) c)) 0 x = Inl DanglingPointer"
    if "server_at x (e_server E) = None" for x
    using that by (simp add: app_call_def removeConnectionInLoop_def load_def)
  with m1 other(2) show ?thesis by (auto simp: closing_def)
qed

text \<open>C33: \<open>shutdown\<close> tests the state and changes it later. If the connection hangs up in between, the
  thread that called \<open>shutdown\<close> makes the closed connection disconnecting again; \<open>conneectDestroyed\<close>
  does not change that, and the destructor stops the program at its assertion.\<close>

theorem shutdown_race_asserts:
  fixes m :: "'v session"
  assumes inv: "session_ok E m" and E: "env_ok E" and K: "ctl_documented K" "recv_documented K" and V: "quiet_calls V"
    and may: "may K (e_server E) (Ready r extra c) m" and hup: "hung_up r" and cn: "conn_at m c = Some cn"
  shows "\<exists>m1 m2 m3. perform K V (e_server E) (Ready r extra c) m = Inr m1
    \<and> shutdown_rest K c (m1\<lparr>cur_tid := t\<rparr>) = Inr m2
    \<and> conneectDestroyed K (app_call K V) c (m2\<lparr>cur_tid := e_thread E (cn_loop cn)\<rparr>) = Inr m3
    \<and> destroy_TcpConnection K c m3 = Inl AssertFailed"
proof -
  from ready_ok [OF inv E K V may] hup cn obtain m1 cn1 where
    m1: "perform K V (e_server E) (Ready r extra c) m = Inr m1" "session_ok E m1" "conn_at m1 c = Some cn1"
      "cn_loop cn1 = cn_loop cn" by (auto simp: closing_def)
  from session_ok_conn [OF m1(2,3)] obtain ch1 where lk: "linked E c cn1 ch1 m1" by blast
  then have io: "cn_loop cn1 \<in> set (e_loops E)" by (simp add: linked_def)
  with m1(2) have loop: "loop_ok E (cn_loop cn1) m1" by (simp add: session_ok_def)
  from loop_okD [OF this] obtain el where el: "loop_at m1 (cn_loop cn1) = Some el" .
  let ?mt = "m1\<lparr>cur_tid := t\<rparr>"
  let ?cn = "cn1\<lparr>cn_state := kDisconnecting\<rparr>"
  have "linked E c cn1 ch1 ?mt" using lk core_linked [of m1 ?mt] by simp
  from shutdown_rest_core [OF this E, of el K] el obtain m2 ps where
    m2: "shutdown_rest K c ?mt = Inr m2" "core_same (put_conn c ?cn ?mt) m2"
      "loop_at m2 = (loop_at m1)(cn_loop cn1 \<mapsto> el\<lparr>pendingFunctors := pendingFunctors el @ ps\<rparr>)" by auto
  let ?m2 = "m2\<lparr>cur_tid := e_thread E (cn_loop cn)\<rparr>"
  have core: "core_same (put_conn c ?cn ?mt) ?m2" using m2(2) by simp
  have mt: "core_same m1 ?mt" by simp
  have "linked E c ?cn ch1 (put_conn c ?cn ?mt)" using lk core_usable [OF mt] by (simp add: linked_def)
  then have lk2: "linked E c ?cn ch1 ?m2" using core_linked [OF core] by simp
  have "poller_inv p ?m2 = poller_inv p m1" for p using core_poller [OF core] core_poller [OF mt] by simp
  then have "loop_ok E (cn_loop ?cn) ?m2"
    using loop el m2(3) core by (simp add: loop_ok_def poller_ok_def loop_fixed_def core_same_def)
  then have ok: "conn_ok c ?cn ch1 ?m2" by (rule linked_conn_ok [OF lk2 _ E]) (simp add: m1(4))
  note d = conn_okD [OF ok]
  from channel_remove_conn [OF ok K(1)] obtain m3 where
    m3: "channel_remove K (cn_channel ?cn) ?m2 = Inr m3" "conn_at m3 = conn_at ?m2"
      "chan_at m3 (cn_channel ?cn) = Some (ch1\<lparr>ch_index := kNew\<rparr>)" by blast
  have "conneectDestroyed K (app_call K V) c ?m2 = Inr m3"
    using conn_loads [OF ok] m3(1) by (simp add: conneectDestroyed_def)
  moreover have "destroy_TcpConnection K c m3 = Inl AssertFailed"
    using d m3(2,3) by (simp add: destroy_TcpConnection_def)
  ultimately show ?thesis using m1(1) m2(1) by blast
qed

section \<open>An example\<close>

text \<open>Server 40 in loop 1 with a pool of one loop, 3, and connection 8 open in that loop.\<close>

definition duo_env :: env where
  "duo_env = \<lparr>e_loops = [1, 3], e_thread = (\<lambda>l. if l = 1 then 100 else 300), e_poller = (\<lambda>l. if l = 1 then 2 else 30),
     e_epfd = (\<lambda>l. if l = 1 then 5 else 6), e_wake = (\<lambda>l. if l = 1 then 4 else 7), e_server = 40, e_base = 1\<rparr>"

definition duo_chan :: "nat app closure channel" where
  "duo_chan = (conn_chan 3 9 8)\<lparr>ch_events := kReadEvent, ch_index := kAdd, ch_tie := 8, ch_tied := True\<rparr>"

definition duo_conn :: "nat app tcpconn" where "duo_conn = demo_conn\<lparr>cn_loop := 3\<rparr>"

definition duo_server :: "nat tcpserver" where
  "duo_server = demo_server\<lparr>sv_threadPool := (EventLoopThreadPool 1 ''srv'')\<lparr>tp_loops := [3]\<rparr>\<rparr>"

definition duo_loop :: "nat app closure eventloop" where
  "duo_loop = demo_loop\<lparr>threadId := 300, el_poller := 30, weakupFd := 7\<rparr>"

definition duo_world :: "nat session" where
  "duo_world = \<lparr>trace = [(SysEpollCtl 6 EPOLL_CTL_ADD 9 \<lparr>ev_events = kReadEvent, ev_ptr = 10\<rparr>, zero_ret)],
     chan_at = [10 \<mapsto> duo_chan], poller_at = [2 \<mapsto> small_poller\<lparr>po_epfd := 5\<rparr>,
       30 \<mapsto> small_poller\<lparr>po_owner := 3, po_channels := [9 \<mapsto> 10], po_epfd := 6\<rparr>],
     loop_at = [1 \<mapsto> demo_loop, 3 \<mapsto> duo_loop], cur_tid = 100, t_loopInThisThread = (\<lambda>_. 0)(100 := 1, 300 := 3),
     conn_at = [8 \<mapsto> duo_conn], bytes_at = Map.empty, server_at = [40 \<mapsto> duo_server],
     todo = (\<lambda>_. []), finished = (\<lambda>_. [])\<rparr>"

lemma duo_simps [simp]:
  "server_at duo_world 40 = Some duo_server" "conn_at duo_world 8 = Some duo_conn"
  "loop_at duo_world = [1 \<mapsto> demo_loop, 3 \<mapsto> duo_loop]" "chan_at duo_world = [10 \<mapsto> duo_chan]"
  "todo duo_world = (\<lambda>_. [])" "finished duo_world = (\<lambda>_. [])" "conn_at duo_world = [8 \<mapsto> duo_conn]"
  "cn_loop duo_conn = 3" "cn_channel duo_conn = 10" "sock_fd duo_conn = 9" "cn_state duo_conn = kConnected"
  "ch_loop duo_chan = 3" "ch_fd duo_chan = 9" "ch_index duo_chan = kAdd" "ch_events duo_chan = kReadEvent"
  "e_loops duo_env = [1, 3]" "e_server duo_env = 40" "e_base duo_env = 1"
  "e_thread duo_env l = (if l = 1 then 100 else 300)" "e_poller duo_env l = (if l = 1 then 2 else 30)"
  "e_epfd duo_env l = (if l = 1 then 5 else 6)" "e_wake duo_env l = (if l = 1 then 4 else 7)"
  by (simp_all add: duo_world_def duo_conn_def duo_chan_def duo_env_def demo_conn_def conn_chan_def Channel_def)

lemma duo_pending [simp]: "pending_of l duo_world = []"
  by (simp add: pending_of_def demo_loop_def duo_loop_def)

lemma duo_poller: "poller_ok duo_env l duo_world" if "l \<in> {1, 3}"
proof -
  have h: "history_conforms (trace duo_world)"
    by (simp add: duo_world_def history_conforms_def ctl_legal_def)
  have i: "interest 5 (trace duo_world) = Map.empty" "interest 6 (trace duo_world) = [9 \<mapsto> \<lparr>ev_events = kReadEvent, ev_ptr = 10\<rparr>]"
    by (simp_all add: duo_world_def interest_def zero_ret_def)
  have p: "poller_at duo_world 2 = Some (small_poller\<lparr>po_epfd := 5\<rparr>)"
    "poller_at duo_world 30 = Some (small_poller\<lparr>po_owner := 3, po_channels := [9 \<mapsto> 10], po_epfd := 6\<rparr>)"
    by (simp_all add: duo_world_def)
  show ?thesis
    using that h i p by (auto simp: poller_ok_def poller_inv_def registry_ok_def channels_ok_def expected_def watched_by_def
        small_poller_def fun_eq_iff kAdd_def kNew_def kDelete_def)
qed

lemma duo_ok: "session_ok duo_env duo_world"
  unfolding session_ok_def
proof (intro conjI ballI allI)
  show "loop_ok duo_env l duo_world" if "l \<in> set (e_loops duo_env)" for l
    using that duo_poller [of l] by (auto simp: loop_ok_def loop_fixed_def demo_loop_def duo_loop_def)
  have t: "table_ok duo_server" using demo_table by (simp add: table_ok_def duo_server_def conn_name_def)
  show "server_ok duo_env duo_world"
    using t by (simp add: server_ok_def server_loops_def duo_server_def demo_server_def EventLoopThreadPool_def duo_conn_def demo_conn_def)
  have tab: "in_table duo_env 8 duo_world"
    by (simp add: in_table_def duo_server_def demo_server_def duo_conn_def demo_conn_def)
  have lk: "linked duo_env 8 duo_conn duo_chan duo_world"
    by (simp add: linked_def duo_conn_def demo_conn_def duo_chan_def conn_chan_def Channel_def Buffer_inv usable_def
        duo_world_def small_poller_def free_for_def duo_env_def)
  have "staged duo_env 8 duo_conn duo_chan (\<lambda>l. at_conn 8 (queue_of duo_world l)) (in_table duo_env 8 duo_world) (kept duo_env 8 duo_world) Open 0"
    using tab by (simp add: staged_def queue_of_def) (simp add: duo_chan_def)
  with lk show "conn_inv duo_env c duo_world" for c unfolding conn_inv_def by (auto split: if_splits)
  show "apart (conn_at duo_world)" by (simp add: apart_def)
  show "targets duo_env duo_world" by (simp add: targets_def queue_of_def)
qed

lemma duo_env_ok: "env_ok duo_env"
  by (simp add: env_ok_def)

lemma duo_hup: "may quiet_kernel 40 (Ready EPOLLHUP (replicate extraBuffer_size 0) 8) duo_world" "hung_up EPOLLHUP"
proof -
  have "watched 30 duo_world 10 = Some kReadEvent"
    by (simp add: watched_def duo_world_def small_poller_def interest_def zero_ret_def duo_chan_def conn_chan_def Channel_def)
  then show "may quiet_kernel 40 (Ready EPOLLHUP (replicate extraBuffer_size 0) 8) duo_world"
    by (simp add: between_def duo_loop_def demo_loop_def duo_conn_def demo_conn_def Buffer_def kReadEvent_def event_masks vec_max_size_def kCheapPrepend_def kInitialSize_def)
  show "hung_up EPOLLHUP" by (simp add: hung_up_def event_masks)
qed

definition quiet_session :: "nat app user_call \<Rightarrow> nat session \<Rightarrow> nat session result" where
  "quiet_session uc m = Inr m"

lemma quiet_session: "quiet_calls quiet_session"
  by (simp add: quiet_calls_def quiet_session_def)




theorem close_after_server_dangles_witness:
  "\<exists>m1 f. perform quiet_kernel quiet_session 40 (Ready EPOLLHUP (replicate extraBuffer_size 0) 8) duo_world = Inr m1
    \<and> pending_of 1 m1 = [f]
    \<and> run_closure quiet_kernel [] (app_call quiet_kernel quiet_session) f 0 (m1\<lparr>server_at := Map.empty\<rparr>) = Inl DanglingPointer"
proof -
  have s: "e_server duo_env = 40" by simp
  show ?thesis
    using close_after_server_dangles [OF duo_ok duo_env_ok quiet_kernel_documented(3,2) quiet_session, of EPOLLHUP
      "replicate extraBuffer_size 0" 8 duo_conn, unfolded s] duo_hup
    by (fastforce simp del: perform.simps may.simps)
qed

theorem shutdown_race_asserts_witness:
  "\<exists>m1 m2 m3. perform quiet_kernel quiet_session 40 (Ready EPOLLHUP (replicate extraBuffer_size 0) 8) duo_world = Inr m1
    \<and> shutdown_rest quiet_kernel 8 (m1\<lparr>cur_tid := 500\<rparr>) = Inr m2
    \<and> conneectDestroyed quiet_kernel (app_call quiet_kernel quiet_session) 8 (m2\<lparr>cur_tid := 300\<rparr>) = Inr m3
    \<and> destroy_TcpConnection quiet_kernel 8 m3 = Inl AssertFailed"
proof -
  have s: "e_server duo_env = 40" by simp
  show ?thesis
    using shutdown_race_asserts [OF duo_ok duo_env_ok quiet_kernel_documented(3,2) quiet_session, of EPOLLHUP
      "replicate extraBuffer_size 0" 8 duo_conn 500, unfolded s] duo_hup
    by (fastforce simp del: perform.simps may.simps)
qed

end
