(* ===== verification/Muduo_Round.thy ===== *)
theory Muduo_Round
  imports Muduo_Lifecycle
begin

text \<open>
  The steps of \<open>Muduo_Session\<close> for one loop, taken without interruption, are \<open>doPendingFunctors\<close>.
\<close>

section \<open>The queue of a round is not read by the functors\<close>

definition along :: "(ptr \<Rightarrow> 'v app closure list) \<Rightarrow> (ptr \<Rightarrow> 'v app closure list) \<Rightarrow> 'v session \<Rightarrow> 'v session" where
  "along a b m = m\<lparr>todo := a, finished := b\<rparr>"

definition in_result :: "('a \<Rightarrow> 'b) \<Rightarrow> 'a result \<Rightarrow> 'b result" where
  "in_result g r = bindE r (\<lambda>x. Inr (g x))"

lemma in_result_values [simp]:
  "in_result g (Inr x) = Inr (g x)" "in_result g (Inl e) = Inl e"
  "in_result g (if P then r else r') = (if P then in_result g r else in_result g r')"
  by (simp_all add: in_result_def)

lemma in_result_bindE [simp]: "in_result g (bindE r f) = bindE r (\<lambda>x. in_result g (f x))"
  by (simp add: in_result_def bindE_assoc)

lemma bindE_in_result [simp]: "bindE (in_result h r) f = bindE r (\<lambda>x. f (h x))"
  by (simp add: in_result_def bindE_assoc)

lemma bindE_if [simp]: "bindE (if P then r else r') f = (if P then bindE r f else bindE r' f)"
  by simp

lemma along_fields [simp]:
  "chan_at (along a b m) = chan_at m" "poller_at (along a b m) = poller_at m" "loop_at (along a b m) = loop_at m"
  "conn_at (along a b m) = conn_at m" "server_at (along a b m) = server_at m" "trace (along a b m) = trace m"
  "cur_tid (along a b m) = cur_tid m" "todo (along a b m) = a" "finished (along a b m) = b"
  by (simp_all add: along_def)

lemma along_updates [simp]:
  "put_chan w ch (along a b m) = along a b (put_chan w ch m)" "put_poller p po (along a b m) = along a b (put_poller p po m)"
  "put_loop l el (along a b m) = along a b (put_loop l el m)" "put_conn c cn (along a b m) = along a b (put_conn c cn m)"
  "put_server s sv (along a b m) = along a b (put_server s sv m)" "log_sys call r (along a b m) = along a b (log_sys call r m)"
  "along a b (along a' b' m) = along a b m"
  by (simp_all add: along_def put_chan_def put_poller_def put_loop_def put_conn_def put_server_def log_sys_def)

lemma along_poller [simp]:
  "set_index i w (along a b m) = in_result (along a b) (set_index i w m)"
  "update K p opn w (along a b m) = in_result (along a b) (update K p opn w m)"
  by (simp_all add: set_index_def update_def do_sys_log Let_def cong: if_cong)

lemma along_registry [simp]:
  "updateChannel K p w (along a b m) = in_result (along a b) (updateChannel K p w m)"
  "removeChannel K p w (along a b m) = in_result (along a b) (removeChannel K p w m)"
  by (simp_all add: updateChannel_def removeChannel_def Let_def bindE_assoc cong: if_cong)

lemma along_channel [simp]:
  "change_events f K w (along a b m) = in_result (along a b) (change_events f K w m)"
  "channel_remove K w (along a b m) = in_result (along a b) (channel_remove K w m)"
  "tie c w (along a b m) = in_result (along a b) (tie c w m)"
  "setState st c (along a b m) = in_result (along a b) (setState st c m)"
  by (simp_all add: change_events_def channel_update_def loop_updateChannel_def channel_remove_def loop_removeChannel_def
      tie_def setState_def)

lemma along_queueInLoop [simp]:
  "queueInLoop K l f (along a b m) = in_result (along a b) (queueInLoop K l f m)"
  by (simp add: queueInLoop_def weakup_def isInLoopthread_def do_sys_log Let_def cong: if_cong)

lemma along_invoke [simp]:
  assumes "quiet_calls V"
  shows "invoke (app_call K V) (\<lambda>u. OnConnection u c) cb (along a b m)
    = in_result (along a b) (invoke (app_call K V) (\<lambda>u. OnConnection u c) cb m)"
  using assms by (cases cb) (simp_all add: invoke_def app_call_def quiet_calls_def)

lemma along_run:
  assumes V: "quiet_calls V" and f: "target f \<noteq> None"
  shows "run_closure K [] (app_call K V) f t (along a b m) = in_result (along a b) (run_closure K [] (app_call K V) f t m)"
  using f
proof (cases f rule: target.cases)
  case (1 c)
  then show ?thesis by (simp add: conneectEstableished_def enableReading_def along_invoke [OF V])
next
  case (2 c)
  then show ?thesis by (simp add: conneectDestroyed_def disableAll_def along_invoke [OF V] bindE_assoc cong: if_cong)
next
  case (3 c)
  then show ?thesis by (simp add: shutdownInLoop_def shutdownWrite_def do_sys_log cong: if_cong)
next
  case (4 s c)
  then show ?thesis by (simp add: app_call_def removeConnectionInLoop_def)
qed simp_all


section \<open>A round in steps\<close>

text \<open>The functors of loop \<open>l\<close> called one after the other, and the same calls in the session, which moves them
  from \<open>todo\<close> to \<open>finished\<close>.\<close>

lemma run_one_along:
  fixes m :: "'v session"
  assumes inv: "session_ok E (along a b m)" and E: "env_ok E" and K: "ctl_documented K" and V: "quiet_calls V"
    and l: "l \<in> set (e_loops E)" and a: "a l = f # fs" and tid: "cur_tid m = e_thread E l"
  shows "\<exists>m'. run_closure K [] (app_call K V) f 0 m = Inr m' \<and> cur_tid m' = e_thread E l \<and> calling l m' = calling l m
    \<and> session_step K V (e_server E) (along a b m) (RunOne l) (along (a(l := fs)) (b(l := b l @ [f])) m')
    \<and> session_ok E (along (a(l := fs)) (b(l := b l @ [f])) m')"
proof -
  let ?a = "a(l := fs)" and ?b = "b(l := b l @ [f])"
  from run_one_ok [OF inv E K V l, of f fs] a obtain m1 where
    m1: "perform K V (e_server E) (RunOne l) (along a b m) = Inr m1" "session_ok E m1" "ran l f fs (along a b m) m1"
      "cur_tid m1 = e_thread E l" by auto
  have "loop_ok E l (along a b m)" using inv l by (simp add: session_ok_def)
  then obtain el where el: "loop_at m l = Some el" "threadId el = e_thread E l" by (rule loop_okD) simp
  have "l \<noteq> 0" using l E by (metis env_ok_def)
  obtain sv where sv: "server_at m (e_server E) = Some sv" "l \<in> set (server_loops sv)"
    using inv l by (auto simp: session_ok_def server_ok_def)
  have "f \<in> set (queue_of (along a b m) l)" using a by (simp add: queue_of_def)
  then have f: "target f \<noteq> None" using inv l unfolding session_ok_def targets_def by fastforce
  have "(along a b m)\<lparr>cur_tid := threadId el, todo := ?a, finished := ?b\<rparr> = along ?a ?b m"
    using el(2) tid by (simp add: along_def)
  then have "perform K V (e_server E) (RunOne l) (along a b m) = run_closure K [] (app_call K V) f 0 (along ?a ?b m)"
    using a el(1) \<open>l \<noteq> 0\<close> by (simp add: in_loop_def)
  with m1(1) along_run [OF V f, of K 0 ?a ?b m] have "in_result (along ?a ?b) (run_closure K [] (app_call K V) f 0 m) = Inr m1"
    by metis
  then obtain m' where m': "run_closure K [] (app_call K V) f 0 m = Inr m'" "m1 = along ?a ?b m'"
    by (auto simp: in_result_def halts)
  have "calling l m' = calling l m" using m1(3) m'(2) by (auto simp: ran_def calling_def)
  moreover have "session_step K V (e_server E) (along a b m) (RunOne l) m1"
    using m1(1) sv a by (simp add: session_step_def)
  ultimately show ?thesis using m' m1(2,4) by auto
qed

lemma run_all_along:
  fixes m :: "'v session"
  assumes "session_ok E (along a b m)" and E: "env_ok E" and K: "ctl_documented K" and V: "quiet_calls V"
    and l: "l \<in> set (e_loops E)" and "a l = fs" and "cur_tid m = e_thread E l" and "calling l m"
  shows "\<exists>m'. foldE (\<lambda>f. run_closure K [] (app_call K V) f 0) fs m = Inr m' \<and> cur_tid m' = e_thread E l \<and> calling l m'
    \<and> runs (session_step K V (e_server E)) (along a b m) (replicate (length fs) (RunOne l)) (along (a(l := [])) (b(l := b l @ fs)) m')
    \<and> session_ok E (along (a(l := [])) (b(l := b l @ fs)) m')"
  using assms(1,6-8)
proof (induction fs arbitrary: a b m)
  case Nil
  then have "a(l := []) = a" "b(l := b l @ []) = b" by auto
  with Nil show ?case by (intro exI [of _ m]) (simp add: runs_Nil)
next
  case (Cons f fs)
  let ?a = "a(l := fs)" and ?b = "b(l := b l @ [f])"
  from run_one_along [OF Cons.prems(1) E K V l Cons.prems(2,3)] Cons.prems(4) obtain m1 where
    m1: "run_closure K [] (app_call K V) f 0 m = Inr m1" "cur_tid m1 = e_thread E l" "calling l m1"
      "session_step K V (e_server E) (along a b m) (RunOne l) (along ?a ?b m1)" "session_ok E (along ?a ?b m1)" by auto
  have last: "?a(l := []) = a(l := [])" "?b(l := ?b l @ fs) = b(l := b l @ f # fs)" by auto
  have "?a l = fs" by simp
  from Cons.IH [OF m1(5) this m1(2,3), unfolded last] obtain m' where
    m': "foldE (\<lambda>f. run_closure K [] (app_call K V) f 0) fs m1 = Inr m'" "cur_tid m' = e_thread E l" "calling l m'"
      "runs (session_step K V (e_server E)) (along ?a ?b m1) (replicate (length fs) (RunOne l)) (along (a(l := [])) (b(l := b l @ f # fs)) m')"
      "session_ok E (along (a(l := [])) (b(l := b l @ f # fs)) m')" by blast
  have "runs (session_step K V (e_server E)) (along a b m) (replicate (length (f # fs)) (RunOne l)) (along (a(l := [])) (b(l := b l @ f # fs)) m')"
    using runs_trans [OF runs_step [of "session_step K V (e_server E)", OF m1(4)] m'(4)] by (simp only: length_Cons replicate_Suc append_Cons append_Nil)
  moreover have "foldE (\<lambda>f. run_closure K [] (app_call K V) f 0) (f # fs) m = Inr m'" using m1(1) m'(1) by simp
  ultimately show ?case using m'(2,3,5) by blast
qed

section \<open>Properties\<close>


text \<open>In the example, thread 100 calls \<open>shutdown\<close> on connection 8 of loop 3.\<close>

definition duo_busy :: "nat session" where
  "duo_busy = (log_sys (SysWrite 7 one_bytes 8) zero_ret (put_loop 3 (duo_loop\<lparr>pendingFunctors := [ShutdownInLoop 8]\<rparr>)
     (put_conn 8 (duo_conn\<lparr>cn_state := kDisconnecting\<rparr>) duo_world)))\<lparr>cur_tid := 300\<rparr>"

lemma duo_busy_ok: "session_ok duo_env duo_busy" "between 3 duo_busy" "pending_of 3 duo_busy = [ShutdownInLoop 8]" "cur_tid duo_busy = 300"
proof -
  have s: "e_server duo_env = 40" by simp
  let ?m = "log_sys (SysWrite 7 one_bytes 8) zero_ret (put_loop 3 (duo_loop\<lparr>pendingFunctors := [ShutdownInLoop 8]\<rparr>)
     (put_conn 8 (duo_conn\<lparr>cn_state := kDisconnecting\<rparr>) duo_world))"
  have d: "cur_tid duo_world = 100" "threadId duo_loop = 300" "pendingFunctors duo_loop = []" "weakupFd duo_loop = 7" "\<not> callingPendingFunctors duo_loop"
    by (simp_all add: duo_world_def duo_loop_def demo_loop_def)
  have "shutdown quiet_kernel 8 duo_world = Inr ?m"
    using d by (simp add: shutdown_def setState_def runInLoop_def isInLoopthread_def queueInLoop_def weakup_def do_sys_log Let_def quiet_kernel_def)
  moreover have "duo_world\<lparr>cur_tid := 100\<rparr> = duo_world" using d(1) by simp
  ultimately have "perform quiet_kernel quiet_session 40 (Shutdown 100 8) duo_world = Inr ?m" by simp
  moreover have "may quiet_kernel 40 (Shutdown 100 8) duo_world" by simp
  note shutdown_ok [OF duo_ok duo_env_ok, unfolded s, OF this, of quiet_session]
  ultimately have ok: "session_ok duo_env ?m" by simp
  show "session_ok duo_env duo_busy"
    by (rule session_ok_core [OF ok]) (simp_all add: duo_busy_def queue_of_def pending_of_def kept_def)
  show "between 3 duo_busy" "pending_of 3 duo_busy = [ShutdownInLoop 8]" "cur_tid duo_busy = 300"
    using d by (simp_all add: duo_busy_def between_def pending_of_def)
qed


end
