(* ===== verification/Spec2Isabelle.thy ===== *)
theory Spec2Isabelle
  imports Muduo_Buffer Muduo_Poller Muduo_TcpServer Muduo_Logger Muduo_Wakeup Muduo_LoopThread
    Muduo_ObserverHeap Muduo_Demo Muduo_Round
begin

text \<open>
  A model of \<open>mymuduo\<close>, a reactor-style network library in C++ (\<open>muduo/\<close>), and of the observer
  pattern beside it (\<open>design_pattern/\<close>).

  \<^bold>\<open>The program.\<close> An \<open>EventLoop\<close> runs in one thread and owns a \<open>Poller\<close> (epoll). A \<open>Channel\<close> ties a
  descriptor to its callbacks; the loop polls, lets every active channel handle its event, and then
  runs the functors that were queued. Other threads reach a loop through \<open>queueInLoop\<close> and an
  \<open>eventfd\<close>. An \<open>Acceptor\<close> owns the listening socket; \<open>TcpServer\<close> makes a \<open>TcpConnection\<close> for each
  accepted descriptor, gives it to the next loop of the \<open>EventLoopThreadPool\<close> and keeps it in a table
  by name until it closes. A connection reads into and writes from a \<open>Buffer\<close>.

  \<^bold>\<open>The theories\<close>, in the order in which they build on each other.

  \<^item> \<open>Muduo_Prelude\<close>: machine types, the ways in which the program stops (\<open>halt\<close>) and the sequencing
    of steps that may stop it, byte arrays, decimal texts, runs of a labelled step relation and systems
    whose work is bounded.
  \<^item> \<open>Muduo_OS\<close>: the system calls, the history of calls, the interest list of an epoll instance and the
    documented behaviour of the calls as predicates on the kernel.
  \<^item> \<open>Muduo_Buffer\<close> (\<open>Buffer.h\<close>): the two indices as 64-bit words, every copy bounds-checked; refinement of
    a byte queue, bounds of \<open>append\<close>, and what \<open>readFd\<close> really reads.
  \<^item> \<open>Muduo_Channel\<close> (\<open>Channel.h\<close>, \<open>Channel.cpp\<close>): the store of channels, interest masks, dispatch of events.
  \<^item> \<open>Muduo_Poller\<close> (\<open>Poller.h\<close>, \<open>Poller.cpp\<close>, \<open>EpollPoller\<close>, \<open>defaultPoller.cpp\<close>): registry and interest
    list, refinement of an abstract demultiplexer, legality of every \<open>epoll_ctl\<close> call.
  \<^item> \<open>Muduo_EventLoop\<close> (\<open>EventLoop.h\<close>, \<open>EventLoop.cpp\<close>, \<open>CurrentThread\<close>): the queue of functors as a task
    queue, when \<open>loop()\<close> returns, construction and destruction.
  \<^item> \<open>Muduo_Wakeup\<close> (\<open>EventLoop.cpp\<close> again): the loop against any number of other threads; no wake-up is
    lost, and the sequential operations are runs of that machine.
  \<^item> \<open>Muduo_Socket\<close> (\<open>Socket\<close>, \<open>InetAddress\<close>): socket options and calls, texts of addresses.
  \<^item> \<open>Muduo_TcpConnection\<close> (\<open>TcpConnection\<close>, \<open>Callbacks.h\<close>): the state machine of a connection, the byte
    stream it promises, its handlers and what goes wrong in them.
  \<^item> \<open>Muduo_Acceptor\<close>, \<open>Muduo_ThreadPool\<close> (\<open>Thread\<close>, \<open>EventLoopThread\<close>, \<open>EventLoopThreadPool\<close>),
    \<open>Muduo_LoopThread\<close> (the handshake of \<open>EventLoopThread\<close> and its destructor, concurrently).
  \<^item> \<open>Muduo_TcpServer\<close>: the table of connections, and the life of a connection from the readable
    listening socket to the closed descriptor, composed from all of the above.
  \<^item> \<open>Muduo_Footprint\<close>, \<open>Muduo_Session\<close>, \<open>Muduo_SessionSteps\<close>, \<open>Muduo_Lifecycle\<close> (\<open>TcpServer.cpp\<close>,
    \<open>TcpConnection.cpp\<close>, \<open>EventLoop.cpp\<close> together): a server with the loops of its pool, every loop in its
    thread. \<open>perform\<close> runs one event with the operations of the earlier theories; \<open>session_ok\<close> says at
    which stage of its life every connection is and what the queues of the loops hold about it. The
    first theory is about what an operation leaves alone, the second has the model and the invariant, the
    third takes the events in turn, and the last shows that nothing goes wrong, that the queued work ends
    and that closed connections are destroyed, and the two ways in which it can still go wrong outside
    that model: the server goes first, or \<open>shutdown\<close> is cut in two. \<open>Muduo_Round\<close>: the steps of one loop
    without interruption are \<open>doPendingFunctors\<close>.
  \<^item> \<open>Muduo_Logger\<close> (\<open>logger\<close>, \<open>timestamp\<close>).
  \<^item> \<open>Muduo_Observer\<close> (\<open>design_pattern/observer.h\<close>): every operation of subjects, observers and the worker
    of a subject, by itself; \<open>Muduo_ObserverHeap\<close>: the heap of subjects and observers, and that a
    well-typed use of it from one thread never goes wrong.
  \<^item> \<open>Muduo_Delivery\<close> (\<open>observer.h\<close> again): any number of threads against the workers, one step for each
    access to shared memory, the list of observers with its nodes and iterators; the sequential
    operations are runs of that machine, messages stay in order, and two ways to crash.
  \<^item> \<open>Muduo_Chat\<close>: programs whose threads send messages and wait for each other: nothing freed is used,
    every message reaches every live observer, every run ends. \<open>Muduo_Demo\<close>
    (\<open>design_pattern/main.cpp\<close>): the demo program on that machine, and a schedule in which it crashes.

  \<^bold>\<open>How state corresponds.\<close> A C++ object that is shared by pointer lives in a store, a map from addresses
  to records (\<open>chan_at\<close>, \<open>poller_at\<close>, \<open>loop_at\<close>, \<open>conn_at\<close>, \<open>server_at\<close>; \<open>subject_at\<close>, \<open>observer_at\<close>); a
  null pointer is 0 and an address that is not in the store dangles. The records extend each other
  (\<open>os\<close>, \<open>machine\<close>, \<open>reactor\<close>, \<open>net\<close>, \<open>world\<close>, \<open>session\<close>), so the operations of a component apply to every later
  machine. Fields keep the names of the code, without the underscore and with a prefix where two
  classes share one. New addresses are arguments of the constructors. Closures made with
  \<open>std::bind\<close> are the constructors of \<open>closure\<close> and \<open>app\<close>; what user callbacks do is a parameter.
  Failed assertions, \<open>LOG_FATAL\<close>, null and dangling pointers, accesses out of bounds and exceptions of
  the standard library are values of \<open>halt\<close>.

  \<^bold>\<open>The kernel\<close> is a parameter \<open>K\<close>, any function of the calls made so far. Hypotheses on it are the
  predicates of \<open>Muduo_OS\<close> and, for the \<open>eventfd\<close>, \<open>eventfd_documented\<close> of \<open>Muduo_Wakeup\<close>; each
  states documented behaviour and has a concrete kernel in the witnesses.

  \<^bold>\<open>Bounds and fuel.\<close> \<open>loop()\<close> is a \<open>partial_function\<close>, whose value is \<open>None\<close> exactly when it does not
  return. The worker of a subject is run for as many turns as there are messages queued, which
  is shown to empty the queue; the destructor of a subject adds one turn, in which the worker
  returns. A run of a program of \<open>Muduo_Chat\<close> has at most \<open>work\<close> steps plus two for every spurious
  wake-up, without fuel. The queued work of a server takes at most \<open>work_left\<close> steps: at most 6 for a
  queued functor, 6 more when it takes a connection out of the table. Connection numbers stay below
  \<open>2 ^ 31\<close> in the properties that print them.

  \<^bold>\<open>Not modelled.\<close> Log output of the other components (only \<open>LOG_FATAL\<close> matters to them, as the end of
  the process). Memory exhaustion. Reference counts of connections are not numbers in the store: up to
  \<open>Muduo_TcpServer\<close> destruction is an explicit operation; in \<open>Muduo_Session\<close> a connection is destroyed when
  neither the table nor a functor, queued or just called, holds it. There one functor or one ready
  descriptor is one step, the user keeps no connection for later, a string is sent in the thread of
  the connection, and the server is not destroyed. In the observer pattern
  one call of \<open>attach\<close>, and the search and the erasure in one call of \<open>detach\<close>, are one step, so
  races inside the operations of \<open>std::list\<close> and on the callback map of an observer are not shown, and
  callbacks do not change lists themselves; the sleeps of the demo are left out. \<open>noncopyable.h\<close>, which
  has no behaviour, and \<open>my_test/test.cpp\<close>, which prints a string built by a third-party library.
\<close>

end
